(* ===== verification/Voltkv_Prelude.thy ===== *)
theory Voltkv_Prelude
  imports Main "HOL-Library.AList" "HOL-Library.Multiset" "HOL-Library.Sublist"
begin

text \<open>
  Shared vocabulary of the development: Go's built-in maps as association lists with distinct
  keys, the order in which \<^verbatim>\<open>range\<close> visits them, 64-bit signed arithmetic, the readings of
  \<^verbatim>\<open>time.Now()\<close>, and the interfaces (as locales) over which the components are built:
  a keyed container, a keyed container whose keys can be counted, an invariant of a
  transition system, a functional refinement between two machines, and a self-delimiting codec.
\<close>

named_theorems golib "characteristic equations of the Go library and runtime operations"
named_theorems invs "preservation of the components' invariants"

section \<open>Machine integers\<close>

text \<open>
  \<^verbatim>\<open>int64\<close>, \<^verbatim>\<open>time.Duration\<close> and (on 64-bit targets) \<^verbatim>\<open>int\<close> are two's complement.
  They are modelled as \<^typ>\<open>int\<close> with the wrap-around of every operation that may overflow
  written out by \<open>wrap64\<close>.
\<close>

definition maxInt64 :: int where "maxInt64 = 9223372036854775807"
definition minInt64 :: int where "minInt64 = - maxInt64 - 1"

definition wrap64 :: "int \<Rightarrow> int" where
  "wrap64 x = (x + 9223372036854775808) mod 18446744073709551616 - 9223372036854775808"

definition in_int64 :: "int \<Rightarrow> bool" where
  "in_int64 x \<longleftrightarrow> minInt64 \<le> x \<and> x \<le> maxInt64"

lemmas int64_defs = maxInt64_def minInt64_def in_int64_def

lemma wrap64_id [simp]: "in_int64 x \<Longrightarrow> wrap64 x = x"
  by (simp add: wrap64_def int64_defs)

lemma wrap64_range: "in_int64 (wrap64 x)"
  unfolding wrap64_def int64_defs
  using pos_mod_bound [of 18446744073709551616 "x + 9223372036854775808"]
    pos_mod_sign [of 18446744073709551616 "x + 9223372036854775808"] by linarith

lemma wrap64_fixpoint: "wrap64 x = x \<longleftrightarrow> in_int64 x"
  using wrap64_range [of x] by auto

text \<open>Go's \<^verbatim>\<open>/\<close> truncates towards zero; the divisors here are positive constants.\<close>

definition go_quot :: "int \<Rightarrow> int \<Rightarrow> int" where
  "go_quot x y = (if x < 0 then - (- x div y) else x div y)"

section \<open>Allocation\<close>

text \<open>
  \<^verbatim>\<open>make\<close> panics on a negative size and beyond the largest allocation of a 64-bit Go
  process, \<open>2 ^ 48\<close> bytes; a string header takes 16 bytes.
\<close>

definition maxAlloc :: int where "maxAlloc = 281474976710656"

definition make_ok :: "int \<Rightarrow> int \<Rightarrow> bool" where
  "make_ok elem n \<longleftrightarrow> 0 \<le> n \<and> elem * n \<le> maxAlloc"

section \<open>Clock readings\<close>

text \<open>
  A \<^verbatim>\<open>time.Time\<close> is the number of nanoseconds since the zero time (year 1), so
  \<^verbatim>\<open>t.IsZero()\<close> is \<open>t = 0\<close>. \<^verbatim>\<open>t.Add(d)\<close> and \<^verbatim>\<open>t.After(u)\<close> are exact, \<^verbatim>\<open>t.Sub(u)\<close>
  saturates at the ends of \<^verbatim>\<open>Duration\<close>.
\<close>

type_synonym time = int
type_synonym duration = int

abbreviation (input) IsZero :: "time \<Rightarrow> bool" where "IsZero t \<equiv> t = 0"

definition time_Sub :: "time \<Rightarrow> time \<Rightarrow> duration" where
  "time_Sub t u = max minInt64 (min maxInt64 (t - u))"

definition Millisecond :: duration where "Millisecond = 1000000"
definition Second :: duration where "Second = 1000000000"

text \<open>
  Every clock reading lies more than the longest duration after the zero time
  (that is, after the year 293), so adding a duration never gives the zero time.
\<close>

definition clock_ok :: "time \<Rightarrow> bool" where
  "clock_ok now \<longleftrightarrow> maxInt64 + 1 < now"

lemma clock_ok_add: "clock_ok now \<Longrightarrow> in_int64 d \<Longrightarrow> 0 < now + d"
  by (simp add: clock_ok_def int64_defs)

section \<open>Go maps\<close>

text \<open>
  A built-in map is an association list whose keys are distinct. Its list order stands for
  nothing: a \<^verbatim>\<open>range\<close> loop visits the keys in an order given by \<open>ord\<close>, of which only
  \<open>perm_order\<close> is known.
\<close>

type_synonym ('k, 'v) gomap = "('k \<times> 'v) list"

definition gm_wf :: "('k, 'v) gomap \<Rightarrow> bool" where
  "gm_wf m \<longleftrightarrow> distinct (map fst m)"

definition gm_put :: "'k \<Rightarrow> 'v \<Rightarrow> ('k, 'v) gomap \<Rightarrow> ('k, 'v) gomap" where
  "gm_put k v m = AList.update k v m"

definition gm_del :: "'k \<Rightarrow> ('k, 'v) gomap \<Rightarrow> ('k, 'v) gomap" where
  "gm_del k m = AList.delete k m"

definition gm_keys :: "('k, 'v) gomap \<Rightarrow> 'k list" where
  "gm_keys m = map fst m"

definition perm_order :: "('k list \<Rightarrow> 'k list) \<Rightarrow> bool" where
  "perm_order ord \<longleftrightarrow> (\<forall>xs. mset (ord xs) = mset xs)"

definition gm_range :: "('k list \<Rightarrow> 'k list) \<Rightarrow> ('k, 'v) gomap \<Rightarrow> ('k \<times> 'v) list" where
  "gm_range ord m = List.map_filter (\<lambda>k. map_option (Pair k) (map_of m k)) (ord (gm_keys m))"

lemma gm_wf_Nil [simp, intro]: "gm_wf []"
  by (simp add: gm_wf_def)

lemma gm_put_eval [simp]:
  "gm_put k v [] = [(k, v)]"
  "gm_put k v (p # ps) = (if fst p = k then (k, v) # ps else p # gm_put k v ps)"
  by (simp_all add: gm_put_def)

lemma gm_del_eval [simp]:
  "gm_del k [] = []"
  "gm_del k (p # ps) = (if fst p = k then gm_del k ps else p # gm_del k ps)"
  by (auto simp: gm_del_def AList.delete_eq)

lemma map_of_gm_put [simp]: "map_of (gm_put k v m) = (map_of m)(k \<mapsto> v)"
  by (simp add: gm_put_def update_conv')

lemma map_of_gm_del [simp]: "map_of (gm_del k m) = (map_of m)(k := None)"
  by (simp add: gm_del_def AList.delete_conv')

lemma gm_wf_put [intro, invs]: "gm_wf m \<Longrightarrow> gm_wf (gm_put k v m)"
  by (simp add: gm_wf_def gm_put_def distinct_update)

lemma gm_wf_del [intro, invs]: "gm_wf m \<Longrightarrow> gm_wf (gm_del k m)"
  by (simp add: gm_wf_def gm_del_def AList.distinct_delete)

lemma gm_put_not_Nil [simp]: "gm_put k v m \<noteq> []"
  by (cases m) auto

lemma set_gm_keys [simp]: "set (gm_keys m) = dom (map_of m)"
  by (simp add: gm_keys_def dom_map_of_conv_image_fst)

lemma length_gm_keys [simp]: "length (gm_keys m) = length m"
  by (simp add: gm_keys_def)

lemma gm_Nil_iff: "m = [] \<longleftrightarrow> map_of m = Map.empty"
  by (metis map_of_eq_empty_iff)

lemma gm_in_set: "gm_wf m \<Longrightarrow> (k, v) \<in> set m \<longleftrightarrow> map_of m k = Some v"
  by (simp add: gm_wf_def)

lemma gm_length_card: "gm_wf m \<Longrightarrow> length m = card (dom (map_of m))"
  unfolding gm_wf_def by (metis distinct_card dom_map_of_conv_image_fst length_map list.set_map)

lemma perm_order_set [simp]: "perm_order ord \<Longrightarrow> set (ord xs) = set xs"
  by (metis perm_order_def set_mset_mset)

lemma perm_order_distinct [simp]: "perm_order ord \<Longrightarrow> distinct (ord xs) = distinct xs"
  by (metis perm_order_def mset_eq_imp_distinct_iff)

lemma perm_order_length [simp]: "perm_order ord \<Longrightarrow> length (ord xs) = length xs"
  by (metis perm_order_def mset_eq_length)

lemma perm_order_id [simp]: "perm_order (\<lambda>xs. xs)"
  by (simp add: perm_order_def)

lemma perm_order_rev [simp]: "perm_order rev"
  by (simp add: perm_order_def)

lemma gm_range_map:
  "perm_order ord \<Longrightarrow> gm_range ord m = map (\<lambda>k. (k, the (map_of m k))) (ord (gm_keys m))"
proof -
  assume "perm_order ord"
  then have "\<forall>k\<in>set (ord (gm_keys m)). map_of m k \<noteq> None" by auto
  then have "List.map_filter (\<lambda>k. map_option (Pair k) (map_of m k)) ks
      = map (\<lambda>k. (k, the (map_of m k))) ks" if "set ks \<subseteq> set (ord (gm_keys m))" for ks
    using that by (induction ks) (auto simp: List.map_filter_def)
  then show ?thesis by (simp add: gm_range_def)
qed

lemma gm_range_keys: "perm_order ord \<Longrightarrow> map fst (gm_range ord m) = ord (gm_keys m)"
  by (simp add: gm_range_map comp_def)

lemma gm_range_mset:
  assumes "perm_order ord" and "gm_wf m"
  shows "mset (gm_range ord m) = mset m"
proof -
  have "mset (gm_range ord m) = image_mset (\<lambda>k. (k, the (map_of m k))) (mset (gm_keys m))"
    using assms(1) by (simp add: gm_range_map) (simp add: perm_order_def)
  also have "\<dots> = mset (map (\<lambda>p. (fst p, the (map_of m (fst p)))) m)"
    by (simp add: gm_keys_def comp_def multiset.map_comp)
  also have "map (\<lambda>p. (fst p, the (map_of m (fst p)))) m = m"
    using assms(2) by (intro map_idI) (auto simp: gm_wf_def)
  finally show ?thesis .
qed

lemma gm_range_set:
  "perm_order ord \<Longrightarrow> gm_wf m \<Longrightarrow> set (gm_range ord m) = set m"
  by (metis gm_range_mset set_mset_mset)

lemma gm_range_length:
  "perm_order ord \<Longrightarrow> gm_wf m \<Longrightarrow> length (gm_range ord m) = length m"
  by (metis gm_range_mset size_mset)

lemma gm_range_wf:
  "perm_order ord \<Longrightarrow> gm_wf m \<Longrightarrow> gm_wf (gm_range ord m)"
  by (simp add: gm_wf_def gm_range_keys gm_keys_def)

lemma gm_range_lookup:
  assumes "perm_order ord" "gm_wf m" shows "map_of (gm_range ord m) = map_of m"
proof
  fix k
  have "map_of (gm_range ord m) k = Some v \<longleftrightarrow> map_of m k = Some v" for v
    using gm_in_set [OF gm_range_wf [OF assms], of k v] gm_in_set [OF assms(2), of k v]
    by (simp add: gm_range_set [OF assms])
  then show "map_of (gm_range ord m) k = map_of m k"
    by (metis not_None_eq)
qed

section \<open>Interfaces\<close>

subsection \<open>Keyed containers\<close>

text \<open>What a client relies on when it calls a container that maps keys to values.\<close>

locale keyed =
  fixes lookup :: "'m \<Rightarrow> 'k \<Rightarrow> 'v option"
    and put :: "'k \<Rightarrow> 'v \<Rightarrow> 'm \<Rightarrow> 'm"
    and del :: "'k \<Rightarrow> 'm \<Rightarrow> 'm"
    and ok :: "'m \<Rightarrow> bool"
  assumes lookup_put: "ok m \<Longrightarrow> lookup (put k v m) = (lookup m)(k \<mapsto> v)"
    and lookup_del: "ok m \<Longrightarrow> lookup (del k m) = (lookup m)(k := None)"
    and ok_put: "ok m \<Longrightarrow> ok (put k v m)"
    and ok_del: "ok m \<Longrightarrow> ok (del k m)"
begin

lemma ok_put_all: "ok m \<Longrightarrow> ok (fold (\<lambda>(k, v). put k v) kvs m)"
  by (induction kvs arbitrary: m) (auto simp: ok_put)

lemma lookup_put_all:
  "ok m \<Longrightarrow> lookup (fold (\<lambda>(k, v). put k v) kvs m) = lookup m ++ map_of (rev kvs)"
  by (induction kvs arbitrary: m) (auto simp: ok_put lookup_put)

lemma ok_del_all: "ok m \<Longrightarrow> ok (fold del ks m)"
  by (induction ks arbitrary: m) (auto simp: ok_del)

lemma lookup_del_all: "ok m \<Longrightarrow> lookup (fold del ks m) = lookup m |` (- set ks)"
  by (induction ks arbitrary: m) (auto simp: ok_del lookup_del fun_eq_iff restrict_map_def)

lemma dom_put_all: "ok m \<Longrightarrow> dom (lookup (fold (\<lambda>(k, v). put k v) kvs m))
    = dom (lookup m) \<union> fst ` set kvs"
  by (simp add: lookup_put_all dom_map_of_conv_image_fst Un_commute)

end

text \<open>A keyed container of which the keys can be listed, each once.\<close>

locale counted = keyed lookup put del ok
  for lookup :: "'m \<Rightarrow> 'k \<Rightarrow> 'v option" and put del ok +
  fixes keys :: "'m \<Rightarrow> 'k list"
  assumes keys_dom: "ok m \<Longrightarrow> set (keys m) = dom (lookup m)"
    and keys_distinct: "ok m \<Longrightarrow> distinct (keys m)"
begin

lemma count_card: "ok m \<Longrightarrow> length (keys m) = card (dom (lookup m))"
  using distinct_card [OF keys_distinct] by (simp add: keys_dom)

lemma finite_dom: "ok m \<Longrightarrow> finite (dom (lookup m))"
  by (metis keys_dom List.finite_set)

lemma count_put:
  "ok m \<Longrightarrow> length (keys (put k v m)) = length (keys m) + (if lookup m k = None then 1 else 0)"
  by (auto simp: count_card ok_put lookup_put finite_dom insert_absorb domIff)

lemma count_del:
  "ok m \<Longrightarrow> length (keys (del k m)) + (if lookup m k = None then 0 else 1) = length (keys m)"
  using card_Suc_Diff1 [OF finite_dom [of m], of k]
  by (auto simp: count_card ok_del lookup_del domIff)

end

interpretation gm: counted map_of gm_put gm_del gm_wf gm_keys
  by unfold_locales (auto simp: gm_wf_def gm_keys_def dom_map_of_conv_image_fst
    intro: gm_wf_put [unfolded gm_wf_def] gm_wf_del [unfolded gm_wf_def])

lemma gm_put_length:
  "gm_wf m \<Longrightarrow> length (gm_put k v m) = length m + (if map_of m k = None then 1 else 0)"
  using gm.count_put [of m k v] by (simp only: length_gm_keys)

lemma gm_del_length:
  "gm_wf m \<Longrightarrow> length (gm_del k m) + (if map_of m k = None then 0 else 1) = length m"
  using gm.count_del [of m k] by (simp only: length_gm_keys)

subsection \<open>Transition systems\<close>

locale transition_invariant =
  fixes init :: "'s \<Rightarrow> bool" and step :: "'s \<Rightarrow> 's \<Rightarrow> bool" and good :: "'s \<Rightarrow> bool"
  assumes good_init: "init s \<Longrightarrow> good s"
    and good_step: "good s \<Longrightarrow> step s t \<Longrightarrow> good t"
begin

lemma good_steps: "step\<^sup>*\<^sup>* s t \<Longrightarrow> good s \<Longrightarrow> good t"
  by (induction rule: rtranclp_induct) (auto intro: good_step)

lemma good_reachable: "init s \<Longrightarrow> step\<^sup>*\<^sup>* s t \<Longrightarrow> good t"
  by (blast intro: good_init good_steps)

end

subsection \<open>Functional refinement\<close>

text \<open>A machine with operations and results, run over a list of operations.\<close>

fun run_ops :: "('op \<Rightarrow> 's \<Rightarrow> 's \<times> 'r) \<Rightarrow> 'op list \<Rightarrow> 's \<Rightarrow> 's \<times> 'r list" where
  "run_ops f [] s = (s, [])"
| "run_ops f (x # xs) s =
     (let (s', r) = f x s; (s'', rs) = run_ops f xs s' in (s'', r # rs))"

locale refines =
  fixes cstep :: "'op \<Rightarrow> 'c \<Rightarrow> 'c \<times> 'r"
    and astep :: "'op \<Rightarrow> 'a \<Rightarrow> 'a \<times> 'r"
    and abs :: "'c \<Rightarrow> 'a"
    and ok :: "'c \<Rightarrow> bool"
    and allowed :: "'op \<Rightarrow> bool"
  assumes step_ok: "ok c \<Longrightarrow> allowed x \<Longrightarrow> ok (fst (cstep x c))"
    and step_abs: "ok c \<Longrightarrow> allowed x \<Longrightarrow>
      astep x (abs c) = (abs (fst (cstep x c)), snd (cstep x c))"
begin

lemma run_ok: "ok c \<Longrightarrow> \<forall>x\<in>set xs. allowed x \<Longrightarrow> ok (fst (run_ops cstep xs c))"
proof (induction xs arbitrary: c)
  case (Cons x xs)
  then have "ok (fst (cstep x c))" by (simp add: step_ok)
  with Cons.IH [OF this] Cons.prems show ?case by (auto split: prod.splits simp: Let_def)
qed simp

lemma run_abs:
  "ok c \<Longrightarrow> \<forall>x\<in>set xs. allowed x \<Longrightarrow>
    run_ops astep xs (abs c) = (abs (fst (run_ops cstep xs c)), snd (run_ops cstep xs c))"
proof (induction xs arbitrary: c)
  case (Cons x xs)
  then have "ok (fst (cstep x c))" by (simp add: step_ok)
  with Cons.IH [OF this] Cons.prems step_abs [of c x] show ?case by (auto split: prod.splits simp: Let_def)
qed simp

end

subsection \<open>Self-delimiting codecs\<close>

text \<open>
  Everything a decoder reads from a stream until it first fails, and the failure.
\<close>

inductive reads_all :: "('b list \<Rightarrow> 'e + ('a \<times> 'b list)) \<Rightarrow> 'b list \<Rightarrow> 'a list \<Rightarrow> 'e \<Rightarrow> bool"
  for dec where
  stop: "dec s = Inl e \<Longrightarrow> reads_all dec s [] e"
| more: "dec s = Inr (x, r) \<Longrightarrow> reads_all dec r xs e \<Longrightarrow> reads_all dec s (x # xs) e"

inductive_cases reads_all_NilE: "reads_all dec s [] e"
inductive_cases reads_all_ConsE: "reads_all dec s (x # xs) e"

lemma reads_all_det:
  "reads_all dec s xs e \<Longrightarrow> reads_all dec s ys f \<Longrightarrow> xs = ys \<and> e = f"
proof (induction arbitrary: ys f rule: reads_all.induct)
  case (stop s e)
  then show ?case by (auto elim: reads_all.cases)
next
  case (more s x r xs e)
  from more.prems more.hyps(1) show ?case
    by (cases rule: reads_all.cases) (auto dest: more.IH)
qed

lemma prefix_append_cases:
  assumes "prefix p (a @ b)"
  obtains "strict_prefix p a" | q where "p = a @ q" "prefix q b"
  using assms by (metis prefix_append prefix_order.le_imp_less_or_eq append_Nil2 Nil_prefix)

lemma strict_prefix_append_cases:
  assumes "strict_prefix p (a @ b)"
  obtains "strict_prefix p a" | q where "p = a @ q" "strict_prefix q b"
proof -
  from assms have "prefix p (a @ b)" by auto
  then show thesis
  proof (cases rule: prefix_append_cases)
    case 2
    with assms show thesis using that(2) by (auto simp: strict_prefix_def)
  qed (rule that(1))
qed

locale codec =
  fixes enc :: "'a \<Rightarrow> 'b list"
    and dec :: "'b list \<Rightarrow> 'e + ('a \<times> 'b list)"
    and valid :: "'a \<Rightarrow> bool"
    and torn :: "'e \<Rightarrow> bool"
  assumes dec_enc: "valid x \<Longrightarrow> dec (enc x @ rest) = Inr (x, rest)"
    and dec_torn: "valid x \<Longrightarrow> strict_prefix p (enc x) \<Longrightarrow> \<exists>e. dec p = Inl e \<and> torn e"
    and dec_Nil: "\<exists>e. dec [] = Inl e \<and> torn e"
begin

lemma reads_encoded:
  "\<forall>x\<in>set xs. valid x \<Longrightarrow> reads_all dec rest ys e \<Longrightarrow>
    reads_all dec (concat (map enc xs) @ rest) (xs @ ys) e"
  by (induction xs) (auto intro: reads_all.more simp: dec_enc)

lemma reads_torn:
  assumes "\<forall>x\<in>set xs. valid x" and "prefix p (concat (map enc xs))"
  shows "\<exists>k e. reads_all dec p (take k xs) e \<and> torn e"
  using assms
proof (induction xs arbitrary: p)
  case Nil
  then show ?case using dec_Nil by (auto intro: reads_all.stop)
next
  case (Cons x xs)
  then have "prefix p (enc x @ concat (map enc xs))" by simp
  then show ?case
  proof (cases rule: prefix_append_cases)
    case 1
    with Cons.prems dec_torn [of x p] obtain e where "dec p = Inl e" "torn e" by auto
    then show ?thesis by (intro exI [of _ 0] exI [of _ e]) (auto intro: reads_all.stop)
  next
    case (2 q)
    obtain k e where "reads_all dec q (take k xs) e" "torn e"
      using Cons.IH [OF _ 2(2)] Cons.prems(1) by auto
    with 2 Cons.prems show ?thesis
      by (intro exI [of _ "Suc k"] exI [of _ e]) (auto intro!: reads_all.more simp: dec_enc)
  qed
qed

lemma enc_inject: "valid x \<Longrightarrow> valid y \<Longrightarrow> enc x = enc y \<Longrightarrow> x = y"
  by (metis Inr_inject append_Nil2 dec_enc prod.inject)

end

end
