(* ===== verification/Go_Strings.thy ===== *)
theory Go_Strings
  imports Voltkv_Prelude "HOL-Library.Char_ord"
begin

text \<open>
  The part of Go's standard library the program computes with: decimal conversion
  (\<^verbatim>\<open>strconv.ParseInt\<close>, \<^verbatim>\<open>strconv.Atoi\<close>, \<^verbatim>\<open>strconv.FormatInt\<close>, \<^verbatim>\<open>%d\<close>),
  the decoding of a string into runes (\<^verbatim>\<open>for _, ch := range s\<close>) and the case mapping
  (\<^verbatim>\<open>strings.ToUpper\<close>, \<^verbatim>\<open>strings.ToLower\<close>).
  A Go string is a sequence of bytes, here a \<^typ>\<open>string\<close>: a \<^typ>\<open>char\<close> is a byte.
\<close>

section \<open>Bytes\<close>

abbreviation byte_val :: "char \<Rightarrow> nat" where "byte_val c \<equiv> of_char c"

definition in_bytes :: "nat \<Rightarrow> nat \<Rightarrow> char \<Rightarrow> bool" where
  "in_bytes lo hi c \<longleftrightarrow> lo \<le> byte_val c \<and> byte_val c \<le> hi"

definition CR :: char where "CR = CHR 0x0D"
definition LF :: char where "LF = CHR 0x0A"
definition CRLF :: string where "CRLF = [CR, LF]"

lemma CR_LF_neq [simp]: "CR \<noteq> LF" "LF \<noteq> CR"
  by (simp_all add: CR_def LF_def)

text \<open>Evaluates \<^term>\<open>char_of\<close> on numerals.\<close>

lemmas char_eval = char_of_def bit_0

section \<open>Decimal conversion\<close>

definition isDigit :: "char \<Rightarrow> bool" where
  "isDigit c \<longleftrightarrow> in_bytes 48 57 c"

definition digit_val :: "char \<Rightarrow> nat" where
  "digit_val c = byte_val c - 48"

definition digit_char :: "nat \<Rightarrow> char" where
  "digit_char d = char_of (48 + d)"

fun nat_dec :: "nat \<Rightarrow> string" where
  "nat_dec n = (if n < 10 then [digit_char n] else nat_dec (n div 10) @ [digit_char (n mod 10)])"

declare nat_dec.simps [simp del]

text \<open>\<^verbatim>\<open>strconv.FormatInt(n, 10)\<close>, \<^verbatim>\<open>strconv.Itoa\<close> and \<^verbatim>\<open>fmt\<close>'s \<^verbatim>\<open>%d\<close>.\<close>

definition FormatInt :: "int \<Rightarrow> string" where
  "FormatInt n = (if n < 0 then CHR ''-'' # nat_dec (nat (- n)) else nat_dec (nat n))"

fun dec_val :: "nat \<Rightarrow> string \<Rightarrow> nat option" where
  "dec_val a [] = Some a"
| "dec_val a (c # cs) = (if isDigit c then dec_val (10 * a + digit_val c) cs else None)"

definition ParseUint :: "string \<Rightarrow> nat option" where
  "ParseUint s = (if s = [] then None else dec_val 0 s)"

text \<open>
  \<^verbatim>\<open>strconv.ParseInt(s, 10, 64)\<close>: an optional sign, then at least one digit and nothing
  else, within the range of \<^verbatim>\<open>int64\<close>. Every error is \<open>None\<close>: no caller tells them apart.
  \<^verbatim>\<open>strconv.Atoi\<close> accepts the same strings where \<^verbatim>\<open>int\<close> has 64 bits.
\<close>

definition ParseInt :: "string \<Rightarrow> int option" where
  "ParseInt s =
     (case s of
        [] \<Rightarrow> None
      | c # cs \<Rightarrow>
          let neg = (c = CHR ''-'');
              body = (if c = CHR ''+'' \<or> c = CHR ''-'' then cs else s)
          in case ParseUint body of
               None \<Rightarrow> None
             | Some un \<Rightarrow>
                 if \<not> neg \<and> un \<ge> 9223372036854775808 then None
                 else if neg \<and> un > 9223372036854775808 then None
                 else Some (if neg then - int un else int un))"

abbreviation Atoi :: "string \<Rightarrow> int option" where "Atoi \<equiv> ParseInt"

lemma of_char_digit [simp]: "d < 10 \<Longrightarrow> byte_val (digit_char d) = 48 + d"
  by (simp add: digit_char_def of_char_of take_bit_eq_mod)

lemma digit_char_isDigit [simp]: "d < 10 \<Longrightarrow> isDigit (digit_char d)"
  by (simp add: isDigit_def in_bytes_def)

lemma digit_val_char [simp]: "d < 10 \<Longrightarrow> digit_val (digit_char d) = d"
  by (simp add: digit_val_def)

lemma dec_val_append:
  "dec_val a (xs @ ys) = (case dec_val a xs of None \<Rightarrow> None | Some b \<Rightarrow> dec_val b ys)"
  by (induction xs arbitrary: a) auto

lemma nat_dec_Nil [simp]: "nat_dec n \<noteq> []"
  by (subst nat_dec.simps) simp

lemma nat_dec_digits: "c \<in> set (nat_dec n) \<Longrightarrow> isDigit c"
proof (induction n rule: nat_dec.induct)
  case (1 n)
  then show ?case
    by (cases "n < 10") (auto simp: nat_dec.simps [of n])
qed

lemma dec_val_nat_dec: "dec_val 0 (nat_dec n) = Some n"
proof (induction n rule: nat_dec.induct)
  case (1 n)
  then show ?case
    by (cases "n < 10") (auto simp: nat_dec.simps [of n] dec_val_append)
qed

lemma not_isDigit [simp]:
  "\<not> isDigit CR" "\<not> isDigit LF" "\<not> isDigit (CHR ''-'')" "\<not> isDigit (CHR ''+'')"
  by (simp_all add: isDigit_def in_bytes_def CR_def LF_def)

lemma FormatInt_not_Nil [simp]: "FormatInt n \<noteq> []"
  by (simp add: FormatInt_def)

lemma FormatInt_chars: "c \<in> set (FormatInt n) \<Longrightarrow> isDigit c \<or> c = CHR ''-''"
  by (auto simp: FormatInt_def nat_dec_digits split: if_splits)

lemma FormatInt_no_newline [simp]: "LF \<notin> set (FormatInt n)" "CR \<notin> set (FormatInt n)"
  using FormatInt_chars [of LF n] FormatInt_chars [of CR n] by (auto simp: CR_def LF_def isDigit_def in_bytes_def)

lemma ParseInt_digits:
  assumes "\<forall>c\<in>set s. isDigit c" and "s \<noteq> []"
  shows "ParseInt s = (case dec_val 0 s of None \<Rightarrow> None
    | Some n \<Rightarrow> if n < 9223372036854775808 then Some (int n) else None)"
proof -
  obtain c cs where s: "s = c # cs" using assms(2) by (cases s) auto
  then have "c \<noteq> CHR ''-''" "c \<noteq> CHR ''+''" using assms(1) by auto
  then show ?thesis
    by (auto simp: ParseInt_def ParseUint_def s Let_def split: option.splits)
qed

text \<open>What the program formats, it reads back, over the whole range of \<^verbatim>\<open>int64\<close>.\<close>

lemma ParseInt_FormatInt [golib]:
  assumes "in_int64 n" shows "ParseInt (FormatInt n) = Some n"
proof (cases "n < 0")
  case True
  then have "nat (- n) \<le> 9223372036854775808" using assms by (simp add: int64_defs)
  with True show ?thesis
    by (simp add: FormatInt_def ParseInt_def ParseUint_def dec_val_nat_dec)
next
  case False
  then have "nat n < 9223372036854775808" using assms by (simp add: int64_defs)
  with False show ?thesis
    by (subst ParseInt_digits) (auto simp: FormatInt_def nat_dec_digits dec_val_nat_dec)
qed

lemma ParseInt_range: "ParseInt s = Some n \<Longrightarrow> in_int64 n"
  by (auto simp: ParseInt_def int64_defs Let_def split: list.splits option.splits if_splits)

lemma FormatInt_inject: "in_int64 m \<Longrightarrow> in_int64 n \<Longrightarrow> FormatInt m = FormatInt n \<longleftrightarrow> m = n"
  using ParseInt_FormatInt by (metis option.inject)

section \<open>Runes\<close>

text \<open>
  The width of the well-formed UTF-8 sequence at the front of a string, 0 if there is none
  (\<^verbatim>\<open>utf8.DecodeRuneInString\<close>: overlong forms, surrogates and values beyond U+10FFFF are
  malformed).
\<close>

definition cont :: "char \<Rightarrow> bool" where "cont = in_bytes 128 191"

definition rune_len :: "string \<Rightarrow> nat" where
  "rune_len s =
     (case s of
        [] \<Rightarrow> 0
      | b # r \<Rightarrow>
          if in_bytes 0 127 b then 1
          else if in_bytes 194 223 b then
            (case r of c1 # _ \<Rightarrow> if cont c1 then 2 else 0 | [] \<Rightarrow> 0)
          else if in_bytes 224 239 b then
            (case r of
               c1 # c2 # _ \<Rightarrow>
                 if in_bytes (if byte_val b = 224 then 160 else 128)
                      (if byte_val b = 237 then 159 else 191) c1 \<and> cont c2
                 then 3 else 0
             | _ \<Rightarrow> 0)
          else if in_bytes 240 244 b then
            (case r of
               c1 # c2 # c3 # _ \<Rightarrow>
                 if in_bytes (if byte_val b = 240 then 144 else 128)
                      (if byte_val b = 244 then 143 else 191) c1 \<and> cont c2 \<and> cont c3
                 then 4 else 0
             | _ \<Rightarrow> 0)
          else 0)"

text \<open>The encoding of U+FFFD, which stands for a malformed byte.\<close>

definition runeError :: string where
  "runeError = [CHR 0xEF, CHR 0xBF, CHR 0xBD]"

text \<open>
  The runes \<^verbatim>\<open>range\<close> delivers, each as the bytes \<^verbatim>\<open>string(rune)\<close> encodes it to.
\<close>

function go_runes :: "string \<Rightarrow> string list" where
  "go_runes [] = []"
| "go_runes (b # r) =
     (let n = rune_len (b # r)
      in if n = 0 then runeError # go_runes r
         else take n (b # r) # go_runes (drop n (b # r)))"
  by pat_completeness auto
termination by (relation "measure length") auto

lemma rune_len_ascii [simp]: "in_bytes 0 127 b \<Longrightarrow> rune_len (b # r) = 1"
  by (simp add: rune_len_def)

lemma go_runes_ascii: "\<forall>c\<in>set s. in_bytes 0 127 c \<Longrightarrow> go_runes s = map (\<lambda>c. [c]) s"
  by (induction s) simp_all

lemma go_runes_ascii_Cons:
  "in_bytes 0 127 c \<Longrightarrow> go_runes (c # s) = [c] # go_runes s"
  by simp

lemma go_runes_nonempty: "r \<in> set (go_runes s) \<Longrightarrow> r \<noteq> []"
  by (induction s rule: go_runes.induct) (auto simp: runeError_def Let_def split: if_splits)

section \<open>Case mapping\<close>

text \<open>
  Only the runes whose image has ASCII letters matter to the program, since it compares the
  image with ASCII literals: the letters themselves, and
  U+0131 (dotless i) and U+017F (long s), which \<^verbatim>\<open>unicode.ToUpper\<close> sends to \<open>I\<close> and \<open>S\<close>;
  U+0130 and U+212A (Kelvin sign), which \<^verbatim>\<open>unicode.ToLower\<close> sends to \<open>i\<close> and \<open>k\<close>.
  Every other rune is sent to a rune outside ASCII, and is left as it is here.
\<close>

definition upper_byte :: "char \<Rightarrow> char" where
  "upper_byte c = (if in_bytes 97 122 c then char_of (byte_val c - 32) else c)"

definition lower_byte :: "char \<Rightarrow> char" where
  "lower_byte c = (if in_bytes 65 90 c then char_of (byte_val c + 32) else c)"

definition upper_rune :: "string \<Rightarrow> string" where
  "upper_rune r =
     (if r = [CHR 0xC4, CHR 0xB1] then ''I''
      else if r = [CHR 0xC5, CHR 0xBF] then ''S''
      else map upper_byte r)"

definition lower_rune :: "string \<Rightarrow> string" where
  "lower_rune r =
     (if r = [CHR 0xC4, CHR 0xB0] then ''i''
      else if r = [CHR 0xE2, CHR 0x84, CHR 0xAA] then ''k''
      else map lower_byte r)"

definition ToUpper :: "string \<Rightarrow> string" where
  "ToUpper s = concat (map upper_rune (go_runes s))"

definition ToLower :: "string \<Rightarrow> string" where
  "ToLower s = concat (map lower_rune (go_runes s))"

definition ascii_upper :: "string \<Rightarrow> bool" where
  "ascii_upper s \<longleftrightarrow> (\<forall>c\<in>set s. in_bytes 0 127 c \<and> \<not> in_bytes 97 122 c)"

lemma ToUpper_fixed: "ascii_upper s \<Longrightarrow> ToUpper s = s"
proof -
  assume s: "ascii_upper s"
  then have "go_runes s = map (\<lambda>c. [c]) s"
    by (intro go_runes_ascii) (simp add: ascii_upper_def)
  with s show ?thesis
    by (simp add: ToUpper_def comp_def upper_rune_def upper_byte_def ascii_upper_def
        cong: map_cong)
qed

lemma ToUpper_set: "ToUpper ''SET'' = ''SET''" "ToUpper ''set'' = ''SET''"
  by (simp_all add: ToUpper_def upper_rune_def upper_byte_def in_bytes_def char_eval)

lemma nat_dec_digit: "n < 10 \<Longrightarrow> nat_dec n = [digit_char n]"
  by (simp add: nat_dec.simps)

lemma FormatInt_small:
  "FormatInt 1 = ''1''" "FormatInt 2 = ''2''" "FormatInt (-1) = ''-1''"
  by (simp_all add: FormatInt_def nat_dec_digit digit_char_def char_eval)

end
