(* ===== verification/Resp.thy ===== *)
theory Resp
  imports Go_Strings
begin

text \<open>
  The RESP2 protocol (\<^verbatim>\<open>internal/resp/resp.go\<close>). A \<^verbatim>\<open>Reader\<close> is the sequence of bytes it has
  yet to deliver before end of file; each reading operation returns its result with the bytes
  left, or the error. A \<^verbatim>\<open>Writer\<close> operation is the byte sequence it appends to the buffer
  (that the buffer may fail to reach the connection shows at \<^verbatim>\<open>Flush\<close> only).
\<close>

section \<open>Reader\<close>

datatype read_error =
    EOF
  | UnexpectedEOF
  | NumError            \<comment> \<open>from \<^verbatim>\<open>strconv.Atoi\<close>\<close>
  | NotBulk char        \<comment> \<open>\<^verbatim>\<open>resp: expected bulk string\<close>\<close>
  | MakePanic           \<comment> \<open>run-time panic of \<^verbatim>\<open>make\<close>, which ends the process\<close>

type_synonym 'a reading = "read_error + ('a \<times> string)"

text \<open>\<^verbatim>\<open>bufio.Reader\<close> and \<^verbatim>\<open>io.ReadFull\<close>\<close>

definition ReadByte :: "string \<Rightarrow> char reading" where
  "ReadByte s = (case s of [] \<Rightarrow> Inl EOF | b # r \<Rightarrow> Inr (b, r))"

fun ReadString :: "char \<Rightarrow> string \<Rightarrow> string reading" where
  "ReadString d [] = Inl EOF"
| "ReadString d (b # r) =
     (if b = d then Inr ([b], r)
      else case ReadString d r of Inl e \<Rightarrow> Inl e | Inr (line, r') \<Rightarrow> Inr (b # line, r'))"

definition ReadFull :: "nat \<Rightarrow> string \<Rightarrow> string reading" where
  "ReadFull n s =
     (if n \<le> length s then Inr (take n s, drop n s)
      else if s = [] then Inl EOF else Inl UnexpectedEOF)"

definition Discard :: "nat \<Rightarrow> string \<Rightarrow> unit reading" where
  "Discard n s = (if n \<le> length s then Inr ((), drop n s) else Inl EOF)"

definition strip_eol :: "string \<Rightarrow> string" where
  "strip_eol line = rev (dropWhile (\<lambda>c. c = LF \<or> c = CR) (rev line))"

definition readLine :: "string \<Rightarrow> string reading" where
  "readLine s =
     (case ReadString LF s of Inl e \<Rightarrow> Inl e | Inr (line, r) \<Rightarrow> Inr (strip_eol line, r))"

definition readInt :: "string \<Rightarrow> int reading" where
  "readInt s =
     (case readLine s of
        Inl e \<Rightarrow> Inl e
      | Inr (line, r) \<Rightarrow> (case Atoi line of None \<Rightarrow> Inl NumError | Some n \<Rightarrow> Inr (n, r)))"

text \<open>The body of the loop of \<^verbatim>\<open>readArray\<close>.\<close>

definition readBulk :: "string \<Rightarrow> string reading" where
  "readBulk s =
     (case ReadByte s of
        Inl e \<Rightarrow> Inl e
      | Inr (b, s1) \<Rightarrow>
          if b \<noteq> CHR ''$'' then Inl (NotBulk b)
          else case readInt s1 of
            Inl e \<Rightarrow> Inl e
          | Inr (len, s2) \<Rightarrow>
              if \<not> make_ok 1 len then Inl MakePanic
              else case ReadFull (nat len) s2 of
                Inl e \<Rightarrow> Inl e
              | Inr (buf, s3) \<Rightarrow>
                  (case Discard 2 s3 of Inl e \<Rightarrow> Inl e | Inr (_, s4) \<Rightarrow> Inr (buf, s4)))"

text \<open>\<^verbatim>\<open>for i := 0; i < n; i++\<close>, with \<^verbatim>\<open>n - i\<close> iterations to go.\<close>

fun readBulks :: "nat \<Rightarrow> string list \<Rightarrow> string \<Rightarrow> string list reading" where
  "readBulks 0 args s = Inr (args, s)"
| "readBulks (Suc k) args s =
     (case readBulk s of Inl e \<Rightarrow> Inl e | Inr (b, r) \<Rightarrow> readBulks k (args @ [b]) r)"

definition readArray :: "string \<Rightarrow> string list reading" where
  "readArray s =
     (case readInt s of
        Inl e \<Rightarrow> Inl e
      | Inr (n, r) \<Rightarrow>
          if n < 0 then Inr ([], r)
          else if \<not> make_ok 16 n then Inl MakePanic
          else readBulks (nat n) [] r)"

text \<open>\<^verbatim>\<open>splitInline\<close>: \<^verbatim>\<open>cur\<close> holds the encoded runes of the current word.\<close>

fun split_loop :: "string list \<Rightarrow> string list \<Rightarrow> string \<Rightarrow> string list" where
  "split_loop [] out cur = (if cur \<noteq> [] then out @ [cur] else out)"
| "split_loop (ch # rest) out cur =
     (if ch = '' '' then
        (if cur \<noteq> [] then split_loop rest (out @ [cur]) [] else split_loop rest out cur)
      else split_loop rest out (cur @ ch))"

definition splitInline :: "string \<Rightarrow> string list" where
  "splitInline line = split_loop (go_runes line) [] []"

definition ReadCommand :: "string \<Rightarrow> string list reading" where
  "ReadCommand s =
     (case ReadByte s of
        Inl e \<Rightarrow> Inl e
      | Inr (pfx, r) \<Rightarrow>
          if pfx = CHR ''*'' then readArray r
          else case readLine s of Inl e \<Rightarrow> Inl e | Inr (line, r') \<Rightarrow> Inr (splitInline line, r'))"

section \<open>Writer\<close>

definition WriteSimpleString :: "string \<Rightarrow> string" where
  "WriteSimpleString s = ''+'' @ s @ CRLF"

definition WriteError :: "string \<Rightarrow> string" where
  "WriteError msg = ''-'' @ msg @ CRLF"

definition WriteInteger :: "int \<Rightarrow> string" where
  "WriteInteger n = '':'' @ FormatInt n @ CRLF"

definition WriteInteger64 :: "int \<Rightarrow> string" where
  "WriteInteger64 n = '':'' @ FormatInt n @ CRLF"

definition WriteBulkString :: "string \<Rightarrow> string" where
  "WriteBulkString s = ''$'' @ FormatInt (int (length s)) @ CRLF @ s @ CRLF"

definition WriteNull :: string where
  "WriteNull = ''$-1'' @ CRLF"

definition WriteNullArray :: string where
  "WriteNullArray = ''*-1'' @ CRLF"

definition WriteArrayHeader :: "int \<Rightarrow> string" where
  "WriteArrayHeader n = ''*'' @ FormatInt n @ CRLF"

definition WriteStringArray :: "string list \<Rightarrow> string" where
  "WriteStringArray items =
     WriteArrayHeader (int (length items)) @ concat (map WriteBulkString items)"

text \<open>\<^verbatim>\<open>ok\<close> has the length of \<^verbatim>\<open>items\<close> at the only call.\<close>

definition WriteNullableStringArray :: "string list \<Rightarrow> bool list \<Rightarrow> string" where
  "WriteNullableStringArray items ok =
     WriteArrayHeader (int (length items)) @
     concat (map (\<lambda>(it, b). if b then WriteBulkString it else WriteNull) (zip items ok))"

section \<open>What reading does to the stream\<close>

lemma ReadString_length: "ReadString d s = Inr (l, r) \<Longrightarrow> length l + length r = length s \<and> l \<noteq> []"
  by (induction d s arbitrary: l r rule: ReadString.induct)
    (auto split: if_splits sum.splits prod.splits)

lemma readLine_length: "readLine s = Inr (l, r) \<Longrightarrow> length r < length s"
  by (auto simp: readLine_def split: sum.splits prod.splits dest!: ReadString_length simp flip: length_greater_0_conv)

lemma readInt_length: "readInt s = Inr (n, r) \<Longrightarrow> length r < length s"
  by (auto simp: readInt_def split: sum.splits option.splits prod.splits dest: readLine_length)

lemma readBulk_length: "readBulk s = Inr (b, r) \<Longrightarrow> length r < length s"
  by (auto simp: readBulk_def ReadByte_def ReadFull_def Discard_def
      split: sum.splits list.splits if_splits prod.splits dest!: readInt_length)

lemma readBulks_length: "readBulks k args s = Inr (out, r) \<Longrightarrow> length r \<le> length s"
proof (induction k arbitrary: args s)
  case (Suc k)
  then show ?case
    by (force split: sum.splits prod.splits dest!: readBulk_length)
qed simp

text \<open>Every command that is read takes at least a byte: the loops over a stream end.\<close>

lemma ReadCommand_length: "ReadCommand s = Inr (args, r) \<Longrightarrow> length r < length s"
  by (auto simp: ReadCommand_def readArray_def ReadByte_def
      split: sum.splits list.splits if_splits prod.splits
      dest!: readInt_length readBulks_length dest: readLine_length)

section \<open>Round trip\<close>

lemma ReadString_no_delim: "d \<notin> set s \<Longrightarrow> ReadString d s = Inl EOF"
  by (induction s) auto

lemma ReadString_delim: "d \<notin> set s \<Longrightarrow> ReadString d (s @ d # r) = Inr (s @ [d], r)"
  by (induction s) auto

lemma strip_eol_line: "CR \<notin> set s \<Longrightarrow> LF \<notin> set s \<Longrightarrow> strip_eol (s @ CRLF) = s"
  by (cases s rule: rev_cases) (auto simp: strip_eol_def CRLF_def)

lemma readLine_line:
  assumes "CR \<notin> set s" "LF \<notin> set s" shows "readLine (s @ CRLF @ r) = Inr (s, r)"
  using ReadString_delim [of LF "s @ [CR]" r] strip_eol_line [OF assms] assms
  by (simp add: readLine_def CRLF_def)

lemma readInt_FormatInt: "in_int64 n \<Longrightarrow> readInt (FormatInt n @ CRLF @ r) = Inr (n, r)"
  by (simp add: readInt_def readLine_line ParseInt_FormatInt)

lemma torn_line:
  assumes "strict_prefix p (FormatInt n @ CRLF)" shows "readInt p = Inl EOF"
proof -
  from assms obtain q where "q \<noteq> []" "FormatInt n @ CRLF = p @ q"
    by (auto simp: strict_prefix_def prefix_def)
  then have "prefix p (FormatInt n @ [CR])"
    by (cases q rule: rev_cases) (auto simp: CRLF_def prefix_def)
  then have "LF \<notin> set p" using set_mono_prefix [of p "FormatInt n @ [CR]"] by auto
  then show ?thesis by (simp add: readInt_def readLine_def ReadString_no_delim)
qed

text \<open>A sequence of bytes that fits into memory.\<close>

definition fits :: "string \<Rightarrow> bool" where
  "fits s \<longleftrightarrow> int (length s) \<le> maxAlloc"

definition command_fits :: "string list \<Rightarrow> bool" where
  "command_fits args \<longleftrightarrow> 16 * int (length args) \<le> maxAlloc \<and> (\<forall>a\<in>set args. fits a)"

lemma fits_int64: "fits s \<Longrightarrow> in_int64 (int (length s))"
  by (simp add: fits_def maxAlloc_def int64_defs)

lemma readBulk_WriteBulkString:
  "fits b \<Longrightarrow> readBulk (WriteBulkString b @ r) = Inr (b, r)"
  using readInt_FormatInt [of "int (length b)" "b @ CRLF @ r"] fits_int64 [of b]
  by (simp add: readBulk_def WriteBulkString_def ReadByte_def make_ok_def fits_def
      ReadFull_def Discard_def) (simp add: CRLF_def)

lemma readBulk_torn:
  assumes "fits b" and "strict_prefix p (WriteBulkString b)"
  shows "readBulk p \<in> {Inl EOF, Inl UnexpectedEOF}"
proof (cases p)
  case Nil
  then show ?thesis by (simp add: readBulk_def ReadByte_def)
next
  case (Cons c p')
  with assms(2) have c: "c = CHR ''$''"
    and "strict_prefix p' ((FormatInt (int (length b)) @ CRLF) @ (b @ CRLF))"
    by (auto simp: WriteBulkString_def)
  from this(2) show ?thesis
  proof (cases rule: strict_prefix_append_cases)
    case 1
    then show ?thesis by (simp add: Cons c readBulk_def ReadByte_def torn_line)
  next
    case (2 q)
    have "readInt p' = Inr (int (length b), q)"
      using readInt_FormatInt [OF fits_int64 [OF assms(1)], of q] 2(1) by simp
    moreover have "length q < length b + 2"
      using prefix_length_less [OF 2(2)] by (simp add: CRLF_def)
    ultimately show ?thesis using assms(1)
      by (auto simp: Cons c readBulk_def ReadByte_def make_ok_def fits_def ReadFull_def Discard_def)
  qed
qed

lemma readBulks_WriteBulkString:
  "\<forall>a\<in>set xs. fits a \<Longrightarrow>
    readBulks (length xs) acc (concat (map WriteBulkString xs) @ r) = Inr (acc @ xs, r)"
  by (induction xs arbitrary: acc) (simp_all add: readBulk_WriteBulkString)

lemma readBulks_torn:
  assumes "\<forall>a\<in>set xs. fits a" and "strict_prefix p (concat (map WriteBulkString xs))"
  shows "readBulks (length xs) acc p \<in> {Inl EOF, Inl UnexpectedEOF}"
  using assms
proof (induction xs arbitrary: acc p)
  case (Cons x xs)
  then have "strict_prefix p (WriteBulkString x @ concat (map WriteBulkString xs))" by simp
  then show ?case
  proof (cases rule: strict_prefix_append_cases)
    case 1
    with Cons.prems readBulk_torn [of x p] show ?thesis by auto
  next
    case (2 q)
    with Cons.prems Cons.IH [of q "acc @ [x]"] show ?thesis
      by (auto simp: readBulk_WriteBulkString)
  qed
qed simp

lemma ReadCommand_array:
  assumes "command_fits args"
  shows "ReadCommand (WriteStringArray args @ r) = Inr (args, r)"
proof -
  have n: "in_int64 (int (length args))" "16 * int (length args) \<le> maxAlloc"
    using assms by (auto simp: command_fits_def maxAlloc_def int64_defs)
  show ?thesis
    using readInt_FormatInt [OF n(1), of "concat (map WriteBulkString args) @ r"] n(2) assms
    by (simp add: ReadCommand_def ReadByte_def WriteStringArray_def WriteArrayHeader_def
        readArray_def make_ok_def readBulks_WriteBulkString command_fits_def)
qed

lemma ReadCommand_torn:
  assumes "command_fits args" and "strict_prefix p (WriteStringArray args)"
  shows "ReadCommand p \<in> {Inl EOF, Inl UnexpectedEOF}"
proof (cases p)
  case Nil
  then show ?thesis by (simp add: ReadCommand_def ReadByte_def)
next
  case (Cons c p')
  let ?bs = "concat (map WriteBulkString args)"
  from Cons assms(2) have c: "c = CHR ''*''"
    and "strict_prefix p' ((FormatInt (int (length args)) @ CRLF) @ ?bs)"
    by (auto simp: WriteStringArray_def WriteArrayHeader_def)
  from this(2) show ?thesis
  proof (cases rule: strict_prefix_append_cases)
    case 1
    then show ?thesis by (simp add: Cons c ReadCommand_def ReadByte_def readArray_def torn_line)
  next
    case (2 q)
    have n: "in_int64 (int (length args))" "16 * int (length args) \<le> maxAlloc"
      using assms(1) by (auto simp: command_fits_def maxAlloc_def int64_defs)
    have "readInt p' = Inr (int (length args), q)"
      using readInt_FormatInt [OF n(1), of q] 2(1) by simp
    then show ?thesis using n(2) readBulks_torn [of args q "[]"] 2(2) assms(1)
      by (auto simp: Cons c ReadCommand_def ReadByte_def readArray_def make_ok_def command_fits_def)
  qed
qed

text \<open>The errors with which a read ends at the end of the input.\<close>

definition at_end :: "read_error \<Rightarrow> bool" where
  "at_end e \<longleftrightarrow> e = EOF \<or> e = UnexpectedEOF"

interpretation commands: codec WriteStringArray ReadCommand command_fits at_end
proof
  fix args p assume "command_fits args" "strict_prefix p (WriteStringArray args)"
  from ReadCommand_torn [OF this] show "\<exists>e. ReadCommand p = Inl e \<and> at_end e"
    by (auto simp: at_end_def)
qed (auto simp: ReadCommand_array at_end_def, simp add: ReadCommand_def ReadByte_def)

section \<open>Inline commands\<close>

lemma split_loop_words:
  "\<forall>r\<in>set rs. r \<noteq> [] \<Longrightarrow> \<forall>w\<in>set out. w \<noteq> [] \<Longrightarrow> w \<in> set (split_loop rs out cur) \<Longrightarrow> w \<noteq> []"
  by (induction rs out cur rule: split_loop.induct) (auto split: if_splits)

lemma splitInline_nonempty: "w \<in> set (splitInline line) \<Longrightarrow> w \<noteq> []"
  by (auto simp: splitInline_def dest!: split_loop_words [rotated 2] dest: go_runes_nonempty)

text \<open>Joining words of printable ASCII with single spaces, and splitting them again.\<close>

definition plain_word :: "string \<Rightarrow> bool" where
  "plain_word w \<longleftrightarrow> w \<noteq> [] \<and> (\<forall>c\<in>set w. in_bytes 33 126 c)"

fun join_words :: "string list \<Rightarrow> string" where
  "join_words [] = []"
| "join_words [w] = w"
| "join_words (w # v # ws) = w @ '' '' @ join_words (v # ws)"

lemma plain_runes: "\<forall>c\<in>set w. in_bytes 33 126 c \<Longrightarrow> go_runes (w @ s) = map (\<lambda>c. [c]) w @ go_runes s"
  by (induction w) (simp_all add: go_runes_ascii_Cons in_bytes_def)

lemma split_loop_plain:
  "\<forall>c\<in>set w. in_bytes 33 126 c \<Longrightarrow>
    split_loop (map (\<lambda>c. [c]) w @ rs) out cur = split_loop rs out (cur @ w)"
  by (induction w arbitrary: cur) (auto simp: in_bytes_def)

lemma splitInline_join_aux:
  "\<forall>w\<in>set ws. plain_word w \<Longrightarrow> split_loop (go_runes (join_words ws)) out [] = out @ ws"
proof (induction ws arbitrary: out rule: join_words.induct)
  case (2 w)
  then show ?case using plain_runes [of w "[]"] split_loop_plain [of w "[]" out "[]"]
    by (simp add: plain_word_def)
next
  case (3 w v ws)
  have "go_runes (CHR '' '' # s) = '' '' # go_runes s" for s
    by (rule go_runes_ascii_Cons) (simp add: in_bytes_def)
  with 3 show ?case using split_loop_plain [of w _ out "[]"]
    by (simp add: plain_word_def plain_runes)
qed simp

lemma splitInline_join:
  "\<forall>w\<in>set ws. plain_word w \<Longrightarrow> splitInline (join_words ws) = ws"
  using splitInline_join_aux [of ws "[]"] by (simp add: splitInline_def)

section \<open>Absurd lengths\<close>

text \<open>A bulk string announced with a negative length makes \<^verbatim>\<open>make\<close> panic.\<close>

lemma negative_length_panics: "ReadCommand (''*1'' @ CRLF @ ''$-1'' @ CRLF @ r) = Inl MakePanic"
proof -
  have "readInt (''1'' @ CRLF @ x) = Inr (1, x)" "readInt (''-1'' @ CRLF @ x) = Inr (-1, x)" for x
    using readInt_FormatInt [of 1 x] readInt_FormatInt [of "-1" x] by (simp_all add: FormatInt_small int64_defs)
  then show ?thesis
    by (simp add: ReadCommand_def ReadByte_def readArray_def readBulk_def make_ok_def maxAlloc_def)
qed

section \<open>A torn value\<close>

text \<open>A \<^verbatim>\<open>SET\<close> that was cut inside its value, and the bytes that come after the cut.\<close>

definition torn_set :: "string \<Rightarrow> string \<Rightarrow> string \<Rightarrow> string" where
  "torn_set k v1 v2 =
     WriteArrayHeader 3 @ WriteBulkString ''SET'' @ WriteBulkString k @
     ''$'' @ FormatInt (int (length (v1 @ v2))) @ CRLF @ v1"

lemma torn_set_prefix: "strict_prefix (torn_set k v1 v2) (WriteStringArray [''SET'', k, v1 @ v2])"
  by (simp add: torn_set_def WriteStringArray_def WriteBulkString_def [of "v1 @ v2"] strict_prefix_def CRLF_def)

lemma torn_set_absorbs:
  assumes "fits k" "fits (v1 @ v2)" "length v2 + 2 \<le> length x"
  shows "ReadCommand (torn_set k v1 v2 @ x) =
    Inr ([''SET'', k, v1 @ take (length v2) x], drop (length v2 + 2) x)"
proof -
  let ?n = "int (length (v1 @ v2))"
  have 3: "readInt (FormatInt 3 @ CRLF @ r) = Inr (3, r)" for r
    by (rule readInt_FormatInt) (simp add: int64_defs)
  have set: "fits ''SET''" by (simp add: fits_def maxAlloc_def)
  have n: "readInt (FormatInt ?n @ CRLF @ v1 @ x) = Inr (?n, v1 @ x)" "make_ok 1 ?n"
    using readInt_FormatInt [OF fits_int64 [OF assms(2)]] assms(2) by (simp_all add: make_ok_def fits_def)
  have "readBulk (''$'' @ FormatInt ?n @ CRLF @ v1 @ x) =
      Inr (v1 @ take (length v2) x, drop (length v2 + 2) x)"
  proof -
    have "ReadFull (nat ?n) (v1 @ x) = Inr (v1 @ take (length v2) x, drop (length v2) x)"
      using assms(3) by (simp add: ReadFull_def nat_add_distrib)
    moreover have "Discard 2 (drop (length v2) x) = Inr ((), drop (length v2 + 2) x)"
      using assms(3) by (simp add: Discard_def add.commute)
    ultimately show ?thesis using n by (simp add: readBulk_def ReadByte_def del: length_append)
  qed
  then show ?thesis
    using readBulk_WriteBulkString [OF set] readBulk_WriteBulkString [OF assms(1)]
    by (simp add: torn_set_def ReadCommand_def ReadByte_def readArray_def WriteArrayHeader_def 3
        make_ok_def maxAlloc_def numeral_3_eq_3)
qed

end
