(* ===== verification/Glob.thy ===== *)
theory Glob
  imports Go_Strings
begin

text \<open>
  The glob matcher of \<^verbatim>\<open>KEYS\<close> (\<^verbatim>\<open>internal/store/helpers.go\<close>). \<open>matchHere\<close> and
  \<open>matchClass\<close> follow the code: an index into the pattern is the suffix of the pattern that
  starts there. The reference semantics parses a pattern into items once and matches a list of
  items denotationally, with no backtracking loop.
\<close>

section \<open>The matcher\<close>

text \<open>
  Whether a range such as \<open>a-z\<close> starts at \<^verbatim>\<open>p[i]\<close>, given \<^verbatim>\<open>p[i+1:]\<close>: its upper end and
  the pattern after it.
\<close>

definition range_end :: "string \<Rightarrow> (char \<times> string) option" where
  "range_end p =
     (case p of
        d # hi # rest \<Rightarrow> if d = CHR ''-'' \<and> hi \<noteq> CHR '']'' then Some (hi, rest) else None
      | _ \<Rightarrow> None)"

lemma range_end_length [termination_simp]:
  "range_end p = Some (hi, rest) \<Longrightarrow> length rest < length p"
  "Some (hi, rest) = range_end p \<Longrightarrow> length rest < length p"
  by (auto simp: range_end_def split: list.splits if_splits)

text \<open>The induction that follows the scan of a class: one byte, or one range, at a time.\<close>

lemma class_scan_induct [case_names Nil Cons]:
  assumes "P []"
    and "\<And>x p. P p \<Longrightarrow> (\<And>hi rest. range_end p = Some (hi, rest) \<Longrightarrow> P rest) \<Longrightarrow> P (x # p)"
  shows "P p"
proof (induction p rule: length_induct)
  case (1 p)
  show ?case
  proof (cases p)
    case (Cons x q)
    then have "P q" "\<And>hi rest. range_end q = Some (hi, rest) \<Longrightarrow> P rest"
      using 1 by (auto simp: less_SucI dest: range_end_length)
    then show ?thesis unfolding Cons by (rule assms(2))
  qed (simp add: assms(1))
qed

text \<open>
  The \<^verbatim>\<open>for\<close> loop of \<^verbatim>\<open>matchClass\<close>: from the suffix \<^verbatim>\<open>p[i:]\<close> and the flag
  \<^verbatim>\<open>found\<close> to the suffix at which it stops and the final flag.
\<close>

function class_loop :: "char \<Rightarrow> string \<Rightarrow> bool \<Rightarrow> string \<times> bool" where
  "class_loop c [] found = ([], found)"
| "class_loop c (x # p) found =
     (if x = CHR '']'' then (x # p, found)
      else case range_end p of
        Some (hi, rest) \<Rightarrow> class_loop c rest (if x \<le> c \<and> c \<le> hi then True else found)
      | None \<Rightarrow> class_loop c p (if x = c then True else found))"
  by pat_completeness auto
termination
  by (relation "measure (\<lambda>(c, p, f). length p)") (auto simp: less_SucI dest: range_end_length)

text \<open>\<^verbatim>\<open>(matched, rest, ok)\<close>, for a pattern whose first byte is an opening bracket.\<close>

definition matchClass :: "string \<Rightarrow> char \<Rightarrow> bool \<times> string \<times> bool" where
  "matchClass p c =
     (let body = drop 1 p;
          negate = (case body of x # _ \<Rightarrow> x = CHR ''^'' | [] \<Rightarrow> False);
          (suffix, found) = class_loop c (if negate then drop 1 body else body) False
      in case suffix of
           [] \<Rightarrow> (False, '''', False)
         | _ # rest \<Rightarrow> (found \<noteq> negate, rest, True))"

text \<open>\<^verbatim>\<open>for len(p) > 1 && p[1] == '*' { p = p[1:] }\<close>\<close>

fun collapse_stars :: "string \<Rightarrow> string" where
  "collapse_stars (x # y # p) = (if y = CHR ''*'' then collapse_stars (y # p) else x # y # p)"
| "collapse_stars p = p"

text \<open>\<^verbatim>\<open>for i := 0; i <= len(s); i++ { if f(s[i:]) { return true } }; return false\<close>\<close>

fun any_suffix :: "(string \<Rightarrow> bool) \<Rightarrow> string \<Rightarrow> bool" where
  "any_suffix f [] = f []"
| "any_suffix f (x # s) = (if f (x # s) then True else any_suffix f s)"

lemma any_suffix_iff: "any_suffix f s \<longleftrightarrow> (\<exists>i\<le>length s. f (drop i s))"
proof (induction s)
  case (Cons x s)
  have "(\<exists>i\<le>length (x # s). f (drop i (x # s)))
      \<longleftrightarrow> f (x # s) \<or> (\<exists>i\<le>length s. f (drop i s))"
    by (metis drop0 drop_Suc_Cons le0 length_Cons not0_implies_Suc Suc_le_mono)
  with Cons show ?case by simp
qed simp

lemma any_suffix_cong [fundef_cong]:
  "s = s' \<Longrightarrow> (\<And>t. length t \<le> length s' \<Longrightarrow> f t = g t) \<Longrightarrow> any_suffix f s = any_suffix g s'"
  by (induction s arbitrary: s') auto

lemma collapse_stars_length: "length (collapse_stars p) \<le> length p"
  by (induction p rule: collapse_stars.induct) auto

lemma class_loop_length: "length (fst (class_loop c p found)) \<le> length p"
proof (induction p arbitrary: found rule: class_scan_induct)
  case (Cons x p)
  show ?case
  proof (cases "range_end p")
    case (Some q)
    then have "length (fst (class_loop c (snd q) f)) \<le> length p" for f
      using Cons.IH(2) [of "fst q" "snd q" f] range_end_length(1) [of p "fst q" "snd q"] by simp
    with Some show ?thesis by (cases q) (simp add: le_SucI)
  qed (simp add: Cons.IH(1) le_SucI)
qed simp

lemma matchClass_length:
  assumes "matchClass (x # p) c = (m, rest, ok)" shows "length rest \<le> length p"
  using assms
    class_loop_length [of c p False] class_loop_length [of c "drop 1 p" False]
  by (auto simp: matchClass_def Let_def split: prod.splits list.splits if_splits)

function matchHere :: "string \<Rightarrow> string \<Rightarrow> bool" where
  "matchHere [] s = (s = [])"
| "matchHere (b # p0) s =
     (if b = CHR ''*'' then
        (let p = collapse_stars (b # p0)
         in if length p = 1 then True else any_suffix (matchHere (drop 1 p)) s)
      else if b = CHR ''?'' then
        (case s of [] \<Rightarrow> False | _ # s' \<Rightarrow> matchHere p0 s')
      else if b = CHR ''['' then
        (case s of [] \<Rightarrow> False
         | c # s' \<Rightarrow>
             (let r = matchClass (b # p0) c
              in if \<not> snd (snd r) \<or> \<not> fst r then False else matchHere (fst (snd r)) s'))
      else if b = CHR 0x5C \<and> p0 \<noteq> [] then
        (case s of [] \<Rightarrow> False
         | c # s' \<Rightarrow> if c \<noteq> hd p0 then False else matchHere (tl p0) s')
      else
        (case s of [] \<Rightarrow> False
         | c # s' \<Rightarrow> if c \<noteq> b then False else matchHere p0 s'))"
  by pat_completeness auto
termination
proof (relation "measure (\<lambda>(p, s). length p)"; (simp; fail)?)
  fix b p0 and s :: string and p x
  assume p: "p = collapse_stars (b # p0)" and "length p \<noteq> 1"
  have "length p \<le> Suc (length p0)" using collapse_stars_length [of "b # p0"] p by simp
  then show "((drop 1 p, x), b # p0, s) \<in> measure (\<lambda>(p, s). length p)"
    by (cases p) auto
next
  fix b p0 and s s' :: string and c r
  assume "r = matchClass (b # p0) c"
  then show "((fst (snd r), s'), b # p0, s) \<in> measure (\<lambda>(p, s). length p)"
    using matchClass_length [of b p0 c] by (cases "matchClass (b # p0) c") (auto simp: less_Suc_eq_le)
qed

declare matchHere.simps(2) [simp del]

definition globMatch :: "string \<Rightarrow> string \<Rightarrow> bool" where
  "globMatch pattern s = matchHere pattern s"

section \<open>Reference semantics\<close>

datatype glob_item =
    Star
  | AnyByte
  | OneOf "char set"
  | Byte char
  | Never  \<comment> \<open>an unterminated class, which matches nothing\<close>

function class_items :: "string \<Rightarrow> char set \<Rightarrow> (char set \<times> string) option" where
  "class_items [] acc = None"
| "class_items (x # p) acc =
     (if x = CHR '']'' then Some (acc, p)
      else case range_end p of
        Some (hi, rest) \<Rightarrow> class_items rest (acc \<union> {x..hi})
      | None \<Rightarrow> class_items p (insert x acc))"
  by pat_completeness auto
termination
  by (relation "measure (\<lambda>(p, acc). length p)") (auto simp: less_SucI dest: range_end_length)

definition parse_class :: "string \<Rightarrow> (char set \<times> string) option" where
  "parse_class p =
     (case p of
        x # p' \<Rightarrow> if x = CHR ''^'' then map_option (apfst uminus) (class_items p' {})
                 else class_items p {}
      | [] \<Rightarrow> None)"

lemma class_items_length: "class_items p acc = Some (cs, rest) \<Longrightarrow> length rest < length p"
proof (induction p arbitrary: acc rule: class_scan_induct)
  case (Cons x p)
  show ?case
  proof (cases "range_end p")
    case None
    with Cons show ?thesis by (auto simp: less_SucI split: if_splits)
  next
    case (Some q)
    with Cons.IH(2) [of "fst q" "snd q"] Cons.prems range_end_length(1) [of p "fst q" "snd q"]
    show ?thesis by (cases q) (fastforce split: if_splits)
  qed
qed simp

lemma parse_class_length: "parse_class p = Some (cs, rest) \<Longrightarrow> length rest < length p"
  by (cases p) (auto simp: parse_class_def simp del: class_items.simps split: if_splits
    dest: class_items_length)

function parse_glob :: "string \<Rightarrow> glob_item list" where
  "parse_glob [] = []"
| "parse_glob (b # p) =
     (if b = CHR ''*'' then Star # parse_glob p
      else if b = CHR ''?'' then AnyByte # parse_glob p
      else if b = CHR ''['' then
        (case parse_class p of None \<Rightarrow> [Never] | Some (cs, rest) \<Rightarrow> OneOf cs # parse_glob rest)
      else if b = CHR 0x5C \<and> p \<noteq> [] then Byte (hd p) # parse_glob (tl p)
      else Byte b # parse_glob p)"
  by pat_completeness auto
termination
  by (relation "measure length") (auto dest: parse_class_length)

text \<open>The strings a list of items denotes.\<close>

fun item_bytes :: "glob_item \<Rightarrow> char set" where
  "item_bytes AnyByte = UNIV"
| "item_bytes (OneOf cs) = cs"
| "item_bytes (Byte c) = {c}"
| "item_bytes _ = {}"

fun denotes :: "glob_item list \<Rightarrow> string \<Rightarrow> bool" where
  "denotes [] s = (s = [])"
| "denotes (it # its) s =
     (if it = Star then \<exists>t u. s = t @ u \<and> denotes its u
      else \<exists>c u. s = c # u \<and> c \<in> item_bytes it \<and> denotes its u)"

section \<open>Correctness\<close>

text \<open>The loop over a class computes membership in the set the class denotes.\<close>

text \<open>The loop over a class computes membership in the set the class denotes.\<close>

lemma class_loop_items:
  assumes "found \<longleftrightarrow> c \<in> acc"
  shows "case class_items p acc of
      None \<Rightarrow> fst (class_loop c p found) = []
    | Some (cs, rest) \<Rightarrow> class_loop c p found = (CHR '']'' # rest, c \<in> cs)"
  using assms
proof (induction p arbitrary: acc found rule: class_scan_induct)
  case (Cons x p)
  show ?case
  proof (cases "range_end p")
    case None
    with Cons.prems Cons.IH(1) [of "x = c \<or> found" "insert x acc"] show ?thesis
      by (auto split: option.splits)
  next
    case (Some q)
    obtain hi rest where q: "q = (hi, rest)" by (cases q)
    from Some Cons.prems
      Cons.IH(2) [of hi rest "x \<le> c \<and> c \<le> hi \<or> found" "acc \<union> {x..hi}"]
    show ?thesis by (auto simp: q split: option.splits)
  qed
qed simp

text \<open>So \<open>matchClass\<close> decides membership in the parsed class, and fails on an unterminated one.\<close>

lemma matchClass_parse:
  "matchClass (b # p) c =
     (case parse_class p of None \<Rightarrow> (False, [], False) | Some (cs, rest) \<Rightarrow> (c \<in> cs, rest, True))"
proof (cases p)
  case Nil
  then show ?thesis by (simp add: matchClass_def parse_class_def)
next
  case (Cons x p')
  have "case class_items q {} of
      None \<Rightarrow> fst (class_loop c q False) = []
    | Some (cs, rest) \<Rightarrow> class_loop c q False = (CHR '']'' # rest, c \<in> cs)" for q
    by (rule class_loop_items) simp
  from this [of p] this [of p'] show ?thesis
    by (auto simp: matchClass_def parse_class_def Let_def Cons
        simp del: class_loop.simps class_items.simps split: prod.splits option.splits)
qed

lemma denotes_Star_Star: "denotes (Star # Star # its) s = denotes (Star # its) s"
proof -
  have "(\<exists>t u v w. s = t @ u \<and> u = v @ w \<and> denotes its w) \<longleftrightarrow> (\<exists>t u. s = t @ u \<and> denotes its u)"
    by (metis append_assoc append_Nil)
  then show ?thesis by auto
qed

lemma denotes_Star_drop: "denotes (Star # its) s \<longleftrightarrow> (\<exists>i\<le>length s. denotes its (drop i s))"
proof
  assume "denotes (Star # its) s"
  then obtain t u where "s = t @ u" "denotes its u" by auto
  then show "\<exists>i\<le>length s. denotes its (drop i s)"
    by (intro exI [of _ "length t"]) simp
next
  assume "\<exists>i\<le>length s. denotes its (drop i s)"
  then show "denotes (Star # its) s"
    by simp (metis append_take_drop_id)
qed

lemma collapse_stars_Star:
  "\<exists>q. collapse_stars (CHR ''*'' # p) = CHR ''*'' # q \<and>
     (\<forall>s. denotes (Star # parse_glob q) s = denotes (Star # parse_glob p) s)"
proof (induction p)
  case (Cons y p)
  then show ?case
    by (cases "y = CHR ''*''") (auto simp: denotes_Star_Star simp del: denotes.simps)
qed simp

theorem matchHere_denotes: "matchHere p s = denotes (parse_glob p) s"
proof (induction p s rule: matchHere.induct)
  case (2 b p s)
  consider "b = CHR ''*''" | "b = CHR ''?''" | "b = CHR ''[''"
    | "b = CHR 0x5C" "p \<noteq> []"
    | "b \<noteq> CHR ''*''" "b \<noteq> CHR ''?''" "b \<noteq> CHR ''[''" "\<not> (b = CHR 0x5C \<and> p \<noteq> [])"
    by blast
  then show ?case
  proof cases
    case 1
    obtain q where q: "collapse_stars (b # p) = CHR ''*'' # q"
      "\<And>s. denotes (Star # parse_glob q) s = denotes (Star # parse_glob p) s"
      using collapse_stars_Star [of p] 1 by auto
    have "any_suffix (matchHere q) s = denotes (Star # parse_glob q) s" if "q \<noteq> []"
      using "2.IH"(1) [OF 1 refl] that
      by (simp add: q any_suffix_iff denotes_Star_drop del: denotes.simps)
    moreover have "denotes (Star # parse_glob []) s" by simp
    ultimately show ?thesis
      using 1 q by (auto simp: matchHere.simps(2) Let_def simp del: denotes.simps)
  next
    case 2
    then show ?thesis using "2.IH"(2) by (auto simp: matchHere.simps(2) split: list.splits)
  next
    case 3
    then show ?thesis using "2.IH"(3)
      by (auto simp: matchHere.simps(2) matchClass_parse Let_def split: list.splits option.splits)
  next
    case 4
    then show ?thesis using "2.IH"(4) by (auto simp: matchHere.simps(2) split: list.splits)
  next
    case 5
    then show ?thesis using "2.IH"(5) by (auto simp: matchHere.simps(2) split: list.splits)
  qed
qed simp

end
