(* ===== verification/Store.thy ===== *)
theory Store
  imports Go_Strings Glob "HOL-Library.Word"
begin

text \<open>
  The sharded store (\<^verbatim>\<open>internal/store/store.go\<close>): typed entries with an optional expiry,
  shards selected by a hash of the key, and the string and generic key operations. Every
  operation runs under the lock of the one shard that owns its key, so it is one atomic step
  from store to store (only \<^verbatim>\<open>Get\<close> takes two locks in turn, see \<open>Races\<close>; \<open>Keys\<close>, \<open>FlushDB\<close>,
  \<open>DBSize\<close>, \<open>SnapshotAll\<close> and the sweep lock one shard after another and are taken as one step); \<open>now\<close> is the value its \<^verbatim>\<open>time.Now()\<close> returned. Slices and maps
  inside an entry are never shared between two entries or with a caller, so they are values.
\<close>

unbundle bit_operations_syntax

section \<open>Data\<close>

datatype Kind = KindNone | KindString | KindHash | KindList

fun Kind_String :: "Kind \<Rightarrow> string" where
  "Kind_String KindString = ''string''"
| "Kind_String KindHash = ''hash''"
| "Kind_String KindList = ''list''"
| "Kind_String KindNone = ''none''"

record entry =
  e_kind :: Kind
  e_str :: string
  e_hash :: "(string, string) gomap"
  e_list :: "string list"
  expiresAt :: time

text \<open>The zero value \<^verbatim>\<open>entry{}\<close>, from which every literal starts.\<close>

definition entry0 :: entry where
  "entry0 = \<lparr>e_kind = KindNone, e_str = [], e_hash = [], e_list = [], expiresAt = 0\<rparr>"

definition expired :: "entry \<Rightarrow> time \<Rightarrow> bool" where
  "expired e now \<longleftrightarrow> \<not> IsZero (expiresAt e) \<and> now > expiresAt e"

type_synonym shard = "(string, entry) gomap"

record store =
  shards :: "shard list"
  mask :: "32 word"

datatype store_error = ErrWrongType | ErrNotInteger | ErrOverflow

fun error_msg :: "store_error \<Rightarrow> string" where
  "error_msg ErrWrongType = ''WRONGTYPE Operation against a key holding the wrong kind of value''"
| "error_msg ErrNotInteger = ''ERR value is not an integer or out of range''"
| "error_msg ErrOverflow = ''ERR increment or decrement would overflow''"

section \<open>Shards\<close>

text \<open>
  \<^verbatim>\<open>nextPow2\<close>: the loop doubles an \<^verbatim>\<open>int\<close>, which wraps. \<open>None\<close> is a loop that never ends.
\<close>

partial_function (option) pow2_loop :: "int \<Rightarrow> int \<Rightarrow> int option" where
  "pow2_loop p n = (if p < n then pow2_loop (wrap64 (2 * p)) n else Some p)"

definition nextPow2 :: "int \<Rightarrow> int option" where
  "nextPow2 n = (if n < 1 then Some 1 else pow2_loop 1 n)"

text \<open>\<open>None\<close>: no store, since \<^verbatim>\<open>nextPow2\<close> does not return or \<^verbatim>\<open>make\<close> panics.\<close>

definition Store_New :: "int \<Rightarrow> store option" where
  "Store_New shardCount =
     (case nextPow2 shardCount of
        None \<Rightarrow> None
      | Some n \<Rightarrow>
          if make_ok 8 n
          then Some \<lparr>shards = replicate (nat n) [], mask = word_of_int (n - 1)\<rparr>
          else None)"

definition NumShards :: "store \<Rightarrow> int" where
  "NumShards s = int (length (shards s))"

text \<open>\<^verbatim>\<open>fnv.New32a\<close>\<close>

definition fnv32a :: "string \<Rightarrow> 32 word" where
  "fnv32a key = foldl (\<lambda>h b. (h XOR word_of_nat (byte_val b)) * 16777619) 2166136261 key"

text \<open>The index of the shard \<^verbatim>\<open>shardFor\<close> returns a pointer to.\<close>

definition shardFor :: "store \<Rightarrow> string \<Rightarrow> nat" where
  "shardFor s key = unat (fnv32a key AND mask s)"

text \<open>\<^verbatim>\<open>sh.data[key]\<close>, \<^verbatim>\<open>sh.data[key] = e\<close> and \<^verbatim>\<open>delete(sh.data, key)\<close>, for \<^verbatim>\<open>sh := s.shardFor(key)\<close>\<close>

definition sh_lookup :: "store \<Rightarrow> string \<Rightarrow> entry option" where
  "sh_lookup s key = map_of (shards s ! shardFor s key) key"

definition sh_put :: "store \<Rightarrow> string \<Rightarrow> entry \<Rightarrow> store" where
  "sh_put s key e =
     (let i = shardFor s key in s\<lparr>shards := (shards s)[i := gm_put key e (shards s ! i)]\<rparr>)"

definition sh_del :: "store \<Rightarrow> string \<Rightarrow> store" where
  "sh_del s key =
     (let i = shardFor s key in s\<lparr>shards := (shards s)[i := gm_del key (shards s ! i)]\<rparr>)"

definition getLive :: "store \<Rightarrow> string \<Rightarrow> time \<Rightarrow> entry option" where
  "getLive s key now =
     (case sh_lookup s key of
        None \<Rightarrow> None
      | Some e \<Rightarrow> if expired e now then None else Some e)"

section \<open>String commands\<close>

definition string_entry :: "string \<Rightarrow> entry" where
  "string_entry value = entry0\<lparr>e_kind := KindString, e_str := value\<rparr>"

definition Store_Set :: "store \<Rightarrow> time \<Rightarrow> string \<Rightarrow> string \<Rightarrow> duration \<Rightarrow> store" where
  "Store_Set s now key value ttl =
     (let e = string_entry value;
          e = (if ttl > 0 then e\<lparr>expiresAt := now + ttl\<rparr> else e)
      in sh_put s key e)"

definition Store_SetNX :: "store \<Rightarrow> time \<Rightarrow> string \<Rightarrow> string \<Rightarrow> duration \<Rightarrow> store \<times> bool" where
  "Store_SetNX s now key value ttl =
     (if getLive s key now \<noteq> None then (s, False)
      else
        let e = string_entry value;
            e = (if ttl > 0 then e\<lparr>expiresAt := now + ttl\<rparr> else e)
        in (sh_put s key e, True))"

definition Store_SetXX :: "store \<Rightarrow> time \<Rightarrow> string \<Rightarrow> string \<Rightarrow> duration \<Rightarrow> store \<times> bool" where
  "Store_SetXX s now key value ttl =
     (if getLive s key now = None then (s, False)
      else
        let e = string_entry value;
            e = (if ttl > 0 then e\<lparr>expiresAt := now + ttl\<rparr> else e)
        in (sh_put s key e, True))"

definition lazyDelete :: "store \<Rightarrow> string \<Rightarrow> time \<Rightarrow> store" where
  "lazyDelete s key now =
     (case sh_lookup s key of
        None \<Rightarrow> s
      | Some cur \<Rightarrow> if expired cur now then sh_del s key else s)"

definition Store_Get :: "store \<Rightarrow> time \<Rightarrow> string \<Rightarrow> store \<times> (store_error + string option)" where
  "Store_Get s now key =
     (case sh_lookup s key of
        None \<Rightarrow> (s, Inr None)
      | Some e \<Rightarrow>
          if expired e now then (lazyDelete s key now, Inr None)
          else if e_kind e \<noteq> KindString then (s, Inl ErrWrongType)
          else (s, Inr (Some (e_str e))))"

definition Store_Append :: "store \<Rightarrow> time \<Rightarrow> string \<Rightarrow> string \<Rightarrow> store \<times> (store_error + int)" where
  "Store_Append s now key sfx =
     (let live = getLive s key now;
          e = (case live of None \<Rightarrow> entry0\<lparr>e_kind := KindString\<rparr> | Some e \<Rightarrow> e)
      in if live \<noteq> None \<and> e_kind e \<noteq> KindString then (s, Inl ErrWrongType)
         else
           let e = e\<lparr>e_str := e_str e @ sfx\<rparr>
           in (sh_put s key e, Inr (int (length (e_str e)))))"

definition Store_GetSet ::
    "store \<Rightarrow> time \<Rightarrow> string \<Rightarrow> string \<Rightarrow> store \<times> (store_error + string option)" where
  "Store_GetSet s now key value =
     (case getLive s key now of
        None \<Rightarrow> (sh_put s key (string_entry value), Inr None)
      | Some e \<Rightarrow>
          if e_kind e \<noteq> KindString then (s, Inl ErrWrongType)
          else (sh_put s key (string_entry value), Inr (Some (e_str e))))"

definition Store_StrLen :: "store \<Rightarrow> time \<Rightarrow> string \<Rightarrow> store \<times> (store_error + int)" where
  "Store_StrLen s now key =
     (case Store_Get s now key of
        (s', Inl err) \<Rightarrow> (s', Inl err)
      | (s', Inr None) \<Rightarrow> (s', Inr 0)
      | (s', Inr (Some v)) \<Rightarrow> (s', Inr (int (length v))))"

text \<open>The guard of \<^verbatim>\<open>IncrBy\<close>, with the subtractions at 64 bits.\<close>

definition would_overflow :: "int \<Rightarrow> int \<Rightarrow> bool" where
  "would_overflow cur delta \<longleftrightarrow>
     (delta > 0 \<and> cur > wrap64 (maxInt64 - delta)) \<or>
     (delta < 0 \<and> cur < wrap64 (minInt64 - delta))"

definition incr_entry :: "entry \<Rightarrow> int \<Rightarrow> int \<Rightarrow> store_error + (entry \<times> int)" where
  "incr_entry e cur delta =
     (if would_overflow cur delta then Inl ErrOverflow
      else let cur = wrap64 (cur + delta) in Inr (e\<lparr>e_str := FormatInt cur\<rparr>, cur))"

definition Store_IncrBy :: "store \<Rightarrow> time \<Rightarrow> string \<Rightarrow> int \<Rightarrow> store \<times> (store_error + int)" where
  "Store_IncrBy s now key delta =
     (let r = (case getLive s key now of
          Some e \<Rightarrow>
            if e_kind e \<noteq> KindString then Inl ErrWrongType
            else (case ParseInt (e_str e) of
                None \<Rightarrow> Inl ErrNotInteger
              | Some n \<Rightarrow> incr_entry e n delta)
        | None \<Rightarrow> incr_entry (entry0\<lparr>e_kind := KindString\<rparr>) 0 delta)
      in case r of
           Inl err \<Rightarrow> (s, Inl err)
         | Inr (e, cur) \<Rightarrow> (sh_put s key e, Inr cur))"

section \<open>Generic key commands\<close>

definition Store_Del :: "store \<Rightarrow> time \<Rightarrow> string \<Rightarrow> store \<times> bool" where
  "Store_Del s now key =
     (sh_del s key,
      case sh_lookup s key of None \<Rightarrow> False | Some e \<Rightarrow> \<not> expired e now)"

definition Store_Exists :: "store \<Rightarrow> time \<Rightarrow> string \<Rightarrow> bool" where
  "Store_Exists s now key \<longleftrightarrow> getLive s key now \<noteq> None"

definition Store_Type :: "store \<Rightarrow> time \<Rightarrow> string \<Rightarrow> Kind" where
  "Store_Type s now key =
     (case getLive s key now of None \<Rightarrow> KindNone | Some e \<Rightarrow> e_kind e)"

definition Store_Expire :: "store \<Rightarrow> time \<Rightarrow> string \<Rightarrow> duration \<Rightarrow> store \<times> bool" where
  "Store_Expire s now key ttl =
     (case getLive s key now of
        None \<Rightarrow> (s, False)
      | Some e \<Rightarrow> (sh_put s key (e\<lparr>expiresAt := now + ttl\<rparr>), True))"

definition Store_Persist :: "store \<Rightarrow> time \<Rightarrow> string \<Rightarrow> store \<times> bool" where
  "Store_Persist s now key =
     (case getLive s key now of
        None \<Rightarrow> (s, False)
      | Some e \<Rightarrow>
          if IsZero (expiresAt e) then (s, False)
          else (sh_put s key (e\<lparr>expiresAt := 0\<rparr>), True))"

text \<open>
  \<^verbatim>\<open>(remaining, found, hasTTL)\<close>; \<open>now2\<close> is the clock reading of \<^verbatim>\<open>time.Until\<close>, later than
  \<open>now\<close>.
\<close>

definition Store_TTL :: "store \<Rightarrow> time \<Rightarrow> time \<Rightarrow> string \<Rightarrow> duration \<times> bool \<times> bool" where
  "Store_TTL s now now2 key =
     (case getLive s key now of
        None \<Rightarrow> (0, False, False)
      | Some e \<Rightarrow>
          if IsZero (expiresAt e) then (0, True, False)
          else (time_Sub (expiresAt e) now2, True, True))"

definition Store_Keys :: "(string list \<Rightarrow> string list) \<Rightarrow> store \<Rightarrow> time \<Rightarrow> string \<Rightarrow> string list" where
  "Store_Keys ord s now pattern =
     concat (map (\<lambda>sh. map fst (filter (\<lambda>(k, e). \<not> expired e now \<and> globMatch pattern k)
       (gm_range ord sh))) (shards s))"

definition Store_FlushDB :: "store \<Rightarrow> store" where
  "Store_FlushDB s = s\<lparr>shards := map (\<lambda>sh. []) (shards s)\<rparr>"

definition Store_DBSize :: "store \<Rightarrow> time \<Rightarrow> int" where
  "Store_DBSize s now =
     sum_list (map (\<lambda>sh. int (length (filter (\<lambda>(k, e). \<not> expired e now) sh))) (shards s))"

section \<open>Maintenance\<close>

text \<open>
  One shard of \<^verbatim>\<open>SweepExpired\<close>: the \<^verbatim>\<open>range\<close> loop with the deletions it makes as it goes.
\<close>

definition sweep_shard ::
    "(string list \<Rightarrow> string list) \<Rightarrow> time \<Rightarrow> shard \<Rightarrow> shard \<times> int" where
  "sweep_shard ord now sh =
     fold (\<lambda>(k, e) (m, removed). if expired e now then (gm_del k m, removed + 1) else (m, removed))
       (gm_range ord sh) (sh, 0)"

definition Store_SweepExpired ::
    "(string list \<Rightarrow> string list) \<Rightarrow> store \<Rightarrow> time \<Rightarrow> store \<times> int" where
  "Store_SweepExpired ord s now =
     (let rs = map (sweep_shard ord now) (shards s)
      in (s\<lparr>shards := map fst rs\<rparr>, sum_list (map snd rs)))"

text \<open>One turn of its outer loop, under the lock of a shard.\<close>

definition sweep_at :: "(string list \<Rightarrow> string list) \<Rightarrow> time \<Rightarrow> nat \<Rightarrow> store \<Rightarrow> store" where
  "sweep_at ord now i s = s\<lparr>shards := (shards s)[i := fst (sweep_shard ord now (shards s ! i))]\<rparr>"

section \<open>Invariant of the shards\<close>

text \<open>
  The mask stays below the number of shards, every shard is a map, and a key is only ever in
  the shard its hash selects.
\<close>

definition store_ok :: "store \<Rightarrow> bool" where
  "store_ok s \<longleftrightarrow>
     unat (mask s) < length (shards s) \<and>
     (\<forall>i<length (shards s). gm_wf (shards s ! i) \<and>
        (\<forall>k\<in>dom (map_of (shards s ! i)). shardFor s k = i))"

definition store_keys :: "store \<Rightarrow> string list" where
  "store_keys s = concat (map gm_keys (shards s))"

lemma shardFor_less: "store_ok s \<Longrightarrow> shardFor s key < length (shards s)"
proof -
  assume "store_ok s"
  moreover have "unat (fnv32a key AND mask s) \<le> unat (mask s)"
    by (metis word_and_le1 word_le_nat_alt)
  ultimately show ?thesis by (simp add: store_ok_def shardFor_def)
qed

lemma shardFor_sh_put [simp]: "shardFor (sh_put s k e) = shardFor s"
  by (simp add: shardFor_def sh_put_def Let_def fun_eq_iff)

lemma shardFor_sh_del [simp]: "shardFor (sh_del s k) = shardFor s"
  by (simp add: shardFor_def sh_del_def Let_def fun_eq_iff)

lemma length_shards [simp]:
  "length (shards (sh_put s k e)) = length (shards s)"
  "length (shards (sh_del s k)) = length (shards s)"
  by (simp_all add: sh_put_def sh_del_def Let_def)

lemma mask_simps [simp]: "mask (sh_put s k e) = mask s" "mask (sh_del s k) = mask s"
  by (simp_all add: sh_put_def sh_del_def Let_def)

lemma sh_lookup_put:
  assumes "store_ok s" shows "sh_lookup (sh_put s k e) = (sh_lookup s)(k \<mapsto> e)"
proof
  fix j
  show "sh_lookup (sh_put s k e) j = ((sh_lookup s)(k \<mapsto> e)) j"
    using shardFor_less [OF assms, of k] unfolding sh_lookup_def shardFor_sh_put
    by (auto simp: sh_put_def Let_def nth_list_update)
qed

lemma sh_lookup_del:
  assumes "store_ok s" shows "sh_lookup (sh_del s k) = (sh_lookup s)(k := None)"
proof
  fix j
  show "sh_lookup (sh_del s k) j = ((sh_lookup s)(k := None)) j"
    using shardFor_less [OF assms, of k] unfolding sh_lookup_def shardFor_sh_del
    by (auto simp: sh_del_def Let_def nth_list_update)
qed

lemma store_ok_update:
  assumes "store_ok s" "gm_wf m" "\<forall>k\<in>dom (map_of m). shardFor s k = i"
  shows "store_ok (s\<lparr>shards := (shards s)[i := m]\<rparr>)"
proof -
  have *: "shardFor (s\<lparr>shards := xs\<rparr>) = shardFor s" for xs
    by (simp add: shardFor_def fun_eq_iff)
  have "gm_wf ((shards s)[i := m] ! j) \<and> (\<forall>k\<in>dom (map_of ((shards s)[i := m] ! j)). shardFor s k = j)"
    if "j < length (shards s)" for j
    using assms that by (cases "i = j") (auto simp: store_ok_def)
  with assms(1) show ?thesis unfolding store_ok_def * by simp
qed

lemma shard_wf: "store_ok s \<Longrightarrow> gm_wf (shards s ! shardFor s k)"
  using shardFor_less by (auto simp: store_ok_def)

lemma shard_keys: "store_ok s \<Longrightarrow> j \<in> dom (map_of (shards s ! shardFor s k)) \<Longrightarrow> shardFor s j = shardFor s k"
  using shardFor_less unfolding store_ok_def by blast

lemma store_ok_put [invs]: "store_ok s \<Longrightarrow> store_ok (sh_put s k e)"
  unfolding sh_put_def Let_def
  by (rule store_ok_update) (auto simp: shard_wf intro: shard_keys gm_wf_put)

lemma store_ok_del [invs]: "store_ok s \<Longrightarrow> store_ok (sh_del s k)"
  unfolding sh_del_def Let_def
  by (rule store_ok_update) (auto simp: shard_wf intro: shard_keys gm_wf_del split: if_splits)

lemma all_entries: "store_ok s \<Longrightarrow> (\<exists>sh\<in>set (shards s). map_of sh k = Some e) \<longleftrightarrow> sh_lookup s k = Some e"
proof
  assume ok: "store_ok s" and "\<exists>sh\<in>set (shards s). map_of sh k = Some e"
  then obtain i where i: "i < length (shards s)" "map_of (shards s ! i) k = Some e"
    by (auto simp: in_set_conv_nth)
  with ok have "shardFor s k = i" by (auto simp: store_ok_def)
  with i show "sh_lookup s k = Some e" by (simp add: sh_lookup_def)
next
  assume "store_ok s" "sh_lookup s k = Some e"
  then show "\<exists>sh\<in>set (shards s). map_of sh k = Some e"
    using shardFor_less [of s k] by (auto simp: sh_lookup_def)
qed

lemma store_keys_dom: "store_ok s \<Longrightarrow> set (store_keys s) = dom (sh_lookup s)"
proof (intro set_eqI iffI)
  fix k assume "store_ok s" "k \<in> set (store_keys s)"
  moreover from this obtain sh e where "sh \<in> set (shards s)" "map_of sh k = Some e"
    by (auto simp: store_keys_def)
  ultimately show "k \<in> dom (sh_lookup s)" using all_entries by blast
next
  fix k assume "store_ok s" "k \<in> dom (sh_lookup s)"
  then obtain sh e where "sh \<in> set (shards s)" "map_of sh k = Some e"
    using all_entries by blast
  then show "k \<in> set (store_keys s)" by (auto simp: store_keys_def)
qed

lemma store_keys_distinct: "store_ok s \<Longrightarrow> distinct (store_keys s)"
proof -
  assume ok: "store_ok s"
  have "distinct (concat (map gm_keys xs))"
    if "\<forall>i<length xs. gm_wf (xs ! i) \<and> (\<forall>k\<in>dom (map_of (xs ! i)). f k = n + i)" for xs f and n :: nat
    using that
  proof (induction xs arbitrary: n)
    case (Cons x xs)
    have "\<forall>i<length xs. gm_wf (xs ! i) \<and> (\<forall>k\<in>dom (map_of (xs ! i)). f k = Suc n + i)"
      using Cons.prems by force
    moreover from this have "\<forall>k\<in>set (concat (map gm_keys xs)). f k > n"
      by (force simp: set_conv_nth [of xs])
    moreover have "gm_wf x" "\<forall>k\<in>dom (map_of x). f k = n"
      using Cons.prems by force+
    ultimately show ?case using Cons.IH [of "Suc n"]
      by (force simp: gm_keys_def [of x] gm_wf_def dom_map_of_conv_image_fst)
  qed simp
  from this [of "shards s" "shardFor s" 0] ok show ?thesis
    by (simp add: store_keys_def store_ok_def)
qed

interpretation sh: counted sh_lookup "\<lambda>k e s. sh_put s k e" "\<lambda>k s. sh_del s k" store_ok store_keys
  by unfold_locales
    (simp_all add: sh_lookup_put sh_lookup_del store_ok_put store_ok_del store_keys_dom
      store_keys_distinct)

lemmas sh_simps [simp] = sh_lookup_put sh_lookup_del store_ok_put store_ok_del

section \<open>Construction\<close>

lemma double_power: "j \<le> 61 \<Longrightarrow> wrap64 (2 * 2 ^ j) = 2 ^ Suc j"
proof -
  assume "j \<le> 61"
  then have "(2::int) ^ j \<le> 2305843009213693952"
    using power_increasing [of j 61 "2::int"] by simp
  moreover have "(0::int) < 2 ^ j" by simp
  ultimately have "in_int64 (2 * 2 ^ j)" unfolding int64_defs by (intro conjI; linarith)
  then show ?thesis by simp
qed

lemma pow2_loop_power:
  "j \<le> 62 \<Longrightarrow> n \<le> 2 ^ 62 \<Longrightarrow> (j = 0 \<or> 2 ^ (j - 1) < n) \<Longrightarrow>
    \<exists>k\<le>62. pow2_loop (2 ^ j) n = Some (2 ^ k) \<and> n \<le> 2 ^ k \<and> (k = 0 \<or> 2 ^ (k - 1) < n)"
proof (induction "62 - j" arbitrary: j)
  case 0
  then have "j = 62" by simp
  with 0 show ?case by (subst pow2_loop.simps) auto
next
  case (Suc m)
  show ?case
  proof (cases "2 ^ j < n")
    case True
    have "wrap64 (2 * 2 ^ j) = 2 ^ Suc j" using Suc.hyps(2) by (intro double_power) simp
    with True Suc.hyps(1) [of "Suc j"] Suc.hyps(2) Suc.prems show ?thesis
      by (subst pow2_loop.simps) auto
  next
    case False
    with Suc.prems show ?thesis by (subst pow2_loop.simps) auto
  qed
qed

text \<open>The least power of two that is large enough, for every count up to \<open>2 ^ 62\<close>.\<close>

lemma nextPow2_least:
  assumes "n \<le> 2 ^ 62"
  obtains k where "k \<le> 62" "nextPow2 n = Some (2 ^ k)" "n \<le> 2 ^ k" "k = 0 \<or> 2 ^ (k - 1) < n"
proof (cases "n < 1")
  case True
  then show thesis by (intro that [of 0]) (auto simp: nextPow2_def)
next
  case False
  with pow2_loop_power [of 0 n] assms that show thesis by (auto simp: nextPow2_def)
qed

text \<open>Beyond it the doubled \<^verbatim>\<open>int\<close> wraps to a negative number and then to 0 for ever.\<close>

definition pow2_stuck :: "int \<Rightarrow> bool" where
  "pow2_stuck p \<longleftrightarrow> p \<le> 0 \<and> wrap64 (2 * p) = 0 \<or> (\<exists>j\<le>62. p = 2 ^ j)"

lemma pow2_stuck_step: "pow2_stuck p \<Longrightarrow> pow2_stuck (wrap64 (2 * p))"
proof -
  assume "pow2_stuck p"
  then consider "wrap64 (2 * p) = 0" | "p = 2 ^ 62" | j where "j < 62" "p = 2 ^ j"
    by (auto simp: pow2_stuck_def le_less)
  then show ?thesis
  proof cases
    case (3 j)
    then have "wrap64 (2 * p) = 2 ^ Suc j" by (simp only: double_power)
    with 3 show ?thesis unfolding pow2_stuck_def by (metis Suc_leI)
  qed (auto simp: pow2_stuck_def wrap64_def)
qed

lemma pow2_loop_diverges:
  assumes "pow2_stuck p" "2 ^ 62 < n" shows "pow2_loop p n = None"
proof (rule ccontr)
  assume "pow2_loop p n \<noteq> None"
  then obtain r where r: "pow2_loop p n = Some r" by auto
  have "\<not> (pow2_stuck p \<and> 2 ^ 62 < n)"
  proof (rule pow2_loop.raw_induct [where P = "\<lambda>p n r. \<not> (pow2_stuck p \<and> 2 ^ 62 < n)", OF _ r])
    fix f p n r
    assume IH: "\<And>p n r. f p n = Some r \<Longrightarrow> \<not> (pow2_stuck p \<and> 2 ^ 62 < n)"
      and eq: "(if p < n then f (wrap64 (2 * p)) n else Some p) = Some (r :: int)"
    show "\<not> (pow2_stuck p \<and> 2 ^ 62 < n)"
    proof
      assume *: "pow2_stuck p \<and> 2 ^ 62 < n"
      have "(2::int) ^ j \<le> 2 ^ 62" if "j \<le> 62" for j :: nat
        using that by (intro power_increasing) auto
      with * have "p < n" by (fastforce simp: pow2_stuck_def)
      with eq IH pow2_stuck_step * show False by auto
    qed
  qed
  with assms show False by blast
qed

lemma nextPow2_diverges: "2 ^ 62 < n \<Longrightarrow> nextPow2 n = None"
  by (simp add: nextPow2_def) (rule pow2_loop_diverges, auto simp: pow2_stuck_def intro: exI [of _ 0])

lemma Store_New_power:
  assumes "Store_New c = Some s"
  obtains k where "k \<le> 45" "length (shards s) = 2 ^ k" "mask s = word_of_int (2 ^ k - 1)"
    "set (shards s) = {[]}" "c \<le> 2 ^ k" "k = 0 \<or> 2 ^ (k - 1) < c"
proof -
  have c: "c \<le> 2 ^ 62" using assms nextPow2_diverges [of c]
    by (cases "c \<le> 2 ^ 62") (auto simp: Store_New_def)
  obtain k where k: "nextPow2 c = Some (2 ^ k)" "c \<le> 2 ^ k" "k = 0 \<or> 2 ^ (k - 1) < c"
    using nextPow2_least [OF c] by blast
  with assms have s: "s = \<lparr>shards = replicate (2 ^ k) [], mask = word_of_int (2 ^ k - 1)\<rparr>"
    and "(2::int) ^ k \<le> 2 ^ 45"
    by (auto simp: Store_New_def make_ok_def maxAlloc_def nat_power_eq split: if_splits)
  then have "k \<le> 45" by (metis power_le_imp_le_exp one_less_numeral_iff semiring_norm(76))
  with k s show thesis by (intro that [of k]) auto
qed

lemma Store_New_ok [invs]:
  assumes "Store_New c = Some s" shows "store_ok s"
proof -
  obtain k where k: "length (shards s) = 2 ^ k" "mask s = word_of_int (2 ^ k - 1)"
    "set (shards s) = {[]}"
    using Store_New_power [OF assms] by metis
  have "unat (mask s) < 2 ^ k"
  proof -
    have "uint (word_of_int (2 ^ k - 1) :: 32 word) \<le> 2 ^ k - 1"
      unfolding uint_word_of_int by (rule zmod_le_nonneg_dividend) simp
    then have "int (unat (mask s)) < 2 ^ k" unfolding k(2) by simp
    then show ?thesis by (metis of_nat_less_iff of_nat_numeral of_nat_power)
  qed
  moreover have "shards s ! i = []" if "i < length (shards s)" for i
    using k(3) nth_mem [OF that] by auto
  ultimately show ?thesis by (auto simp: store_ok_def k(1))
qed

lemma Store_New_empty: "Store_New c = Some s \<Longrightarrow> sh_lookup s = Map.empty"
proof -
  assume s: "Store_New c = Some s"
  then have "set (shards s) = {[]}" using Store_New_power by metis
  moreover have "shardFor s k < length (shards s)" for k
    by (rule shardFor_less [OF Store_New_ok [OF s]])
  ultimately have "shards s ! shardFor s k = []" for k
    by (metis nth_mem singletonD)
  then show ?thesis by (simp add: sh_lookup_def fun_eq_iff)
qed

text \<open>Masking is the remainder by the number of shards, so every shard can be selected.\<close>

lemma shardFor_mod:
  assumes "length (shards s) = 2 ^ k" "mask s = word_of_int (2 ^ k - 1)" "k \<le> 32"
  shows "shardFor s key = unat (fnv32a key) mod length (shards s)"
proof -
  have "mask s = Bit_Operations.mask k"
    by (simp add: assms(2) mask_eq_exp_minus_1)
  then have "shardFor s key = unat (take_bit k (fnv32a key))"
    by (simp add: shardFor_def take_bit_eq_mask)
  also have "\<dots> = take_bit k (unat (fnv32a key))" by (rule unsigned_take_bit_eq)
  finally show ?thesis by (simp add: assms(1) take_bit_eq_mod)
qed

end
