(* ===== verification/Store_Types.thy ===== *)
theory Store_Types
  imports Store
begin

text \<open>
  Hashes and lists, and the snapshot of the data set (\<^verbatim>\<open>internal/store/store.go\<close>), followed by
  the type invariant of the entries: the payload fields that the tag does not select are empty,
  and no hash or list is empty.
\<close>

section \<open>Hash commands\<close>

text \<open>The loop of \<^verbatim>\<open>HSet\<close>: the map and \<^verbatim>\<open>added\<close>.\<close>

fun hset_loop :: "(string \<times> string) list \<Rightarrow> (string, string) gomap \<Rightarrow> int \<Rightarrow> (string, string) gomap \<times> int" where
  "hset_loop [] h added = (h, added)"
| "hset_loop ((f, v) # pairs) h added =
     hset_loop pairs (gm_put f v h) (if map_of h f = None then added + 1 else added)"

definition Store_HSet ::
    "store \<Rightarrow> time \<Rightarrow> string \<Rightarrow> (string \<times> string) list \<Rightarrow> store \<times> (store_error + int)" where
  "Store_HSet s now key pairs =
     (let live = getLive s key now;
          e = (case live of None \<Rightarrow> entry0\<lparr>e_kind := KindHash\<rparr> | Some e \<Rightarrow> e)
      in if live \<noteq> None \<and> e_kind e \<noteq> KindHash then (s, Inl ErrWrongType)
         else
           let (h, added) = hset_loop pairs (e_hash e) 0
           in (sh_put s key (e\<lparr>e_hash := h\<rparr>), Inr added))"

definition Store_HGet :: "store \<Rightarrow> time \<Rightarrow> string \<Rightarrow> string \<Rightarrow> store_error + string option" where
  "Store_HGet s now key field =
     (case getLive s key now of
        None \<Rightarrow> Inr None
      | Some e \<Rightarrow>
          if e_kind e \<noteq> KindHash then Inl ErrWrongType else Inr (map_of (e_hash e) field))"

fun hdel_loop :: "string list \<Rightarrow> (string, string) gomap \<Rightarrow> int \<Rightarrow> (string, string) gomap \<times> int" where
  "hdel_loop [] h removed = (h, removed)"
| "hdel_loop (f # fs) h removed =
     (if map_of h f \<noteq> None then hdel_loop fs (gm_del f h) (removed + 1)
      else hdel_loop fs h removed)"

definition Store_HDel :: "store \<Rightarrow> time \<Rightarrow> string \<Rightarrow> string list \<Rightarrow> store \<times> (store_error + int)" where
  "Store_HDel s now key fs =
     (case getLive s key now of
        None \<Rightarrow> (s, Inr 0)
      | Some e \<Rightarrow>
          if e_kind e \<noteq> KindHash then (s, Inl ErrWrongType)
          else
            let (h, removed) = hdel_loop fs (e_hash e) 0
            in (if h = [] then sh_del s key else sh_put s key (e\<lparr>e_hash := h\<rparr>), Inr removed))"

text \<open>The body the read-only hash operations share: \<open>get\<close> is applied to the live hash.\<close>

definition read_hash :: "store \<Rightarrow> time \<Rightarrow> string \<Rightarrow> 'a \<Rightarrow> ((string, string) gomap \<Rightarrow> 'a) \<Rightarrow> store_error + 'a" where
  "read_hash s now key missing get =
     (case getLive s key now of
        None \<Rightarrow> Inr missing
      | Some e \<Rightarrow> if e_kind e \<noteq> KindHash then Inl ErrWrongType else Inr (get (e_hash e)))"

definition Store_HGetAll ::
    "(string list \<Rightarrow> string list) \<Rightarrow> store \<Rightarrow> time \<Rightarrow> string \<Rightarrow> store_error + string list" where
  "Store_HGetAll ord s now key =
     read_hash s now key [] (\<lambda>h. concat (map (\<lambda>(f, v). [f, v]) (gm_range ord h)))"

definition Store_HKeys ::
    "(string list \<Rightarrow> string list) \<Rightarrow> store \<Rightarrow> time \<Rightarrow> string \<Rightarrow> store_error + string list" where
  "Store_HKeys ord s now key = read_hash s now key [] (\<lambda>h. map fst (gm_range ord h))"

definition Store_HVals ::
    "(string list \<Rightarrow> string list) \<Rightarrow> store \<Rightarrow> time \<Rightarrow> string \<Rightarrow> store_error + string list" where
  "Store_HVals ord s now key = read_hash s now key [] (\<lambda>h. map snd (gm_range ord h))"

definition Store_HLen :: "store \<Rightarrow> time \<Rightarrow> string \<Rightarrow> store_error + int" where
  "Store_HLen s now key = read_hash s now key 0 (\<lambda>h. int (length h))"

definition Store_HExists :: "store \<Rightarrow> time \<Rightarrow> string \<Rightarrow> string \<Rightarrow> store_error + bool" where
  "Store_HExists s now key field = read_hash s now key False (\<lambda>h. map_of h field \<noteq> None)"

section \<open>List commands\<close>

text \<open>\<^verbatim>\<open>for _, v := range values { e.list = append([]string{v}, e.list...) }\<close>\<close>

fun lpush_loop :: "string list \<Rightarrow> string list \<Rightarrow> string list" where
  "lpush_loop [] xs = xs"
| "lpush_loop (v # vs) xs = lpush_loop vs (v # xs)"

definition push_with ::
    "(string list \<Rightarrow> string list) \<Rightarrow> store \<Rightarrow> time \<Rightarrow> string \<Rightarrow> store \<times> (store_error + int)" where
  "push_with f s now key =
     (let live = getLive s key now;
          e = (case live of None \<Rightarrow> entry0\<lparr>e_kind := KindList\<rparr> | Some e \<Rightarrow> e)
      in if live \<noteq> None \<and> e_kind e \<noteq> KindList then (s, Inl ErrWrongType)
         else
           let e = e\<lparr>e_list := f (e_list e)\<rparr>
           in (sh_put s key e, Inr (int (length (e_list e)))))"

definition Store_LPush :: "store \<Rightarrow> time \<Rightarrow> string \<Rightarrow> string list \<Rightarrow> store \<times> (store_error + int)" where
  "Store_LPush s now key values = push_with (lpush_loop values) s now key"

definition Store_RPush :: "store \<Rightarrow> time \<Rightarrow> string \<Rightarrow> string list \<Rightarrow> store \<times> (store_error + int)" where
  "Store_RPush s now key values = push_with (\<lambda>xs. xs @ values) s now key"

definition Store_pop :: "store \<Rightarrow> time \<Rightarrow> string \<Rightarrow> bool \<Rightarrow> store \<times> (store_error + string option)" where
  "Store_pop s now key left =
     (case getLive s key now of
        None \<Rightarrow> (s, Inr None)
      | Some e \<Rightarrow>
          if e_kind e \<noteq> KindList then (s, Inl ErrWrongType)
          else if e_list e = [] then (s, Inr None)
          else
            let v = (if left then hd (e_list e) else last (e_list e));
                xs = (if left then tl (e_list e) else butlast (e_list e))
            in (if xs = [] then sh_del s key else sh_put s key (e\<lparr>e_list := xs\<rparr>),
                Inr (Some v)))"

definition Store_LPop :: "store \<Rightarrow> time \<Rightarrow> string \<Rightarrow> store \<times> (store_error + string option)" where
  "Store_LPop s now key = Store_pop s now key True"

definition Store_RPop :: "store \<Rightarrow> time \<Rightarrow> string \<Rightarrow> store \<times> (store_error + string option)" where
  "Store_RPop s now key = Store_pop s now key False"

definition read_list :: "store \<Rightarrow> time \<Rightarrow> string \<Rightarrow> 'a \<Rightarrow> (string list \<Rightarrow> 'a) \<Rightarrow> store_error + 'a" where
  "read_list s now key missing get =
     (case getLive s key now of
        None \<Rightarrow> Inr missing
      | Some e \<Rightarrow> if e_kind e \<noteq> KindList then Inl ErrWrongType else Inr (get (e_list e)))"

definition Store_LLen :: "store \<Rightarrow> time \<Rightarrow> string \<Rightarrow> store_error + int" where
  "Store_LLen s now key = read_list s now key 0 (\<lambda>xs. int (length xs))"

definition normalizeIndex :: "int \<Rightarrow> int \<Rightarrow> int" where
  "normalizeIndex i len = (if i < 0 then wrap64 (len + i) else i)"

definition list_index :: "string list \<Rightarrow> int \<Rightarrow> string option" where
  "list_index xs index =
     (let i = normalizeIndex index (int (length xs))
      in if i < 0 \<or> i \<ge> int (length xs) then None else Some (xs ! nat i))"

definition Store_LIndex :: "store \<Rightarrow> time \<Rightarrow> string \<Rightarrow> int \<Rightarrow> store_error + string option" where
  "Store_LIndex s now key index = read_list s now key None (\<lambda>xs. list_index xs index)"

definition list_range :: "string list \<Rightarrow> int \<Rightarrow> int \<Rightarrow> string list" where
  "list_range xs start stop =
     (let n = int (length xs);
          lo = normalizeIndex start n;
          hi = normalizeIndex stop n;
          lo = (if lo < 0 then 0 else lo);
          hi = (if hi \<ge> n then n - 1 else hi)
      in if lo > hi \<or> n = 0 then []
         else take (nat (hi - lo + 1)) (drop (nat lo) xs))"

definition Store_LRange :: "store \<Rightarrow> time \<Rightarrow> string \<Rightarrow> int \<Rightarrow> int \<Rightarrow> store_error + string list" where
  "Store_LRange s now key start stop = read_list s now key [] (\<lambda>xs. list_range xs start stop)"

section \<open>Snapshot\<close>

record Snapshot =
  snap_Key :: string
  snap_Kind :: Kind
  snap_Str :: string
  snap_Hash :: "(string, string) gomap"
  snap_List :: "string list"
  snap_ExpiresAt :: time

definition snapshot_entry :: "(string list \<Rightarrow> string list) \<Rightarrow> string \<Rightarrow> entry \<Rightarrow> Snapshot" where
  "snapshot_entry ord k e =
     \<lparr>snap_Key = k, snap_Kind = e_kind e,
      snap_Str = (if e_kind e = KindString then e_str e else []),
      snap_Hash = (if e_kind e = KindHash
        then fold (\<lambda>(f, v). gm_put f v) (gm_range ord (e_hash e)) [] else []),
      snap_List = (if e_kind e = KindList then e_list e else []),
      snap_ExpiresAt = expiresAt e\<rparr>"

definition Store_SnapshotAll ::
    "(string list \<Rightarrow> string list) \<Rightarrow> store \<Rightarrow> time \<Rightarrow> Snapshot list" where
  "Store_SnapshotAll ord s now =
     concat (map (\<lambda>sh. map (\<lambda>(k, e). snapshot_entry ord k e)
       (filter (\<lambda>(k, e). \<not> expired e now) (gm_range ord sh))) (shards s))"

section \<open>Loops\<close>

lemma hset_loop_fold: "hset_loop ps h n = (fold (\<lambda>(f, v). gm_put f v) ps h, snd (hset_loop ps h n))"
  by (induction ps h n rule: hset_loop.induct) auto

lemma hset_loop_wf [invs]: "gm_wf h \<Longrightarrow> gm_wf (fst (hset_loop ps h n))"
  by (subst hset_loop_fold) (simp add: gm.ok_put_all)

lemma hset_loop_lookup: "gm_wf h \<Longrightarrow> map_of (fst (hset_loop ps h n)) = map_of h ++ map_of (rev ps)"
  by (subst hset_loop_fold) (simp add: gm.lookup_put_all)

text \<open>\<^verbatim>\<open>added\<close> is the growth of the hash, however often a field is repeated.\<close>

lemma hset_loop_added:
  "gm_wf h \<Longrightarrow> snd (hset_loop ps h n) = n + int (length (fst (hset_loop ps h n))) - int (length h)"
  by (induction ps h n rule: hset_loop.induct) (auto simp: gm_put_length gm_wf_put)

lemma hset_loop_not_Nil: "ps \<noteq> [] \<or> h \<noteq> [] \<Longrightarrow> fst (hset_loop ps h n) \<noteq> []"
  by (induction ps h n rule: hset_loop.induct) auto

lemma hdel_loop_wf [invs]: "gm_wf h \<Longrightarrow> gm_wf (fst (hdel_loop fs h n))"
  by (induction fs h n rule: hdel_loop.induct) (auto simp: gm_wf_del)

lemma hdel_loop_lookup: "map_of (fst (hdel_loop fs h n)) = map_of h |` (- set fs)"
  by (induction fs h n rule: hdel_loop.induct) (auto simp: fun_eq_iff restrict_map_def)

lemma hdel_loop_removed:
  "gm_wf h \<Longrightarrow> snd (hdel_loop fs h n) = n + int (length h) - int (length (fst (hdel_loop fs h n)))"
proof (induction fs h n rule: hdel_loop.induct)
  case (2 f fs h removed)
  then show ?case using gm_del_length [of h f] by (auto simp: gm_wf_del split: if_splits)
qed simp

lemma lpush_loop_rev: "lpush_loop vs xs = rev vs @ xs"
  by (induction vs arbitrary: xs) auto

section \<open>Type invariant of the entries\<close>

definition entry_ok :: "entry \<Rightarrow> bool" where
  "entry_ok e \<longleftrightarrow>
     (case e_kind e of
        KindNone \<Rightarrow> False
      | KindString \<Rightarrow> e_hash e = [] \<and> e_list e = []
      | KindHash \<Rightarrow> e_str e = [] \<and> e_list e = [] \<and> gm_wf (e_hash e) \<and> e_hash e \<noteq> []
      | KindList \<Rightarrow> e_str e = [] \<and> e_hash e = [] \<and> e_list e \<noteq> [])"

definition typed :: "store \<Rightarrow> bool" where
  "typed s \<longleftrightarrow> store_ok s \<and> (\<forall>k e. sh_lookup s k = Some e \<longrightarrow> entry_ok e)"

lemma typed_ok: "typed s \<Longrightarrow> store_ok s"
  by (simp add: typed_def)

lemma typed_put [invs]: "typed s \<Longrightarrow> entry_ok e \<Longrightarrow> typed (sh_put s k e)"
  by (auto simp: typed_def)

lemma typed_del [invs]: "typed s \<Longrightarrow> typed (sh_del s k)"
  by (auto simp: typed_def split: if_splits)

lemma typed_New [invs]: "Store_New c = Some s \<Longrightarrow> typed s"
  by (simp add: typed_def Store_New_ok Store_New_empty)

lemma getLive_Some: "getLive s k now = Some e \<longleftrightarrow> sh_lookup s k = Some e \<and> \<not> expired e now"
  by (auto simp: getLive_def split: option.splits)

lemma getLive_entry_ok: "typed s \<Longrightarrow> getLive s k now = Some e \<Longrightarrow> entry_ok e"
  by (auto simp: typed_def getLive_Some)

lemma entry_ok_simps [simp]:
  "entry_ok (e\<lparr>expiresAt := t\<rparr>) = entry_ok e"
  "entry_ok (string_entry v)"
  "e_kind (string_entry v) = KindString"
  "e_str (string_entry v) = v"
  "expiresAt (string_entry v) = 0"
  by (simp_all add: entry_ok_def string_entry_def entry0_def split: Kind.splits)

lemma entry_ok_string [simp]:
  "e_kind e = KindString \<Longrightarrow> entry_ok e \<Longrightarrow> entry_ok (e\<lparr>e_str := v\<rparr>)"
  "entry_ok (entry0\<lparr>e_kind := KindString, e_str := v\<rparr>)"
  by (simp_all add: entry_ok_def entry0_def)

lemma entry_ok_hash [simp]:
  "e_kind e = KindHash \<Longrightarrow> entry_ok e \<Longrightarrow> gm_wf h \<Longrightarrow> h \<noteq> [] \<Longrightarrow> entry_ok (e\<lparr>e_hash := h\<rparr>)"
  "gm_wf h \<Longrightarrow> h \<noteq> [] \<Longrightarrow> entry_ok (entry0\<lparr>e_kind := KindHash, e_hash := h\<rparr>)"
  by (simp_all add: entry_ok_def entry0_def)

lemma entry_ok_list [simp]:
  "e_kind e = KindList \<Longrightarrow> entry_ok e \<Longrightarrow> xs \<noteq> [] \<Longrightarrow> entry_ok (e\<lparr>e_list := xs\<rparr>)"
  "xs \<noteq> [] \<Longrightarrow> entry_ok (entry0\<lparr>e_kind := KindList, e_list := xs\<rparr>)"
  by (simp_all add: entry_ok_def entry0_def)

lemma entry_okD:
  assumes "entry_ok e"
  shows "e_kind e = KindString \<Longrightarrow> e_hash e = [] \<and> e_list e = []"
    and "e_kind e = KindHash \<Longrightarrow> gm_wf (e_hash e) \<and> e_hash e \<noteq> [] \<and> e_str e = [] \<and> e_list e = []"
    and "e_kind e = KindList \<Longrightarrow> e_list e \<noteq> [] \<and> e_str e = [] \<and> e_hash e = []"
    and "e_kind e \<noteq> KindNone"
  using assms by (simp_all add: entry_ok_def split: Kind.splits)

lemma entry0_simps [simp]:
  "e_str entry0 = []" "e_hash entry0 = []" "e_list entry0 = []" "expiresAt entry0 = 0"
  "e_kind entry0 = KindNone"
  by (simp_all add: entry0_def)

text \<open>Every operation that writes keeps the entries well typed.\<close>

lemma typed_Set [invs]: "typed s \<Longrightarrow> typed (Store_Set s now k v ttl)"
  by (simp add: Store_Set_def Let_def typed_put)

lemma typed_SetNX [invs]: "typed s \<Longrightarrow> typed (fst (Store_SetNX s now k v ttl))"
  by (simp add: Store_SetNX_def Let_def typed_put)

lemma typed_SetXX [invs]: "typed s \<Longrightarrow> typed (fst (Store_SetXX s now k v ttl))"
  by (simp add: Store_SetXX_def Let_def typed_put)

lemma typed_Get [invs]: "typed s \<Longrightarrow> typed (fst (Store_Get s now k))"
  by (simp add: Store_Get_def lazyDelete_def typed_del split: option.splits)

lemma typed_StrLen [invs]: "typed s \<Longrightarrow> typed (fst (Store_StrLen s now k))"
  using typed_Get [of s now k]
  by (auto simp: Store_StrLen_def split: prod.splits sum.splits option.splits)

lemma typed_Append [invs]: "typed s \<Longrightarrow> typed (fst (Store_Append s now k v))"
  by (auto simp: Store_Append_def Let_def intro!: typed_put entry_ok_string
      dest: getLive_entry_ok split: option.splits)

lemma typed_GetSet [invs]: "typed s \<Longrightarrow> typed (fst (Store_GetSet s now k v))"
  by (simp add: Store_GetSet_def typed_put split: option.splits)

lemma typed_IncrBy [invs]: "typed s \<Longrightarrow> typed (fst (Store_IncrBy s now k d))"
  by (auto simp: Store_IncrBy_def Let_def incr_entry_def intro!: typed_put entry_ok_string
      dest: getLive_entry_ok split: option.splits sum.splits if_splits)

lemma typed_Del [invs]: "typed s \<Longrightarrow> typed (fst (Store_Del s now k))"
  by (simp add: Store_Del_def typed_del)

lemma typed_Expire [invs]: "typed s \<Longrightarrow> typed (fst (Store_Expire s now k ttl))"
  by (auto simp: Store_Expire_def intro!: typed_put dest: getLive_entry_ok split: option.splits)

lemma typed_Persist [invs]: "typed s \<Longrightarrow> typed (fst (Store_Persist s now k))"
  by (auto simp: Store_Persist_def intro!: typed_put dest: getLive_entry_ok split: option.splits)

lemma typed_HSet [invs]: "typed s \<Longrightarrow> ps \<noteq> [] \<Longrightarrow> typed (fst (Store_HSet s now k ps))"
  by (auto simp: Store_HSet_def Let_def case_prod_unfold hset_loop_not_Nil hset_loop_wf entry_okD(2)
      intro!: typed_put entry_ok_hash dest: getLive_entry_ok split: option.splits)

lemma typed_HDel [invs]: "typed s \<Longrightarrow> typed (fst (Store_HDel s now k fs))"
  by (auto simp: Store_HDel_def Let_def case_prod_unfold hdel_loop_wf entry_okD(2)
      intro!: typed_put typed_del entry_ok_hash dest: getLive_entry_ok split: option.splits)

lemma typed_push: "typed s \<Longrightarrow> (\<And>xs. f xs \<noteq> []) \<Longrightarrow> typed (fst (push_with f s now k))"
  by (auto simp: push_with_def Let_def intro!: typed_put entry_ok_list
      dest: getLive_entry_ok split: option.splits)

lemma typed_LPush [invs]: "typed s \<Longrightarrow> vs \<noteq> [] \<Longrightarrow> typed (fst (Store_LPush s now k vs))"
  by (simp add: Store_LPush_def typed_push lpush_loop_rev)

lemma typed_RPush [invs]: "typed s \<Longrightarrow> vs \<noteq> [] \<Longrightarrow> typed (fst (Store_RPush s now k vs))"
  by (simp add: Store_RPush_def typed_push)

lemma typed_pop [invs]: "typed s \<Longrightarrow> typed (fst (Store_pop s now k left))"
  by (auto simp: Store_pop_def Let_def intro!: typed_put typed_del entry_ok_list
      dest: getLive_entry_ok split: option.splits)

lemma typed_LPop [invs]: "typed s \<Longrightarrow> typed (fst (Store_LPop s now k))"
  by (simp add: Store_LPop_def typed_pop)

lemma typed_RPop [invs]: "typed s \<Longrightarrow> typed (fst (Store_RPop s now k))"
  by (simp add: Store_RPop_def typed_pop)

end
