(* ===== verification/Pubsub.thy ===== *)
theory Pubsub
  imports Voltkv_Prelude
begin

text \<open>
  The publish/subscribe broker (\<^verbatim>\<open>internal/pubsub/pubsub.go\<close>). A \<^verbatim>\<open>*Subscription\<close> is
  shared between the broker, the connection and its forwarding goroutine, so subscriptions live
  in an explicit heap and a pointer is an index into it. A run-time panic (closing a closed
  channel, sending on a closed channel) is the result \<open>None\<close>. Each lock region of the code is
  one step; \<^verbatim>\<open>Publish\<close> sends after it has released the lock, so the second half of the
  theory splits it into a snapshot and single sends that other steps can separate.
\<close>

section \<open>Broker\<close>

record Message =
  msg_Channel :: string
  msg_Payload :: string

record Subscription =
  sub_Channel :: string
  sub_C :: "Message list"   \<comment> \<open>what is buffered in the Go channel\<close>
  sub_closed :: bool        \<comment> \<open>whether the Go channel is closed\<close>

type_synonym sub_ptr = nat

record broker =
  subs :: "(string, sub_ptr list) gomap"   \<comment> \<open>the inner set, in some order\<close>
  heap :: "Subscription list"

definition chan_cap :: nat where "chan_cap = 64"

definition Broker_New :: broker where
  "Broker_New = \<lparr>subs = [], heap = []\<rparr>"

definition subscribers :: "broker \<Rightarrow> string \<Rightarrow> sub_ptr list" where
  "subscribers b channel = (case map_of (subs b) channel of None \<Rightarrow> [] | Some ps \<Rightarrow> ps)"

definition Broker_Subscribe :: "broker \<Rightarrow> string \<Rightarrow> broker \<times> sub_ptr" where
  "Broker_Subscribe b channel =
     (let sub = length (heap b);
          ps = subscribers b channel
      in (b\<lparr>subs := gm_put channel (List.insert sub ps) (subs b),
            heap := heap b @ [\<lparr>sub_Channel = channel, sub_C = [], sub_closed = False\<rparr>]\<rparr>, sub))"

definition chan_close :: "broker \<Rightarrow> sub_ptr \<Rightarrow> broker option" where
  "chan_close b p =
     (if sub_closed (heap b ! p) then None
      else Some (b\<lparr>heap := (heap b)[p := (heap b ! p)\<lparr>sub_closed := True\<rparr>]\<rparr>))"

definition Broker_Unsubscribe :: "broker \<Rightarrow> sub_ptr \<Rightarrow> broker option" where
  "Broker_Unsubscribe b sub =
     (let channel = sub_Channel (heap b ! sub) in
      case map_of (subs b) channel of
        None \<Rightarrow> Some b
      | Some ps \<Rightarrow>
          if sub \<notin> set ps then Some b
          else
            let ps' = removeAll sub ps in
            case chan_close b sub of
              None \<Rightarrow> None
            | Some b' \<Rightarrow>
                Some (b'\<lparr>subs := (if ps' = [] then gm_del channel (subs b')
                                  else gm_put channel ps' (subs b'))\<rparr>))"

text \<open>\<^verbatim>\<open>select { case sub.C <- msg: ...; default: }\<close>, with whether the message went in.\<close>

definition try_send :: "broker \<Rightarrow> sub_ptr \<Rightarrow> Message \<Rightarrow> (broker \<times> bool) option" where
  "try_send b p msg =
     (let s = heap b ! p in
      if sub_closed s then None
      else if length (sub_C s) < chan_cap
        then Some (b\<lparr>heap := (heap b)[p := s\<lparr>sub_C := sub_C s @ [msg]\<rparr>]\<rparr>, True)
        else Some (b, False))"

fun publish_loop :: "sub_ptr list \<Rightarrow> Message \<Rightarrow> broker \<Rightarrow> int \<Rightarrow> (broker \<times> int) option" where
  "publish_loop [] msg b delivered = Some (b, delivered)"
| "publish_loop (p # ps) msg b delivered =
     (case try_send b p msg of
        None \<Rightarrow> None
      | Some (b', sent) \<Rightarrow> publish_loop ps msg b' (if sent then delivered + 1 else delivered))"

text \<open>\<open>ord\<close> is the order in which \<^verbatim>\<open>range\<close> visits the set of subscriptions.\<close>

definition Broker_Publish ::
    "(sub_ptr list \<Rightarrow> sub_ptr list) \<Rightarrow> broker \<Rightarrow> string \<Rightarrow> string \<Rightarrow> (broker \<times> int) option" where
  "Broker_Publish ord b channel payload =
     publish_loop (ord (subscribers b channel))
       \<lparr>msg_Channel = channel, msg_Payload = payload\<rparr> b 0"

text \<open>A receive of the forwarding goroutine, when a message is buffered.\<close>

definition chan_recv :: "broker \<Rightarrow> sub_ptr \<Rightarrow> (broker \<times> Message) option" where
  "chan_recv b p =
     (case sub_C (heap b ! p) of
        [] \<Rightarrow> None
      | m # ms \<Rightarrow> Some (b\<lparr>heap := (heap b)[p := (heap b ! p)\<lparr>sub_C := ms\<rparr>]\<rparr>, m))"

section \<open>Invariant\<close>

text \<open>
  A registered subscription is of its channel and open, no empty set is kept, and no buffer is
  over its capacity.
\<close>

definition broker_ok :: "broker \<Rightarrow> bool" where
  "broker_ok b \<longleftrightarrow>
     gm_wf (subs b) \<and>
     (\<forall>channel ps. map_of (subs b) channel = Some ps \<longrightarrow>
        ps \<noteq> [] \<and> distinct ps \<and>
        (\<forall>p\<in>set ps. p < length (heap b) \<and> sub_Channel (heap b ! p) = channel \<and>
           \<not> sub_closed (heap b ! p))) \<and>
     (\<forall>s\<in>set (heap b). length (sub_C s) \<le> chan_cap)"

lemma broker_okI:
  assumes "gm_wf (subs b)"
    and "\<And>channel ps. map_of (subs b) channel = Some ps \<Longrightarrow> ps \<noteq> [] \<and> distinct ps"
    and "\<And>channel ps p. map_of (subs b) channel = Some ps \<Longrightarrow> p \<in> set ps \<Longrightarrow>
      p < length (heap b) \<and> sub_Channel (heap b ! p) = channel \<and> \<not> sub_closed (heap b ! p)"
    and "\<And>p. p < length (heap b) \<Longrightarrow> length (sub_C (heap b ! p)) \<le> chan_cap"
  shows "broker_ok b"
  using assms unfolding broker_ok_def by (auto simp: in_set_conv_nth)

lemma broker_okD:
  assumes "broker_ok b"
  shows "gm_wf (subs b)"
    and "map_of (subs b) channel = Some ps \<Longrightarrow> ps \<noteq> [] \<and> distinct ps"
    and "map_of (subs b) channel = Some ps \<Longrightarrow> p \<in> set ps \<Longrightarrow>
      p < length (heap b) \<and> sub_Channel (heap b ! p) = channel \<and> \<not> sub_closed (heap b ! p)"
    and "p < length (heap b) \<Longrightarrow> length (sub_C (heap b ! p)) \<le> chan_cap"
  using assms unfolding broker_ok_def by auto

lemma in_subscribers:
  "p \<in> set (subscribers b channel) \<longleftrightarrow> (\<exists>ps. map_of (subs b) channel = Some ps \<and> p \<in> set ps)"
  by (cases "map_of (subs b) channel") (simp_all add: subscribers_def)

lemma subscribers_ok:
  "broker_ok b \<Longrightarrow> p \<in> set (subscribers b channel) \<Longrightarrow>
    p < length (heap b) \<and> sub_Channel (heap b ! p) = channel \<and> \<not> sub_closed (heap b ! p)"
  unfolding in_subscribers using broker_okD(3) by blast

lemma subscribers_distinct: "broker_ok b \<Longrightarrow> distinct (subscribers b channel)"
  using broker_okD(2) by (cases "map_of (subs b) channel") (auto simp: subscribers_def)

lemma broker_ok_New [invs]: "broker_ok Broker_New"
  by (simp add: broker_ok_def Broker_New_def)

lemma broker_ok_Subscribe [invs]:
  assumes "broker_ok b" shows "broker_ok (fst (Broker_Subscribe b channel))"
proof -
  let ?b = "fst (Broker_Subscribe b channel)"
  have old: "p < length (heap b)" "sub_Channel (heap b ! p) = ch" "\<not> sub_closed (heap b ! p)"
    if "p \<in> set (subscribers b ch)" for p ch
    using subscribers_ok [OF assms that] by auto
  have subs': "map_of (subs ?b) ch = Some ps \<longleftrightarrow>
      (if ch = channel then ps = List.insert (length (heap b)) (subscribers b channel)
       else map_of (subs b) ch = Some ps)" for ch ps
    by (auto simp: Broker_Subscribe_def Let_def)
  show ?thesis
  proof (rule broker_okI)
    show "gm_wf (subs ?b)"
      using broker_okD(1) [OF assms] by (simp add: Broker_Subscribe_def Let_def gm_wf_put)
    show "ps \<noteq> [] \<and> distinct ps" if "map_of (subs ?b) ch = Some ps" for ch ps
      using that subscribers_distinct [OF assms, of channel] broker_okD(2) [OF assms]
      unfolding subs' by (auto split: if_splits simp: List.insert_def)
    show "p < length (heap ?b) \<and> sub_Channel (heap ?b ! p) = ch \<and> \<not> sub_closed (heap ?b ! p)"
      if "map_of (subs ?b) ch = Some ps" "p \<in> set ps" for ch ps p
      using that old [of p ch] broker_okD(3) [OF assms, of ch ps p] unfolding subs'
      by (auto simp: Broker_Subscribe_def Let_def nth_append split: if_splits)
    show "length (sub_C (heap ?b ! p)) \<le> chan_cap" if "p < length (heap ?b)" for p
      using that broker_okD(4) [OF assms, of p]
      by (auto simp: Broker_Subscribe_def Let_def nth_append)
  qed
qed

text \<open>A subscription that the broker still holds is open, so \<^verbatim>\<open>Unsubscribe\<close> never panics.\<close>

lemma Unsubscribe_Some:
  assumes "broker_ok b"
  shows "\<exists>b'. Broker_Unsubscribe b p = Some b'"
proof (cases "map_of (subs b) (sub_Channel (heap b ! p))")
  case (Some ps)
  with broker_okD(3) [OF assms Some, of p] show ?thesis
    by (auto simp: Broker_Unsubscribe_def Let_def chan_close_def)
qed (simp add: Broker_Unsubscribe_def)

lemma Unsubscribe_cases:
  assumes "broker_ok b" "Broker_Unsubscribe b p = Some b'"
  obtains "b' = b" "p \<notin> set (subscribers b (sub_Channel (heap b ! p)))"
  | "p \<in> set (subscribers b (sub_Channel (heap b ! p)))"
    "heap b' = (heap b)[p := (heap b ! p)\<lparr>sub_closed := True\<rparr>]"
    "gm_wf (subs b')"
    "\<And>ch. map_of (subs b') ch =
      (if ch = sub_Channel (heap b ! p)
       then (let ps = removeAll p (subscribers b ch) in if ps = [] then None else Some ps)
       else map_of (subs b) ch)"
proof (cases "p \<in> set (subscribers b (sub_Channel (heap b ! p)))")
  case False
  with assms(2) have "b' = b"
    by (auto simp: Broker_Unsubscribe_def Let_def subscribers_def split: option.splits if_splits)
  with False that(1) show thesis by blast
next
  case True
  then obtain ps where ps: "map_of (subs b) (sub_Channel (heap b ! p)) = Some ps" "p \<in> set ps"
    unfolding in_subscribers by blast
  have "\<not> sub_closed (heap b ! p)" using broker_okD(3) [OF assms(1) ps] by simp
  with assms(2) ps have b': "b' = b\<lparr>heap := (heap b)[p := (heap b ! p)\<lparr>sub_closed := True\<rparr>],
      subs := (if removeAll p ps = [] then gm_del (sub_Channel (heap b ! p)) (subs b)
               else gm_put (sub_Channel (heap b ! p)) (removeAll p ps) (subs b))\<rparr>"
    by (auto simp: Broker_Unsubscribe_def Let_def chan_close_def)
  have sb: "subscribers b (sub_Channel (heap b ! p)) = ps" using ps by (simp add: subscribers_def)
  show thesis
  proof (rule that(2))
    show "gm_wf (subs b')" using broker_okD(1) [OF assms(1)] by (simp add: b' gm_wf_put gm_wf_del)
  qed (use True in \<open>auto simp: b' sb Let_def\<close>)
qed

lemma broker_ok_Unsubscribe [invs]:
  assumes "broker_ok b" "Broker_Unsubscribe b p = Some b'"
  shows "broker_ok b'"
  using assms
proof (cases rule: Unsubscribe_cases)
  case 1
  with assms show ?thesis by simp
next
  case 2
  let ?c = "sub_Channel (heap b ! p)"
  have len: "length (heap b') = length (heap b)" by (simp add: 2(2))
  show ?thesis
  proof (rule broker_okI)
    show "gm_wf (subs b')" by (rule 2(3))
    show "ps \<noteq> [] \<and> distinct ps" if "map_of (subs b') ch = Some ps" for ch ps
      using that subscribers_distinct [OF assms(1), of ?c] broker_okD(2) [OF assms(1)]
      unfolding 2(4) by (auto simp: Let_def distinct_removeAll split: if_splits)
    show "q < length (heap b') \<and> sub_Channel (heap b' ! q) = ch \<and> \<not> sub_closed (heap b' ! q)"
      if "map_of (subs b') ch = Some ps" "q \<in> set ps" for ch ps q
    proof -
      from that have q: "q \<in> set (subscribers b ch)" "q = p \<longrightarrow> ch \<noteq> ?c"
        unfolding 2(4) by (auto simp: Let_def subscribers_def split: if_splits)
      with subscribers_ok [OF assms(1) q(1)] have "q \<noteq> p" by auto
      with subscribers_ok [OF assms(1) q(1)] show ?thesis by (simp add: 2(2))
    qed
    show "length (sub_C (heap b' ! q)) \<le> chan_cap" if "q < length (heap b')" for q
      using that broker_okD(4) [OF assms(1), of q] by (cases "q = p") (auto simp: 2(2))
  qed
qed

text \<open>A send that goes in or is dropped keeps the registrations and the bound.\<close>

lemma try_send_open:
  "\<not> sub_closed (heap b ! p) \<Longrightarrow> \<exists>b' sent. try_send b p msg = Some (b', sent)"
  by (auto simp: try_send_def Let_def)

lemma try_send_frame:
  assumes "try_send b p msg = Some (b', sent)"
  shows "subs b' = subs b" "length (heap b') = length (heap b)"
    "sub_Channel (heap b' ! q) = sub_Channel (heap b ! q)"
    "sub_closed (heap b' ! q) = sub_closed (heap b ! q)"
    "q \<noteq> p \<Longrightarrow> heap b' ! q = heap b ! q"
  using assms
  by (cases "q = p"; cases "p < length (heap b)";
      auto simp: try_send_def Let_def list_update_beyond split: if_splits)+

lemma try_send_buffer:
  "try_send b p msg = Some (b', sent) \<Longrightarrow> p < length (heap b) \<Longrightarrow>
    sub_C (heap b' ! p) = sub_C (heap b ! p) @ (if sent then [msg] else []) \<and>
    (sent \<longleftrightarrow> length (sub_C (heap b ! p)) < chan_cap)"
  by (auto simp: try_send_def Let_def split: if_splits)

lemma broker_ok_try_send [invs]:
  assumes "broker_ok b" "try_send b p msg = Some (b', sent)" "p < length (heap b)"
  shows "broker_ok b'"
proof (rule broker_okI)
  show "length (sub_C (heap b' ! q)) \<le> chan_cap" if "q < length (heap b')" for q
    using that broker_okD(4) [OF assms(1), of q] try_send_buffer [OF assms(2,3)]
      try_send_frame(2,5) [OF assms(2)]
    by (cases "q = p") auto
qed (use broker_okD(1,2,3) [OF assms(1)] try_send_frame [OF assms(2)] in auto)

lemma broker_ok_recv [invs]:
  assumes "broker_ok b" "chan_recv b p = Some (b', m)"
  shows "broker_ok b'"
proof -
  obtain ms where b': "b' = b\<lparr>heap := (heap b)[p := (heap b ! p)\<lparr>sub_C := ms\<rparr>]\<rparr>"
    and ms: "sub_C (heap b ! p) = m # ms"
    using assms(2) by (auto simp: chan_recv_def split: list.splits)
  have eq: "sub_Channel (heap b' ! q) = sub_Channel (heap b ! q)"
    "sub_closed (heap b' ! q) = sub_closed (heap b ! q)" for q
    by (cases "q = p"; cases "p < length (heap b)"; simp add: b' list_update_beyond)+
  show ?thesis
  proof (rule broker_okI)
    show "length (sub_C (heap b' ! q)) \<le> chan_cap" if "q < length (heap b')" for q
      using that broker_okD(4) [OF assms(1), of q] ms by (cases "q = p") (auto simp: b')
  qed (use broker_okD(1,2,3) [OF assms(1)] eq in \<open>auto simp: b'\<close>)
qed

section \<open>Atomic publication\<close>

text \<open>What a publication does when nothing comes between its snapshot and its sends.\<close>

lemma publish_loop_result:
  assumes "broker_ok b" "distinct ps"
    "\<forall>p\<in>set ps. p < length (heap b) \<and> \<not> sub_closed (heap b ! p)"
  shows "\<exists>b'. publish_loop ps msg b n =
      Some (b', n + int (length (filter (\<lambda>p. length (sub_C (heap b ! p)) < chan_cap) ps))) \<and>
    broker_ok b' \<and> subs b' = subs b \<and> length (heap b') = length (heap b) \<and>
    (\<forall>q. sub_closed (heap b' ! q) = sub_closed (heap b ! q)) \<and>
    (\<forall>q<length (heap b). sub_C (heap b' ! q) =
       sub_C (heap b ! q) @ (if q \<in> set ps \<and> length (sub_C (heap b ! q)) < chan_cap then [msg] else []))"
  using assms
proof (induction ps arbitrary: b n)
  case (Cons p ps)
  obtain b1 sent where b1: "try_send b p msg = Some (b1, sent)"
    using Cons.prems(3) try_send_open [of b p msg] by auto
  have p: "p < length (heap b)" "p \<notin> set ps" using Cons.prems by auto
  note frame = try_send_frame [OF b1] and buffer = try_send_buffer [OF b1 p(1)]
  have ok1: "broker_ok b1" by (rule broker_ok_try_send [OF Cons.prems(1) b1 p(1)])
  have "\<forall>q\<in>set ps. q < length (heap b1) \<and> \<not> sub_closed (heap b1 ! q)"
    using Cons.prems(3) frame by simp
  from Cons.IH [OF ok1 _ this, of "if sent then n + 1 else n"] Cons.prems(2)
  obtain b' where b': "publish_loop ps msg b1 (if sent then n + 1 else n) =
      Some (b', (if sent then n + 1 else n) +
        int (length (filter (\<lambda>q. length (sub_C (heap b1 ! q)) < chan_cap) ps)))"
    "broker_ok b'" "subs b' = subs b1" "length (heap b') = length (heap b1)"
    "\<forall>q. sub_closed (heap b' ! q) = sub_closed (heap b1 ! q)"
    "\<forall>q<length (heap b1). sub_C (heap b' ! q) =
       sub_C (heap b1 ! q) @ (if q \<in> set ps \<and> length (sub_C (heap b1 ! q)) < chan_cap then [msg] else [])"
    by auto
  have "filter (\<lambda>q. length (sub_C (heap b1 ! q)) < chan_cap) ps =
      filter (\<lambda>q. length (sub_C (heap b ! q)) < chan_cap) ps"
    using p(2) frame(5) by (intro filter_cong refl) metis
  moreover have "sub_C (heap b' ! q) = sub_C (heap b ! q) @
      (if q \<in> set (p # ps) \<and> length (sub_C (heap b ! q)) < chan_cap then [msg] else [])"
    if "q < length (heap b)" for q
    using b'(6) that frame(2) frame(5) [of q] buffer p(2) by (cases "q = p") auto
  ultimately show ?case using b' b1 buffer frame by auto
qed auto

lemma Publish_result:
  assumes "broker_ok b" "perm_order ord"
  shows "\<exists>b'. Broker_Publish ord b channel payload =
      Some (b', int (card {p \<in> set (subscribers b channel). length (sub_C (heap b ! p)) < chan_cap})) \<and>
    broker_ok b' \<and> subs b' = subs b \<and> length (heap b') = length (heap b) \<and>
    (\<forall>q. sub_closed (heap b' ! q) = sub_closed (heap b ! q)) \<and>
    (\<forall>q<length (heap b). sub_C (heap b' ! q) = sub_C (heap b ! q) @
       (if q \<in> set (subscribers b channel) \<and> length (sub_C (heap b ! q)) < chan_cap
        then [\<lparr>msg_Channel = channel, msg_Payload = payload\<rparr>] else []))"
proof -
  let ?ps = "ord (subscribers b channel)" and ?P = "\<lambda>p. length (sub_C (heap b ! p)) < chan_cap"
  have d: "distinct ?ps" using assms subscribers_distinct by simp
  have open': "\<forall>p\<in>set ?ps. p < length (heap b) \<and> \<not> sub_closed (heap b ! p)"
    using assms subscribers_ok by auto
  have "length (filter ?P ?ps) = card (set (filter ?P ?ps))"
    using d by (metis distinct_card distinct_filter)
  also have "set (filter ?P ?ps) = {p \<in> set (subscribers b channel). ?P p}"
    using assms(2) by auto
  finally show ?thesis
    using publish_loop_result [OF assms(1) d open', of "\<lparr>msg_Channel = channel, msg_Payload = payload\<rparr>" 0]
      assms(2)
    by (auto simp: Broker_Publish_def)
qed

section \<open>Interleaved publication\<close>

text \<open>
  The broker with the publications whose snapshot is taken and whose sends are still to come.
  Each rule is one region of the code that no other goroutine can divide.
\<close>

record pubsys =
  brk :: broker
  flight :: "(Message \<times> sub_ptr list) list"
  panicked :: bool

definition pub_init :: "pubsys \<Rightarrow> bool" where
  "pub_init s \<longleftrightarrow> s = \<lparr>brk = Broker_New, flight = [], panicked = False\<rparr>"

inductive pub_step :: "pubsys \<Rightarrow> pubsys \<Rightarrow> bool" where
  subscribe: "\<not> panicked s \<Longrightarrow> pub_step s (s\<lparr>brk := fst (Broker_Subscribe (brk s) channel)\<rparr>)"
| unsubscribe: "\<not> panicked s \<Longrightarrow> p < length (heap (brk s)) \<Longrightarrow>
     Broker_Unsubscribe (brk s) p = Some b \<Longrightarrow> pub_step s (s\<lparr>brk := b\<rparr>)"
| unsubscribe_panic: "\<not> panicked s \<Longrightarrow> p < length (heap (brk s)) \<Longrightarrow>
     Broker_Unsubscribe (brk s) p = None \<Longrightarrow> pub_step s (s\<lparr>panicked := True\<rparr>)"
| snapshot: "\<not> panicked s \<Longrightarrow> mset ps = mset (subscribers (brk s) channel) \<Longrightarrow>
     pub_step s (s\<lparr>flight := flight s @ [(\<lparr>msg_Channel = channel, msg_Payload = payload\<rparr>, ps)]\<rparr>)"
| send: "\<not> panicked s \<Longrightarrow> i < length (flight s) \<Longrightarrow> flight s ! i = (msg, p # ps) \<Longrightarrow>
     try_send (brk s) p msg = Some (b, sent) \<Longrightarrow>
     pub_step s (s\<lparr>brk := b, flight := (flight s)[i := (msg, ps)]\<rparr>)"
| send_panic: "\<not> panicked s \<Longrightarrow> i < length (flight s) \<Longrightarrow> flight s ! i = (msg, p # ps) \<Longrightarrow>
     try_send (brk s) p msg = None \<Longrightarrow> pub_step s (s\<lparr>panicked := True\<rparr>)"
| receive: "\<not> panicked s \<Longrightarrow> p < length (heap (brk s)) \<Longrightarrow> chan_recv (brk s) p = Some (b, m) \<Longrightarrow>
     pub_step s (s\<lparr>brk := b\<rparr>)"

inductive_cases pub_stepE: "pub_step s t"

text \<open>Under every interleaving, pointers in flight stay valid and the broker stays well formed.\<close>

definition pub_good :: "pubsys \<Rightarrow> bool" where
  "pub_good s \<longleftrightarrow> broker_ok (brk s) \<and>
     (\<forall>(msg, ps)\<in>set (flight s). \<forall>p\<in>set ps.
        p < length (heap (brk s)) \<and> sub_Channel (heap (brk s) ! p) = msg_Channel msg)"

lemma heap_grows:
  "length (heap (fst (Broker_Subscribe b ch))) = Suc (length (heap b))"
  "p < length (heap b) \<Longrightarrow> heap (fst (Broker_Subscribe b ch)) ! p = heap b ! p"
  "broker_ok b \<Longrightarrow> Broker_Unsubscribe b p = Some b' \<Longrightarrow> length (heap b') = length (heap b)"
  "broker_ok b \<Longrightarrow> Broker_Unsubscribe b p = Some b' \<Longrightarrow> sub_Channel (heap b' ! q) = sub_Channel (heap b ! q)"
  "chan_recv b p = Some (b', m) \<Longrightarrow> length (heap b') = length (heap b)"
  "chan_recv b p = Some (b', m) \<Longrightarrow> sub_Channel (heap b' ! q) = sub_Channel (heap b ! q)"
proof -
  show "length (heap (fst (Broker_Subscribe b ch))) = Suc (length (heap b))"
    "p < length (heap b) \<Longrightarrow> heap (fst (Broker_Subscribe b ch)) ! p = heap b ! p"
    by (simp_all add: Broker_Subscribe_def Let_def nth_append)
  show "length (heap b') = length (heap b)" if "broker_ok b" "Broker_Unsubscribe b p = Some b'"
    using that by (cases rule: Unsubscribe_cases) auto
  show "sub_Channel (heap b' ! q) = sub_Channel (heap b ! q)"
    if "broker_ok b" "Broker_Unsubscribe b p = Some b'"
    using that
  proof (cases rule: Unsubscribe_cases)
    case 2
    then show ?thesis
      by (cases "q = p"; cases "p < length (heap b)") (simp_all add: list_update_beyond)
  qed simp
  show "length (heap b') = length (heap b)"
    "sub_Channel (heap b' ! q) = sub_Channel (heap b ! q)" if "chan_recv b p = Some (b', m)"
    using that by (cases "q = p"; cases "p < length (heap b)";
      auto simp: chan_recv_def list_update_beyond split: list.splits)+
qed

interpretation pub: transition_invariant pub_init pub_step pub_good
proof
  show "pub_init s \<Longrightarrow> pub_good s" for s
    by (auto simp: pub_init_def pub_good_def broker_ok_New)
next
  fix s t assume good: "pub_good s" and "pub_step s t"
  from good have ok: "broker_ok (brk s)" by (simp add: pub_good_def)
  from \<open>pub_step s t\<close> good show "pub_good t"
  proof cases
    case (snapshot ps channel payload)
    with good subscribers_ok [OF ok, of _ channel] mset_eq_setD [OF snapshot(3)]
    show ?thesis by (auto simp: pub_good_def)
  next
    case (send i msg p ps b sent)
    then have mem: "(msg, p # ps) \<in> set (flight s)" by (metis nth_mem)
    with good have p: "p < length (heap (brk s))" by (auto simp: pub_good_def)
    have "q < length (heap b) \<and> sub_Channel (heap b ! q) = msg_Channel m"
      if "(m, qs) \<in> set ((flight s)[i := (msg, ps)])" "q \<in> set qs" for m qs q
    proof -
      have "(m, qs) = (msg, ps) \<or> (m, qs) \<in> set (flight s)"
        using that(1) set_update_subset_insert by fast
      then obtain qs' where "(m, qs') \<in> set (flight s)" "q \<in> set qs'"
        using mem \<open>q \<in> set qs\<close> by auto
      with good have "q < length (heap (brk s)) \<and> sub_Channel (heap (brk s) ! q) = msg_Channel m"
        by (auto simp: pub_good_def)
      then show ?thesis by (simp add: try_send_frame(2,3) [OF send(5)])
    qed
    with broker_ok_try_send [OF ok send(5) p] show ?thesis by (auto simp: pub_good_def send(1))
  next
    case (subscribe channel)
    with good broker_ok_Subscribe [OF ok] show ?thesis
      by (fastforce simp: pub_good_def heap_grows(1,2) less_SucI)
  next
    case (unsubscribe p b)
    with good broker_ok_Unsubscribe [OF ok unsubscribe(4)] heap_grows(3,4) [OF ok unsubscribe(4)]
    show ?thesis by (auto simp: pub_good_def)
  next
    case (receive p b m)
    with good broker_ok_recv [OF ok receive(4)] heap_grows(5,6) [OF receive(4)]
    show ?thesis by (auto simp: pub_good_def)
  qed (use good in \<open>simp_all add: pub_good_def\<close>)
qed

text \<open>An \<^verbatim>\<open>Unsubscribe\<close> itself never panics, whatever is in flight.\<close>

lemma only_sends_panic:
  assumes "pub_good s" "pub_step s t" "panicked t"
  shows "\<exists>msg p ps. (msg, p # ps) \<in> set (flight s) \<and> sub_closed (heap (brk s) ! p)"
  using assms(2)
proof cases
  case (unsubscribe_panic p)
  with Unsubscribe_Some [of "brk s" p] assms(1) show ?thesis by (simp add: pub_good_def)
next
  case (send_panic i msg p ps)
  then have "(msg, p # ps) \<in> set (flight s)" by (metis nth_mem)
  with send_panic(5) show ?thesis
    by (auto simp: try_send_def Let_def split: if_splits)
qed (use assms(3) in auto)

text \<open>A subscriber leaves between the snapshot of a publication and its send.\<close>

lemma send_race:
  "\<exists>s0 s t. pub_init s0 \<and> pub_step\<^sup>*\<^sup>* s0 s \<and> pub_step s t \<and> panicked t"
proof -
  define s0 where "s0 = \<lparr>brk = Broker_New, flight = [], panicked = False\<rparr>"
  define sub where "sub = \<lparr>sub_Channel = ''c'', sub_C = [], sub_closed = False\<rparr>"
  define msg where "msg = \<lparr>msg_Channel = ''c'', msg_Payload = ''hi''\<rparr>"
  define s1 where "s1 = s0\<lparr>brk := \<lparr>subs = [(''c'', [0])], heap = [sub]\<rparr>\<rparr>"
  define s2 where "s2 = s1\<lparr>flight := [(msg, [0])]\<rparr>"
  define s3 where "s3 = s2\<lparr>brk := \<lparr>subs = [], heap = [sub\<lparr>sub_closed := True\<rparr>]\<rparr>\<rparr>"
  have "pub_step s0 s1"
    using pub_step.subscribe [of s0 "''c''"]
    by (simp add: s0_def s1_def sub_def Broker_Subscribe_def Broker_New_def subscribers_def)
  moreover have "pub_step s1 s2"
    using pub_step.snapshot [of s1 "[0]" "''c''" "''hi''"]
    by (simp add: s1_def s2_def s0_def msg_def subscribers_def)
  moreover have "pub_step s2 s3"
    using pub_step.unsubscribe [of s2 0 "\<lparr>subs = [], heap = [sub\<lparr>sub_closed := True\<rparr>]\<rparr>"]
    by (simp add: s3_def s2_def s1_def s0_def sub_def Broker_Unsubscribe_def chan_close_def)
  moreover have "pub_step s3 (s3\<lparr>panicked := True\<rparr>)"
    using pub_step.send_panic [of s3 0 msg 0 "[]"]
    by (simp add: s3_def s2_def s1_def s0_def sub_def try_send_def)
  ultimately show ?thesis
    by (intro exI [of _ s0] exI [of _ s3] exI [of _ "s3\<lparr>panicked := True\<rparr>"])
      (auto simp: pub_init_def s0_def intro: rtranclp.intros)
qed

end
