(* ===== verification/Command.thy ===== *)
theory Command
  imports Resp Store_Types Pubsub
begin

text \<open>
  The command layer (\<^verbatim>\<open>internal/command/command.go\<close>, \<^verbatim>\<open>internal/command/helpers.go\<close>):
  one definition per handler, from the dependencies and the arguments to the dependencies and
  the bytes of the reply, and \<^verbatim>\<open>Execute\<close>, the dispatch. Nothing is proved here; see the
  theories that import this one.
\<close>

section \<open>State\<close>

text \<open>
  \<open>d_AOF\<close>: \<open>None\<close> when persistence is off, else the commands handed to \<^verbatim>\<open>Append\<close> so far.
  \<open>d_Stats\<close> and \<open>d_AOFI\<close>: what the two interfaces answer, when they are not nil.
\<close>

record deps =
  d_Store :: store
  d_AOF :: "string list list option"
  d_Broker :: broker
  d_Stats :: "(duration \<times> int \<times> int) option"
  d_AOFI :: "(bool \<times> int) option"

text \<open>\<open>c_delivering\<close>: the subscriptions for which a forwarding goroutine was started.\<close>

record conn =
  c_Subs :: "(string, sub_ptr) gomap"
  c_Deliver :: bool       \<comment> \<open>\<^verbatim>\<open>cs.Deliver != nil\<close>\<close>
  c_delivering :: "sub_ptr list"

definition InSubscribeMode :: "conn \<Rightarrow> bool" where
  "InSubscribeMode c \<longleftrightarrow> length (c_Subs c) > 0"

text \<open>
  What the run time decides during a command: the reading of the clock by its i-th store
  operation, and the order of the \<^verbatim>\<open>range\<close> loops over maps keyed by strings and by
  subscriptions.
\<close>

record env =
  clk :: "nat \<Rightarrow> time"
  ord :: "string list \<Rightarrow> string list"
  sub_ord :: "sub_ptr list \<Rightarrow> sub_ptr list"

datatype exec_error = ErrEmptyCommand

text \<open>The state after a command, its reply, and its error; \<open>None\<close> is a run-time panic.\<close>

type_synonym exec_result = "(deps \<times> conn \<times> string \<times> exec_error option) option"

section \<open>Helpers\<close>

definition parsePositiveInt :: "string \<Rightarrow> int option" where
  "parsePositiveInt s = (case Atoi s of None \<Rightarrow> None | Some n \<Rightarrow> if n < 0 then None else Some n)"

text \<open>The loop of \<^verbatim>\<open>parseSetOpts\<close> over \<^verbatim>\<open>opts[i:]\<close>; \<open>None\<close> is \<^verbatim>\<open>errSyntax\<close>.\<close>

fun set_opts_loop ::
    "string list \<Rightarrow> bool \<Rightarrow> duration \<Rightarrow> bool \<Rightarrow> bool \<Rightarrow> (duration \<times> bool \<times> bool) option" where
  "set_opts_loop [] haveTTL ttl nx xx = Some (ttl, nx, xx)"
| "set_opts_loop (opt # opts) haveTTL ttl nx xx =
     (if ToUpper opt = ''EX'' \<or> ToUpper opt = ''PX'' then
        (case opts of
           [] \<Rightarrow> None
         | arg # rest \<Rightarrow>
             if haveTTL then None
             else (case parsePositiveInt arg of
                 None \<Rightarrow> None
               | Some amount \<Rightarrow>
                   if amount \<le> 0 then None
                   else set_opts_loop rest True
                     (if ToUpper opt = ''EX'' then wrap64 (amount * Second)
                      else wrap64 (amount * Millisecond)) nx xx))
      else if ToUpper opt = ''NX'' then
        (if xx then None else set_opts_loop opts haveTTL ttl True xx)
      else if ToUpper opt = ''XX'' then
        (if nx then None else set_opts_loop opts haveTTL ttl nx True)
      else None)"

definition parseSetOpts :: "string list \<Rightarrow> (duration \<times> bool \<times> bool) option" where
  "parseSetOpts opts = set_opts_loop opts False 0 False False"

definition errSyntax :: string where "errSyntax = ''ERR syntax error''"

definition not_an_integer :: string where
  "not_an_integer = ''ERR value is not an integer or out of range''"

definition appendAOF :: "deps \<Rightarrow> string list \<Rightarrow> deps" where
  "appendAOF d args =
     (case d_AOF d of None \<Rightarrow> d | Some h \<Rightarrow> d\<lparr>d_AOF := Some (h @ [args])\<rparr>)"

definition argErr :: "string \<Rightarrow> string" where
  "argErr cmd = WriteError (''ERR wrong number of arguments for '' @ [CHR 0x27] @ cmd @ [CHR 0x27])"

section \<open>String command handlers\<close>

definition cmdSet :: "env \<Rightarrow> deps \<Rightarrow> string list \<Rightarrow> deps \<times> string" where
  "cmdSet e d args =
     (if length args < 3 then (d, argErr ''set'')
      else case parseSetOpts (drop 3 args) of
        None \<Rightarrow> (d, WriteError errSyntax)
      | Some (ttl, nx, xx) \<Rightarrow>
          if nx then
            (let (s, done) = Store_SetNX (d_Store d) (clk e 0) (args ! 1) (args ! 2) ttl
             in if done then (appendAOF (d\<lparr>d_Store := s\<rparr>) args, WriteSimpleString ''OK'')
                else (d\<lparr>d_Store := s\<rparr>, WriteNull))
          else if xx then
            (let (s, done) = Store_SetXX (d_Store d) (clk e 0) (args ! 1) (args ! 2) ttl
             in if done then (appendAOF (d\<lparr>d_Store := s\<rparr>) args, WriteSimpleString ''OK'')
                else (d\<lparr>d_Store := s\<rparr>, WriteNull))
          else
            (appendAOF (d\<lparr>d_Store := Store_Set (d_Store d) (clk e 0) (args ! 1) (args ! 2) ttl\<rparr>) args,
             WriteSimpleString ''OK''))"

definition cmdGet :: "env \<Rightarrow> deps \<Rightarrow> string list \<Rightarrow> deps \<times> string" where
  "cmdGet e d args =
     (if length args \<noteq> 2 then (d, argErr ''get'')
      else
        let (s, r) = Store_Get (d_Store d) (clk e 0) (args ! 1); d = d\<lparr>d_Store := s\<rparr> in
        case r of
          Inl err \<Rightarrow> (d, WriteError (error_msg err))
        | Inr None \<Rightarrow> (d, WriteNull)
        | Inr (Some v) \<Rightarrow> (d, WriteBulkString v))"

definition cmdGetSet :: "env \<Rightarrow> deps \<Rightarrow> string list \<Rightarrow> deps \<times> string" where
  "cmdGetSet e d args =
     (if length args \<noteq> 3 then (d, argErr ''getset'')
      else
        let (s, r) = Store_GetSet (d_Store d) (clk e 0) (args ! 1) (args ! 2); d = d\<lparr>d_Store := s\<rparr> in
        case r of
          Inl err \<Rightarrow> (d, WriteError (error_msg err))
        | Inr old \<Rightarrow>
            (appendAOF d [''SET'', args ! 1, args ! 2],
             case old of None \<Rightarrow> WriteNull | Some v \<Rightarrow> WriteBulkString v))"

definition cmdAppend :: "env \<Rightarrow> deps \<Rightarrow> string list \<Rightarrow> deps \<times> string" where
  "cmdAppend e d args =
     (if length args \<noteq> 3 then (d, argErr ''append'')
      else
        let (s, r) = Store_Append (d_Store d) (clk e 0) (args ! 1) (args ! 2); d = d\<lparr>d_Store := s\<rparr> in
        case r of
          Inl err \<Rightarrow> (d, WriteError (error_msg err))
        | Inr n \<Rightarrow> (appendAOF d args, WriteInteger n))"

definition cmdStrLen :: "env \<Rightarrow> deps \<Rightarrow> string list \<Rightarrow> deps \<times> string" where
  "cmdStrLen e d args =
     (if length args \<noteq> 2 then (d, argErr ''strlen'')
      else
        let (s, r) = Store_StrLen (d_Store d) (clk e 0) (args ! 1); d = d\<lparr>d_Store := s\<rparr> in
        case r of
          Inl err \<Rightarrow> (d, WriteError (error_msg err))
        | Inr n \<Rightarrow> (d, WriteInteger n))"

text \<open>The first half of \<^verbatim>\<open>cmdIncrBy\<close>: the delta, or the error reply.\<close>

definition incr_delta :: "string list \<Rightarrow> int \<Rightarrow> bool \<Rightarrow> string + int" where
  "incr_delta args fixed byArg =
     (let name = ToUpper (args ! 0) in
      if byArg then
        (if length args \<noteq> 3 then Inl (argErr (ToLower name))
         else case ParseInt (args ! 2) of
           None \<Rightarrow> Inl (WriteError not_an_integer)
         | Some n \<Rightarrow> Inr (if name = ''DECRBY'' then wrap64 (- n) else n))
      else if length args \<noteq> 2 then Inl (argErr (ToLower name))
      else Inr fixed)"

definition cmdIncrBy :: "env \<Rightarrow> deps \<Rightarrow> string list \<Rightarrow> int \<Rightarrow> bool \<Rightarrow> deps \<times> string" where
  "cmdIncrBy e d args fixed byArg =
     (case incr_delta args fixed byArg of
        Inl reply \<Rightarrow> (d, reply)
      | Inr delta \<Rightarrow>
          let (s, r) = Store_IncrBy (d_Store d) (clk e 0) (args ! 1) delta; d = d\<lparr>d_Store := s\<rparr> in
          case r of
            Inl err \<Rightarrow> (d, WriteError (error_msg err))
          | Inr v \<Rightarrow> (appendAOF d [''SET'', args ! 1, FormatInt v], WriteInteger64 v))"

text \<open>The loops run from the i-th store operation of the command on.\<close>

fun mget_loop :: "env \<Rightarrow> nat \<Rightarrow> string list \<Rightarrow> store \<Rightarrow> store \<times> string list \<times> bool list" where
  "mget_loop e i [] s = (s, [], [])"
| "mget_loop e i (k # ks) s =
     (let (s, r) = Store_Get s (clk e i) k;
          (v, found) = (case r of Inl err \<Rightarrow> ([], False) | Inr None \<Rightarrow> ([], False)
            | Inr (Some v) \<Rightarrow> (v, True));
          (s, vals, oks) = mget_loop e (Suc i) ks s
      in (s, v # vals, found # oks))"

definition cmdMGet :: "env \<Rightarrow> deps \<Rightarrow> string list \<Rightarrow> deps \<times> string" where
  "cmdMGet e d args =
     (if length args < 2 then (d, argErr ''mget'')
      else
        let (s, vals, oks) = mget_loop e 0 (drop 1 args) (d_Store d)
        in (d\<lparr>d_Store := s\<rparr>, WriteNullableStringArray vals oks))"

fun mset_loop :: "env \<Rightarrow> nat \<Rightarrow> string list \<Rightarrow> deps \<Rightarrow> deps" where
  "mset_loop e i (k # v # rest) d =
     mset_loop e (Suc i) rest
       (appendAOF (d\<lparr>d_Store := Store_Set (d_Store d) (clk e i) k v 0\<rparr>) [''SET'', k, v])"
| "mset_loop e i _ d = d"

definition cmdMSet :: "env \<Rightarrow> deps \<Rightarrow> string list \<Rightarrow> deps \<times> string" where
  "cmdMSet e d args =
     (if length args < 3 \<or> length args mod 2 \<noteq> 1 then (d, argErr ''mset'')
      else (mset_loop e 0 (drop 1 args) d, WriteSimpleString ''OK''))"

section \<open>Generic key handlers\<close>

fun del_loop :: "env \<Rightarrow> nat \<Rightarrow> string list \<Rightarrow> store \<Rightarrow> int \<Rightarrow> store \<times> int" where
  "del_loop e i [] s removed = (s, removed)"
| "del_loop e i (k # ks) s removed =
     (let (s, was) = Store_Del s (clk e i) k
      in del_loop e (Suc i) ks s (if was then removed + 1 else removed))"

definition cmdDel :: "env \<Rightarrow> deps \<Rightarrow> string list \<Rightarrow> deps \<times> string" where
  "cmdDel e d args =
     (if length args < 2 then (d, argErr ''del'')
      else
        let (s, removed) = del_loop e 0 (drop 1 args) (d_Store d) 0; d = d\<lparr>d_Store := s\<rparr>
        in (if removed > 0 then appendAOF d args else d, WriteInteger removed))"

fun exists_loop :: "env \<Rightarrow> nat \<Rightarrow> string list \<Rightarrow> store \<Rightarrow> int \<Rightarrow> int" where
  "exists_loop e i [] s cnt = cnt"
| "exists_loop e i (k # ks) s cnt =
     exists_loop e (Suc i) ks s (if Store_Exists s (clk e i) k then cnt + 1 else cnt)"

definition cmdExists :: "env \<Rightarrow> deps \<Rightarrow> string list \<Rightarrow> deps \<times> string" where
  "cmdExists e d args =
     (if length args < 2 then (d, argErr ''exists'')
      else (d, WriteInteger (exists_loop e 0 (drop 1 args) (d_Store d) 0)))"

definition cmdType :: "env \<Rightarrow> deps \<Rightarrow> string list \<Rightarrow> deps \<times> string" where
  "cmdType e d args =
     (if length args \<noteq> 2 then (d, argErr ''type'')
      else (d, WriteSimpleString (Kind_String (Store_Type (d_Store d) (clk e 0) (args ! 1)))))"

text \<open>The product of the amount and the unit is a \<^verbatim>\<open>Duration\<close>: it wraps.\<close>

definition cmdExpire :: "env \<Rightarrow> deps \<Rightarrow> string list \<Rightarrow> duration \<Rightarrow> deps \<times> string" where
  "cmdExpire e d args unit =
     (if length args \<noteq> 3 then (d, argErr (ToLower (args ! 0)))
      else case ParseInt (args ! 2) of
        None \<Rightarrow> (d, WriteError not_an_integer)
      | Some amount \<Rightarrow>
          let (s, found) = Store_Expire (d_Store d) (clk e 0) (args ! 1) (wrap64 (amount * unit));
              d = d\<lparr>d_Store := s\<rparr>
          in if found then (appendAOF d args, WriteInteger 1) else (d, WriteInteger 0))"

definition cmdTTL :: "env \<Rightarrow> deps \<Rightarrow> string list \<Rightarrow> bool \<Rightarrow> deps \<times> string" where
  "cmdTTL e d args milli =
     (if length args \<noteq> 2 then (d, argErr (ToLower (args ! 0)))
      else
        let (remaining, found, hasTTL) = Store_TTL (d_Store d) (clk e 0) (clk e 1) (args ! 1)
        in (d, if \<not> found then WriteInteger (-2)
               else if \<not> hasTTL then WriteInteger (-1)
               else if milli then WriteInteger (go_quot remaining Millisecond)
               else WriteInteger (go_quot remaining Second)))"

definition cmdPersist :: "env \<Rightarrow> deps \<Rightarrow> string list \<Rightarrow> deps \<times> string" where
  "cmdPersist e d args =
     (if length args \<noteq> 2 then (d, argErr ''persist'')
      else
        let (s, done) = Store_Persist (d_Store d) (clk e 0) (args ! 1); d = d\<lparr>d_Store := s\<rparr>
        in if done then (appendAOF d args, WriteInteger 1) else (d, WriteInteger 0))"

definition cmdKeys :: "env \<Rightarrow> deps \<Rightarrow> string list \<Rightarrow> deps \<times> string" where
  "cmdKeys e d args =
     (if length args \<noteq> 2 then (d, argErr ''keys'')
      else (d, WriteStringArray (Store_Keys (ord e) (d_Store d) (clk e 0) (args ! 1))))"

section \<open>Hash handlers\<close>

fun pair_up :: "string list \<Rightarrow> (string \<times> string) list" where
  "pair_up (f # v # rest) = (f, v) # pair_up rest"
| "pair_up _ = []"

definition cmdHSet :: "env \<Rightarrow> deps \<Rightarrow> string list \<Rightarrow> deps \<times> string" where
  "cmdHSet e d args =
     (if length args < 4 \<or> length args mod 2 \<noteq> 0 then (d, argErr ''hset'')
      else
        let (s, r) = Store_HSet (d_Store d) (clk e 0) (args ! 1) (pair_up (drop 2 args));
            d = d\<lparr>d_Store := s\<rparr>
        in case r of
             Inl err \<Rightarrow> (d, WriteError (error_msg err))
           | Inr added \<Rightarrow> (appendAOF d args, WriteInteger added))"

definition cmdHGet :: "env \<Rightarrow> deps \<Rightarrow> string list \<Rightarrow> deps \<times> string" where
  "cmdHGet e d args =
     (if length args \<noteq> 3 then (d, argErr ''hget'')
      else
        (d, case Store_HGet (d_Store d) (clk e 0) (args ! 1) (args ! 2) of
              Inl err \<Rightarrow> WriteError (error_msg err)
            | Inr None \<Rightarrow> WriteNull
            | Inr (Some v) \<Rightarrow> WriteBulkString v))"

definition cmdHDel :: "env \<Rightarrow> deps \<Rightarrow> string list \<Rightarrow> deps \<times> string" where
  "cmdHDel e d args =
     (if length args < 3 then (d, argErr ''hdel'')
      else
        let (s, r) = Store_HDel (d_Store d) (clk e 0) (args ! 1) (drop 2 args); d = d\<lparr>d_Store := s\<rparr> in
        case r of
          Inl err \<Rightarrow> (d, WriteError (error_msg err))
        | Inr n \<Rightarrow> (if n > 0 then appendAOF d args else d, WriteInteger n))"

text \<open>\<^verbatim>\<open>cmdHGetAll\<close> and \<^verbatim>\<open>cmdHCollection\<close>: \<open>fn\<close> is the store operation.\<close>

definition cmdHGetAll :: "env \<Rightarrow> deps \<Rightarrow> string list \<Rightarrow> deps \<times> string" where
  "cmdHGetAll e d args =
     (if length args \<noteq> 2 then (d, argErr ''hgetall'')
      else
        (d, case Store_HGetAll (ord e) (d_Store d) (clk e 0) (args ! 1) of
              Inl err \<Rightarrow> WriteError (error_msg err)
            | Inr pairs \<Rightarrow> WriteStringArray pairs))"

definition cmdHCollection ::
    "env \<Rightarrow> deps \<Rightarrow> string list \<Rightarrow> (store \<Rightarrow> time \<Rightarrow> string \<Rightarrow> store_error + string list) \<Rightarrow> string
      \<Rightarrow> deps \<times> string" where
  "cmdHCollection e d args fn name =
     (if length args \<noteq> 2 then (d, argErr name)
      else
        (d, case fn (d_Store d) (clk e 0) (args ! 1) of
              Inl err \<Rightarrow> WriteError (error_msg err)
            | Inr items \<Rightarrow> WriteStringArray items))"

definition cmdHLen :: "env \<Rightarrow> deps \<Rightarrow> string list \<Rightarrow> deps \<times> string" where
  "cmdHLen e d args =
     (if length args \<noteq> 2 then (d, argErr ''hlen'')
      else
        (d, case Store_HLen (d_Store d) (clk e 0) (args ! 1) of
              Inl err \<Rightarrow> WriteError (error_msg err)
            | Inr n \<Rightarrow> WriteInteger n))"

definition cmdHExists :: "env \<Rightarrow> deps \<Rightarrow> string list \<Rightarrow> deps \<times> string" where
  "cmdHExists e d args =
     (if length args \<noteq> 3 then (d, argErr ''hexists'')
      else
        (d, case Store_HExists (d_Store d) (clk e 0) (args ! 1) (args ! 2) of
              Inl err \<Rightarrow> WriteError (error_msg err)
            | Inr ex \<Rightarrow> if ex then WriteInteger 1 else WriteInteger 0))"

section \<open>List handlers\<close>

definition cmdPush :: "env \<Rightarrow> deps \<Rightarrow> string list \<Rightarrow> bool \<Rightarrow> deps \<times> string" where
  "cmdPush e d args left =
     (if length args < 3 then (d, argErr (ToLower (args ! 0)))
      else
        let (s, r) = (if left then Store_LPush (d_Store d) (clk e 0) (args ! 1) (drop 2 args)
                      else Store_RPush (d_Store d) (clk e 0) (args ! 1) (drop 2 args));
            d = d\<lparr>d_Store := s\<rparr>
        in case r of
             Inl err \<Rightarrow> (d, WriteError (error_msg err))
           | Inr n \<Rightarrow> (appendAOF d args, WriteInteger n))"

definition cmdPop :: "env \<Rightarrow> deps \<Rightarrow> string list \<Rightarrow> bool \<Rightarrow> deps \<times> string" where
  "cmdPop e d args left =
     (if length args \<noteq> 2 then (d, argErr (ToLower (args ! 0)))
      else
        let (s, r) = (if left then Store_LPop (d_Store d) (clk e 0) (args ! 1)
                      else Store_RPop (d_Store d) (clk e 0) (args ! 1));
            d = d\<lparr>d_Store := s\<rparr>
        in case r of
             Inl err \<Rightarrow> (d, WriteError (error_msg err))
           | Inr None \<Rightarrow> (d, WriteNull)
           | Inr (Some v) \<Rightarrow> (appendAOF d args, WriteBulkString v))"

definition cmdLLen :: "env \<Rightarrow> deps \<Rightarrow> string list \<Rightarrow> deps \<times> string" where
  "cmdLLen e d args =
     (if length args \<noteq> 2 then (d, argErr ''llen'')
      else
        (d, case Store_LLen (d_Store d) (clk e 0) (args ! 1) of
              Inl err \<Rightarrow> WriteError (error_msg err)
            | Inr n \<Rightarrow> WriteInteger n))"

definition cmdLIndex :: "env \<Rightarrow> deps \<Rightarrow> string list \<Rightarrow> deps \<times> string" where
  "cmdLIndex e d args =
     (if length args \<noteq> 3 then (d, argErr ''lindex'')
      else
        (d, case Atoi (args ! 2) of
              None \<Rightarrow> WriteError not_an_integer
            | Some idx \<Rightarrow>
                (case Store_LIndex (d_Store d) (clk e 0) (args ! 1) idx of
                   Inl err \<Rightarrow> WriteError (error_msg err)
                 | Inr None \<Rightarrow> WriteNull
                 | Inr (Some v) \<Rightarrow> WriteBulkString v)))"

definition cmdLRange :: "env \<Rightarrow> deps \<Rightarrow> string list \<Rightarrow> deps \<times> string" where
  "cmdLRange e d args =
     (if length args \<noteq> 4 then (d, argErr ''lrange'')
      else
        (d, case (Atoi (args ! 2), Atoi (args ! 3)) of
              (Some start, Some stop) \<Rightarrow>
                (case Store_LRange (d_Store d) (clk e 0) (args ! 1) start stop of
                   Inl err \<Rightarrow> WriteError (error_msg err)
                 | Inr items \<Rightarrow> WriteStringArray items)
            | _ \<Rightarrow> WriteError not_an_integer))"

section \<open>Publish/subscribe handlers\<close>

definition writeSubscribeReply :: "string \<Rightarrow> string \<Rightarrow> int \<Rightarrow> string" where
  "writeSubscribeReply kind channel cnt =
     WriteArrayHeader 3 @ WriteBulkString kind @ WriteBulkString channel @ WriteInteger cnt"

definition writeSubscribeReplyNull :: "string \<Rightarrow> int \<Rightarrow> string" where
  "writeSubscribeReplyNull kind cnt =
     WriteArrayHeader 3 @ WriteBulkString kind @ WriteNull @ WriteInteger cnt"

fun subscribe_loop :: "string list \<Rightarrow> deps \<Rightarrow> conn \<Rightarrow> deps \<times> conn \<times> string" where
  "subscribe_loop [] d cs = (d, cs, [])"
| "subscribe_loop (ch # chs) d cs =
     (if map_of (c_Subs cs) ch \<noteq> None then subscribe_loop chs d cs
      else
        let (b, sub) = Broker_Subscribe (d_Broker d) ch;
            cs = cs\<lparr>c_Subs := gm_put ch sub (c_Subs cs)\<rparr>;
            cs = (if c_Deliver cs then cs\<lparr>c_delivering := c_delivering cs @ [sub]\<rparr> else cs);
            reply = writeSubscribeReply ''subscribe'' ch (int (length (c_Subs cs)));
            (d, cs, w) = subscribe_loop chs (d\<lparr>d_Broker := b\<rparr>) cs
        in (d, cs, reply @ w))"

definition cmdSubscribe :: "deps \<Rightarrow> conn \<Rightarrow> string list \<Rightarrow> deps \<times> conn \<times> string" where
  "cmdSubscribe d cs args =
     (if length args < 2 then (d, cs, argErr ''subscribe'')
      else subscribe_loop (drop 1 args) d cs)"

fun unsubscribe_loop :: "string list \<Rightarrow> deps \<Rightarrow> conn \<Rightarrow> (deps \<times> conn \<times> string) option" where
  "unsubscribe_loop [] d cs = Some (d, cs, [])"
| "unsubscribe_loop (ch # chs) d cs =
     (let r = (case map_of (c_Subs cs) ch of
          None \<Rightarrow> Some (d, cs)
        | Some sub \<Rightarrow>
            (case Broker_Unsubscribe (d_Broker d) sub of
               None \<Rightarrow> None
             | Some b \<Rightarrow> Some (d\<lparr>d_Broker := b\<rparr>, cs\<lparr>c_Subs := gm_del ch (c_Subs cs)\<rparr>)))
      in case r of
           None \<Rightarrow> None
         | Some (d, cs) \<Rightarrow>
             let reply = writeSubscribeReply ''unsubscribe'' ch (int (length (c_Subs cs)))
             in case unsubscribe_loop chs d cs of
                  None \<Rightarrow> None
                | Some (d, cs, w) \<Rightarrow> Some (d, cs, reply @ w))"

definition cmdUnsubscribe :: "env \<Rightarrow> deps \<Rightarrow> conn \<Rightarrow> string list \<Rightarrow> (deps \<times> conn \<times> string) option" where
  "cmdUnsubscribe e d cs args =
     (let channels = drop 1 args in
      if length channels = 0 then
        (let channels = ord e (gm_keys (c_Subs cs)) in
         if length channels = 0 then Some (d, cs, writeSubscribeReplyNull ''unsubscribe'' 0)
         else unsubscribe_loop channels d cs)
      else unsubscribe_loop channels d cs)"

definition cmdPublish :: "env \<Rightarrow> deps \<Rightarrow> string list \<Rightarrow> (deps \<times> string) option" where
  "cmdPublish e d args =
     (if length args \<noteq> 3 then Some (d, argErr ''publish'')
      else case Broker_Publish (sub_ord e) (d_Broker d) (args ! 1) (args ! 2) of
        None \<Rightarrow> None
      | Some (b, n) \<Rightarrow> Some (d\<lparr>d_Broker := b\<rparr>, WriteInteger n))"

section \<open>Server handlers\<close>

definition cmdInfo :: "env \<Rightarrow> deps \<Rightarrow> string" where
  "cmdInfo e d = WriteBulkString
     (''# Server'' @ CRLF @
      (case d_Stats d of
         None \<Rightarrow> []
       | Some (uptime, clients, commands) \<Rightarrow>
           ''uptime_seconds:'' @ FormatInt (go_quot uptime Second) @ CRLF @
           ''connected_clients:'' @ FormatInt clients @ CRLF @
           ''total_commands_processed:'' @ FormatInt commands @ CRLF) @
      ''# Keyspace'' @ CRLF @
      ''db_keys:'' @ FormatInt (Store_DBSize (d_Store d) (clk e 0)) @ CRLF @
      ''shards:'' @ FormatInt (NumShards (d_Store d)) @ CRLF @
      ''# Persistence'' @ CRLF @
      (case d_AOFI d of
         Some (True, size') \<Rightarrow>
           ''aof_enabled:1'' @ CRLF @ ''aof_size_bytes:'' @ FormatInt size' @ CRLF
       | _ \<Rightarrow> ''aof_enabled:0'' @ CRLF))"

section \<open>Dispatch\<close>

definition subscribe_mode_allowed :: "string \<Rightarrow> bool" where
  "subscribe_mode_allowed name \<longleftrightarrow>
     name = ''SUBSCRIBE'' \<or> name = ''UNSUBSCRIBE'' \<or> name = ''PING'' \<or> name = ''QUIT''"

text \<open>The cases of the switch whose handler gets the dependencies and the arguments only.\<close>

definition data_handler :: "env \<Rightarrow> deps \<Rightarrow> string \<Rightarrow> string list \<Rightarrow> (deps \<times> string) option" where
  "data_handler e d name args =
     (if name = ''SET'' then Some (cmdSet e d args)
      else if name = ''GET'' then Some (cmdGet e d args)
      else if name = ''GETSET'' then Some (cmdGetSet e d args)
      else if name = ''APPEND'' then Some (cmdAppend e d args)
      else if name = ''STRLEN'' then Some (cmdStrLen e d args)
      else if name = ''INCR'' then Some (cmdIncrBy e d args 1 False)
      else if name = ''DECR'' then Some (cmdIncrBy e d args (-1) False)
      else if name = ''INCRBY'' then Some (cmdIncrBy e d args 0 True)
      else if name = ''DECRBY'' then Some (cmdIncrBy e d args 0 True)
      else if name = ''MGET'' then Some (cmdMGet e d args)
      else if name = ''MSET'' then Some (cmdMSet e d args)
      else if name = ''DEL'' then Some (cmdDel e d args)
      else if name = ''EXISTS'' then Some (cmdExists e d args)
      else if name = ''TYPE'' then Some (cmdType e d args)
      else if name = ''EXPIRE'' then Some (cmdExpire e d args Second)
      else if name = ''PEXPIRE'' then Some (cmdExpire e d args Millisecond)
      else if name = ''TTL'' then Some (cmdTTL e d args False)
      else if name = ''PTTL'' then Some (cmdTTL e d args True)
      else if name = ''PERSIST'' then Some (cmdPersist e d args)
      else if name = ''KEYS'' then Some (cmdKeys e d args)
      else if name = ''DBSIZE'' then
        Some (d, WriteInteger (Store_DBSize (d_Store d) (clk e 0)))
      else if name = ''FLUSHDB'' then
        Some (appendAOF (d\<lparr>d_Store := Store_FlushDB (d_Store d)\<rparr>) args, WriteSimpleString ''OK'')
      else if name = ''HSET'' then Some (cmdHSet e d args)
      else if name = ''HGET'' then Some (cmdHGet e d args)
      else if name = ''HDEL'' then Some (cmdHDel e d args)
      else if name = ''HGETALL'' then Some (cmdHGetAll e d args)
      else if name = ''HKEYS'' then Some (cmdHCollection e d args (Store_HKeys (ord e)) ''hkeys'')
      else if name = ''HVALS'' then Some (cmdHCollection e d args (Store_HVals (ord e)) ''hvals'')
      else if name = ''HLEN'' then Some (cmdHLen e d args)
      else if name = ''HEXISTS'' then Some (cmdHExists e d args)
      else if name = ''LPUSH'' then Some (cmdPush e d args True)
      else if name = ''RPUSH'' then Some (cmdPush e d args False)
      else if name = ''LPOP'' then Some (cmdPop e d args True)
      else if name = ''RPOP'' then Some (cmdPop e d args False)
      else if name = ''LLEN'' then Some (cmdLLen e d args)
      else if name = ''LINDEX'' then Some (cmdLIndex e d args)
      else if name = ''LRANGE'' then Some (cmdLRange e d args)
      else None)"

definition Execute :: "env \<Rightarrow> deps \<Rightarrow> conn \<Rightarrow> string list \<Rightarrow> exec_result" where
  "Execute e d cs args =
     (if length args = 0 then Some (d, cs, [], Some ErrEmptyCommand)
      else
        let name = ToUpper (args ! 0) in
        if InSubscribeMode cs \<and> \<not> subscribe_mode_allowed name then
          Some (d, cs, WriteError
            ''ERR only (UN)SUBSCRIBE / PING / QUIT allowed in subscribe mode'', None)
        else if name = ''PING'' then
          Some (d, cs, if length args > 1 then WriteBulkString (args ! 1)
                       else WriteSimpleString ''PONG'', None)
        else if name = ''ECHO'' then
          Some (d, cs, if length args \<noteq> 2 then argErr ''echo'' else WriteBulkString (args ! 1), None)
        else if name = ''COMMAND'' then Some (d, cs, WriteSimpleString ''OK'', None)
        else if name = ''QUIT'' then Some (d, cs, WriteSimpleString ''OK'', Some ErrEmptyCommand)
        else (case data_handler e d name args of
            Some (d, w) \<Rightarrow> Some (d, cs, w, None)
          | None \<Rightarrow>
              if name = ''SUBSCRIBE'' then
                (case cmdSubscribe d cs args of (d, cs, w) \<Rightarrow> Some (d, cs, w, None))
              else if name = ''UNSUBSCRIBE'' then
                (case cmdUnsubscribe e d cs args of
                   None \<Rightarrow> None
                 | Some (d, cs, w) \<Rightarrow> Some (d, cs, w, None))
              else if name = ''PUBLISH'' then
                (case cmdPublish e d args of None \<Rightarrow> None | Some (d, w) \<Rightarrow> Some (d, cs, w, None))
              else if name = ''INFO'' then Some (d, cs, cmdInfo e d, None)
              else Some (d, cs, WriteError
                (''ERR unknown command '' @ [CHR 0x27] @ args ! 0 @ [CHR 0x27]), None)))"

end
