(* ===== verification/Store_Spec.thy ===== *)
theory Store_Spec
  imports Store_Types
begin

text \<open>
  What the store promises: one flat map from keys to typed values with an optional deadline, in
  which an expired key is absent. \<open>view\<close> is the abstraction of a sharded store at a point in
  time; the main result is that every operation of the store, and every history of operations
  with a clock that does not run backwards, behaves as its specification on the flat map.
\<close>

section \<open>The flat data set\<close>

datatype aval = AStr string | AHash "string \<rightharpoonup> string" | AList "string list"

type_synonym db = "string \<rightharpoonup> (aval \<times> time)"

text \<open>The deadline 0 stands for none, as the zero \<^verbatim>\<open>time.Time\<close> does.\<close>

definition age :: "time \<Rightarrow> db \<Rightarrow> db" where
  "age now db = (\<lambda>k. case db k of
     None \<Rightarrow> None
   | Some (v, t) \<Rightarrow> if t \<noteq> 0 \<and> now > t then None else Some (v, t))"

definition abs_val :: "entry \<Rightarrow> aval" where
  "abs_val e =
     (case e_kind e of
        KindHash \<Rightarrow> AHash (map_of (e_hash e))
      | KindList \<Rightarrow> AList (e_list e)
      | _ \<Rightarrow> AStr (e_str e))"

definition view :: "store \<Rightarrow> time \<Rightarrow> db" where
  "view s now k = map_option (\<lambda>e. (abs_val e, expiresAt e)) (getLive s k now)"

fun as_str :: "aval \<Rightarrow> string option" where
  "as_str (AStr x) = Some x" | "as_str _ = None"

fun as_hash :: "aval \<Rightarrow> (string \<rightharpoonup> string) option" where
  "as_hash (AHash m) = Some m" | "as_hash _ = None"

fun as_list :: "aval \<Rightarrow> string list option" where
  "as_list (AList xs) = Some xs" | "as_list _ = None"

fun kind_of :: "aval \<Rightarrow> Kind" where
  "kind_of (AStr _) = KindString" | "kind_of (AHash _) = KindHash" | "kind_of (AList _) = KindList"

section \<open>Operations and results\<close>

datatype store_op =
    OpSet string string duration
  | OpSetNX string string duration
  | OpSetXX string string duration
  | OpGet string
  | OpAppend string string
  | OpGetSet string string
  | OpStrLen string
  | OpIncrBy string int
  | OpDel string
  | OpExists string
  | OpType string
  | OpExpire string duration
  | OpPersist string
  | OpTTL string duration  \<comment> \<open>the time between its two clock readings\<close>
  | OpKeys string
  | OpFlushDB
  | OpDBSize
  | OpHSet string "(string \<times> string) list"
  | OpHGet string string
  | OpHDel string "string list"
  | OpHGetAll string
  | OpHKeys string
  | OpHVals string
  | OpHLen string
  | OpHExists string string
  | OpLPush string "string list"
  | OpRPush string "string list"
  | OpLPop string
  | OpRPop string
  | OpLLen string
  | OpLIndex string int
  | OpLRange string int int
  | OpSweepExpired

datatype result =
    RNone
  | RErr store_error
  | RBool bool
  | RInt int
  | RStr "string option"
  | RKind Kind
  | RTTL "duration \<times> bool \<times> bool"
  | RList "string list"
  | RSet "string set"
  | RPairs "(string \<times> string) set"
  | RBag "string multiset"

text \<open>The order of the keys, fields and values an iteration over a map yields is not promised.\<close>

fun unflatten :: "'a list \<Rightarrow> ('a \<times> 'a) list" where
  "unflatten (f # v # xs) = (f, v) # unflatten xs"
| "unflatten _ = []"

fun result_of :: "('a \<Rightarrow> result) \<Rightarrow> store_error + 'a \<Rightarrow> result" where
  "result_of f (Inl err) = RErr err"
| "result_of f (Inr x) = f x"

abbreviation with_result :: "('a \<Rightarrow> result) \<Rightarrow> 's \<times> (store_error + 'a) \<Rightarrow> 's \<times> result" where
  "with_result f \<equiv> apsnd (result_of f)"

primrec run_op :: "(string list \<Rightarrow> string list) \<Rightarrow> time \<Rightarrow> store_op \<Rightarrow> store \<Rightarrow> store \<times> result" where
  "run_op ord now (OpSet k v ttl) s = (Store_Set s now k v ttl, RNone)"
| "run_op ord now (OpSetNX k v ttl) s = apsnd RBool (Store_SetNX s now k v ttl)"
| "run_op ord now (OpSetXX k v ttl) s = apsnd RBool (Store_SetXX s now k v ttl)"
| "run_op ord now (OpGet k) s = with_result RStr (Store_Get s now k)"
| "run_op ord now (OpAppend k v) s = with_result RInt (Store_Append s now k v)"
| "run_op ord now (OpGetSet k v) s = with_result RStr (Store_GetSet s now k v)"
| "run_op ord now (OpStrLen k) s = with_result RInt (Store_StrLen s now k)"
| "run_op ord now (OpIncrBy k d) s = with_result RInt (Store_IncrBy s now k d)"
| "run_op ord now (OpDel k) s = apsnd RBool (Store_Del s now k)"
| "run_op ord now (OpExists k) s = (s, RBool (Store_Exists s now k))"
| "run_op ord now (OpType k) s = (s, RKind (Store_Type s now k))"
| "run_op ord now (OpExpire k ttl) s = apsnd RBool (Store_Expire s now k ttl)"
| "run_op ord now (OpPersist k) s = apsnd RBool (Store_Persist s now k)"
| "run_op ord now (OpTTL k d) s = (s, RTTL (Store_TTL s now (now + d) k))"
| "run_op ord now (OpKeys pat) s = (s, RSet (set (Store_Keys ord s now pat)))"
| "run_op ord now OpFlushDB s = (Store_FlushDB s, RNone)"
| "run_op ord now OpDBSize s = (s, RInt (Store_DBSize s now))"
| "run_op ord now (OpHSet k ps) s = with_result RInt (Store_HSet s now k ps)"
| "run_op ord now (OpHGet k f) s = (s, result_of RStr (Store_HGet s now k f))"
| "run_op ord now (OpHDel k fs) s = with_result RInt (Store_HDel s now k fs)"
| "run_op ord now (OpHGetAll k) s =
     (s, result_of (\<lambda>xs. RPairs (set (unflatten xs))) (Store_HGetAll ord s now k))"
| "run_op ord now (OpHKeys k) s = (s, result_of (\<lambda>xs. RSet (set xs)) (Store_HKeys ord s now k))"
| "run_op ord now (OpHVals k) s = (s, result_of (\<lambda>xs. RBag (mset xs)) (Store_HVals ord s now k))"
| "run_op ord now (OpHLen k) s = (s, result_of RInt (Store_HLen s now k))"
| "run_op ord now (OpHExists k f) s = (s, result_of RBool (Store_HExists s now k f))"
| "run_op ord now (OpLPush k vs) s = with_result RInt (Store_LPush s now k vs)"
| "run_op ord now (OpRPush k vs) s = with_result RInt (Store_RPush s now k vs)"
| "run_op ord now (OpLPop k) s = with_result RStr (Store_LPop s now k)"
| "run_op ord now (OpRPop k) s = with_result RStr (Store_RPop s now k)"
| "run_op ord now (OpLLen k) s = (s, result_of RInt (Store_LLen s now k))"
| "run_op ord now (OpLIndex k i) s = (s, result_of RStr (Store_LIndex s now k i))"
| "run_op ord now (OpLRange k a b) s = (s, result_of RList (Store_LRange s now k a b))"
| "run_op ord now OpSweepExpired s = (fst (Store_SweepExpired ord s now), RNone)"

section \<open>Specification\<close>

text \<open>A query of a value of one type, and an update that creates the value if it is missing.\<close>

definition ask :: "(aval \<Rightarrow> 'x option) \<Rightarrow> db \<Rightarrow> string \<Rightarrow> result \<Rightarrow> ('x \<Rightarrow> result) \<Rightarrow> result" where
  "ask proj db k missing get =
     (case db k of
        None \<Rightarrow> missing
      | Some (v, _) \<Rightarrow> (case proj v of None \<Rightarrow> RErr ErrWrongType | Some x \<Rightarrow> get x))"

definition change ::
    "(aval \<Rightarrow> 'x option) \<Rightarrow> 'x \<Rightarrow> db \<Rightarrow> string \<Rightarrow> ('x \<Rightarrow> (aval \<times> result)) \<Rightarrow> db \<times> result" where
  "change proj fresh db k f =
     (case db k of
        None \<Rightarrow> (db(k \<mapsto> (fst (f fresh), 0)), snd (f fresh))
      | Some (v, t) \<Rightarrow>
          (case proj v of
             None \<Rightarrow> (db, RErr ErrWrongType)
           | Some x \<Rightarrow> (db(k \<mapsto> (fst (f x), t)), snd (f x))))"

definition deadline :: "time \<Rightarrow> duration \<Rightarrow> time" where
  "deadline now ttl = (if ttl > 0 then now + ttl else 0)"

definition spec_incr :: "db \<Rightarrow> string \<Rightarrow> int \<Rightarrow> db \<times> result" where
  "spec_incr db k delta =
     (let store = \<lambda>n t. if in_int64 (n + delta)
          then (db(k \<mapsto> (AStr (FormatInt (n + delta)), t)), RInt (n + delta))
          else (db, RErr ErrOverflow)
      in case db k of
           None \<Rightarrow> store 0 0
         | Some (v, t) \<Rightarrow>
             (case as_str v of
                None \<Rightarrow> (db, RErr ErrWrongType)
              | Some x \<Rightarrow> (case ParseInt x of None \<Rightarrow> (db, RErr ErrNotInteger) | Some n \<Rightarrow> store n t)))"

definition spec_hset :: "(string \<times> string) list \<Rightarrow> (string \<rightharpoonup> string) \<Rightarrow> aval \<times> result" where
  "spec_hset ps m =
     (AHash (m ++ map_of (rev ps)), RInt (int (card (fst ` set ps - dom m))))"

definition spec_hdel :: "db \<Rightarrow> string \<Rightarrow> string list \<Rightarrow> db \<times> result" where
  "spec_hdel db k fs =
     (case db k of
        None \<Rightarrow> (db, RInt 0)
      | Some (v, t) \<Rightarrow>
          (case as_hash v of
             None \<Rightarrow> (db, RErr ErrWrongType)
           | Some m \<Rightarrow>
               (if dom m \<subseteq> set fs then db(k := None) else db(k \<mapsto> (AHash (m |` (- set fs)), t)),
                RInt (int (card (dom m \<inter> set fs))))))"

definition spec_pop :: "db \<Rightarrow> string \<Rightarrow> bool \<Rightarrow> db \<times> result" where
  "spec_pop db k left =
     (case db k of
        None \<Rightarrow> (db, RStr None)
      | Some (v, t) \<Rightarrow>
          (case as_list v of
             None \<Rightarrow> (db, RErr ErrWrongType)
           | Some xs \<Rightarrow>
               (if length xs = 1 then db(k := None)
                else db(k \<mapsto> (AList (if left then tl xs else butlast xs), t)),
                RStr (Some (if left then hd xs else last xs)))))"

primrec spec_op :: "time \<Rightarrow> store_op \<Rightarrow> db \<Rightarrow> db \<times> result" where
  "spec_op now (OpSet k v ttl) db = (db(k \<mapsto> (AStr v, deadline now ttl)), RNone)"
| "spec_op now (OpSetNX k v ttl) db =
     (if db k = None then (db(k \<mapsto> (AStr v, deadline now ttl)), RBool True) else (db, RBool False))"
| "spec_op now (OpSetXX k v ttl) db =
     (if db k = None then (db, RBool False) else (db(k \<mapsto> (AStr v, deadline now ttl)), RBool True))"
| "spec_op now (OpGet k) db = (db, ask as_str db k (RStr None) (\<lambda>x. RStr (Some x)))"
| "spec_op now (OpAppend k v) db =
     change as_str [] db k (\<lambda>x. (AStr (x @ v), RInt (int (length (x @ v)))))"
| "spec_op now (OpGetSet k v) db =
     (case ask as_str db k (RStr None) (\<lambda>x. RStr (Some x)) of
        RErr err \<Rightarrow> (db, RErr err)
      | r \<Rightarrow> (db(k \<mapsto> (AStr v, 0)), r))"
| "spec_op now (OpStrLen k) db = (db, ask as_str db k (RInt 0) (\<lambda>x. RInt (int (length x))))"
| "spec_op now (OpIncrBy k d) db = spec_incr db k d"
| "spec_op now (OpDel k) db = (db(k := None), RBool (k \<in> dom db))"
| "spec_op now (OpExists k) db = (db, RBool (k \<in> dom db))"
| "spec_op now (OpType k) db =
     (db, RKind (case db k of None \<Rightarrow> KindNone | Some (v, _) \<Rightarrow> kind_of v))"
| "spec_op now (OpExpire k ttl) db =
     (case db k of
        None \<Rightarrow> (db, RBool False)
      | Some (v, _) \<Rightarrow> (db(k := if ttl < 0 then None else Some (v, now + ttl)), RBool True))"
| "spec_op now (OpPersist k) db =
     (case db k of
        None \<Rightarrow> (db, RBool False)
      | Some (v, t) \<Rightarrow> (db(k \<mapsto> (v, 0)), RBool (t \<noteq> 0)))"
| "spec_op now (OpTTL k d) db =
     (db, RTTL (case db k of
        None \<Rightarrow> (0, False, False)
      | Some (_, t) \<Rightarrow> if t = 0 then (0, True, False) else (time_Sub t (now + d), True, True)))"
| "spec_op now (OpKeys pat) db = (db, RSet {k \<in> dom db. denotes (parse_glob pat) k})"
| "spec_op now OpFlushDB db = (Map.empty, RNone)"
| "spec_op now OpDBSize db = (db, RInt (int (card (dom db))))"
| "spec_op now (OpHSet k ps) db = change as_hash Map.empty db k (spec_hset ps)"
| "spec_op now (OpHGet k f) db = (db, ask as_hash db k (RStr None) (\<lambda>m. RStr (m f)))"
| "spec_op now (OpHDel k fs) db = spec_hdel db k fs"
| "spec_op now (OpHGetAll k) db = (db, ask as_hash db k (RPairs {}) (\<lambda>m. RPairs (Map.graph m)))"
| "spec_op now (OpHKeys k) db = (db, ask as_hash db k (RSet {}) (\<lambda>m. RSet (dom m)))"
| "spec_op now (OpHVals k) db =
     (db, ask as_hash db k (RBag {#}) (\<lambda>m. RBag (image_mset (the \<circ> m) (mset_set (dom m)))))"
| "spec_op now (OpHLen k) db = (db, ask as_hash db k (RInt 0) (\<lambda>m. RInt (int (card (dom m)))))"
| "spec_op now (OpHExists k f) db = (db, ask as_hash db k (RBool False) (\<lambda>m. RBool (f \<in> dom m)))"
| "spec_op now (OpLPush k vs) db =
     change as_list [] db k (\<lambda>xs. (AList (rev vs @ xs), RInt (int (length vs + length xs))))"
| "spec_op now (OpRPush k vs) db =
     change as_list [] db k (\<lambda>xs. (AList (xs @ vs), RInt (int (length xs + length vs))))"
| "spec_op now (OpLPop k) db = spec_pop db k True"
| "spec_op now (OpRPop k) db = spec_pop db k False"
| "spec_op now (OpLLen k) db = (db, ask as_list db k (RInt 0) (\<lambda>xs. RInt (int (length xs))))"
| "spec_op now (OpLIndex k i) db = (db, ask as_list db k (RStr None) (\<lambda>xs. RStr (list_index xs i)))"
| "spec_op now (OpLRange k a b) db = (db, ask as_list db k (RList []) (\<lambda>xs. RList (list_range xs a b)))"
| "spec_op now OpSweepExpired db = (db, RNone)"

text \<open>What the command layer passes: 64-bit numbers, and at least one pair or value.\<close>

fun op_ok :: "store_op \<Rightarrow> bool" where
  "op_ok (OpExpire k ttl) = in_int64 ttl"
| "op_ok (OpIncrBy k d) = in_int64 d"
| "op_ok (OpHSet k ps) = (ps \<noteq> [])"
| "op_ok (OpLPush k vs) = (vs \<noteq> [])"
| "op_ok (OpRPush k vs) = (vs \<noteq> [])"
| "op_ok _ = True"

section \<open>The view\<close>

lemma view_None_iff: "view s now k = None \<longleftrightarrow> getLive s k now = None"
  by (simp add: view_def)

lemma view_None: "getLive s k now = None \<Longrightarrow> view s now k = None"
  by (simp add: view_def)

lemma view_Some: "getLive s k now = Some e \<Longrightarrow> view s now k = Some (abs_val e, expiresAt e)"
  by (simp add: view_def)

lemma getLive_not_expired: "getLive s k now = Some e \<Longrightarrow> \<not> expired e now"
  by (simp add: getLive_Some)

lemma view_put:
  "store_ok s \<Longrightarrow> view (sh_put s k e) now =
    (view s now)(k := if expired e now then None else Some (abs_val e, expiresAt e))"
  by (simp add: view_def getLive_def fun_eq_iff)

lemma view_del: "store_ok s \<Longrightarrow> view (sh_del s k) now = (view s now)(k := None)"
  by (simp add: view_def getLive_def fun_eq_iff)

lemma view_age: "now \<le> now' \<Longrightarrow> view s now' = age now' (view s now)"
  by (auto simp: fun_eq_iff view_def age_def getLive_def expired_def split: option.splits)

lemma abs_val_simps:
  "e_kind e = KindString \<Longrightarrow> abs_val e = AStr (e_str e)"
  "e_kind e = KindHash \<Longrightarrow> abs_val e = AHash (map_of (e_hash e))"
  "e_kind e = KindList \<Longrightarrow> abs_val e = AList (e_list e)"
  by (simp_all add: abs_val_def)

lemma abs_val_string_entry [simp]: "abs_val (string_entry v) = AStr v"
  by (simp add: abs_val_simps)

lemma abs_val_expiresAt [simp]: "abs_val (e\<lparr>expiresAt := t\<rparr>) = abs_val e"
  by (simp add: abs_val_def split: Kind.splits)

lemma expired_simps [simp]:
  "expired (e\<lparr>e_str := v\<rparr>) = expired e"
  "expired (e\<lparr>e_hash := h\<rparr>) = expired e"
  "expired (e\<lparr>e_list := xs\<rparr>) = expired e"
  "expired (e\<lparr>e_kind := kd\<rparr>) = expired e"
  "\<not> expired entry0 now"
  "\<not> expired (string_entry v) now"
  by (simp_all add: expired_def fun_eq_iff)

lemma expired_set: "expired (e\<lparr>expiresAt := t\<rparr>) now \<longleftrightarrow> t \<noteq> 0 \<and> now > t"
  by (simp add: expired_def)

text \<open>A live entry is a string, a hash or a list, and the projections tell which.\<close>

lemma proj_kind:
  assumes "typed s" "getLive s k now = Some e"
  shows "as_str (abs_val e) = (if e_kind e = KindString then Some (e_str e) else None)"
    and "as_hash (abs_val e) = (if e_kind e = KindHash then Some (map_of (e_hash e)) else None)"
    and "as_list (abs_val e) = (if e_kind e = KindList then Some (e_list e) else None)"
    and "kind_of (abs_val e) = e_kind e"
  using entry_okD(4) [OF getLive_entry_ok [OF assms]]
  by (cases "e_kind e"; simp add: abs_val_def)+

lemmas spec_simps = ask_def change_def view_put view_del typed_ok abs_val_simps expired_set
  deadline_def

section \<open>Each operation meets its specification\<close>

lemma spec_Set [invs]:
  "typed s \<Longrightarrow> view (Store_Set s now k v ttl) now = (view s now)(k \<mapsto> (AStr v, deadline now ttl))"
  by (simp add: Store_Set_def Let_def spec_simps)

lemma spec_SetNX:
  "typed s \<Longrightarrow> spec_op now (OpSetNX k v ttl) (view s now) =
    apfst (\<lambda>s'. view s' now) (run_op ord now (OpSetNX k v ttl) s)"
  by (auto simp: Store_SetNX_def Let_def spec_simps view_None_iff)

lemma spec_SetXX:
  "typed s \<Longrightarrow> spec_op now (OpSetXX k v ttl) (view s now) =
    apfst (\<lambda>s'. view s' now) (run_op ord now (OpSetXX k v ttl) s)"
  by (auto simp: Store_SetXX_def Let_def spec_simps view_None_iff)

lemma view_lazyDelete: "store_ok s \<Longrightarrow> view (lazyDelete s k now) now = view s now"
  by (auto simp: lazyDelete_def view_del fun_eq_iff view_def getLive_def split: option.splits)

lemma Store_Get_live:
  "Store_Get s now k =
    (lazyDelete s k now,
     case getLive s k now of
       None \<Rightarrow> Inr None
     | Some e \<Rightarrow> if e_kind e = KindString then Inr (Some (e_str e)) else Inl ErrWrongType)"
  by (auto simp: Store_Get_def getLive_def lazyDelete_def split: option.splits)

lemma spec_Get:
  "typed s \<Longrightarrow> spec_op now (OpGet k) (view s now) =
    apfst (\<lambda>s'. view s' now) (run_op ord now (OpGet k) s)"
  by (cases "getLive s k now")
    (auto simp: Store_Get_live view_lazyDelete view_None view_Some proj_kind spec_simps)

lemma spec_StrLen:
  "typed s \<Longrightarrow> spec_op now (OpStrLen k) (view s now) =
    apfst (\<lambda>s'. view s' now) (run_op ord now (OpStrLen k) s)"
  by (cases "getLive s k now")
    (auto simp: Store_StrLen_def Store_Get_live view_lazyDelete view_None view_Some proj_kind spec_simps)

lemma spec_Append:
  "typed s \<Longrightarrow> spec_op now (OpAppend k v) (view s now) =
    apfst (\<lambda>s'. view s' now) (run_op ord now (OpAppend k v) s)"
  by (cases "getLive s k now")
    (auto simp: Store_Append_def Let_def view_None view_Some proj_kind spec_simps getLive_not_expired)

lemma spec_GetSet:
  "typed s \<Longrightarrow> spec_op now (OpGetSet k v) (view s now) =
    apfst (\<lambda>s'. view s' now) (run_op ord now (OpGetSet k v) s)"
  by (cases "getLive s k now")
    (auto simp: Store_GetSet_def view_None view_Some proj_kind spec_simps)

text \<open>The overflow guard is exact: it holds just when the sum leaves \<^verbatim>\<open>int64\<close>.\<close>

lemma would_overflow_iff:
  "in_int64 cur \<Longrightarrow> in_int64 delta \<Longrightarrow> would_overflow cur delta \<longleftrightarrow> \<not> in_int64 (cur + delta)"
  unfolding would_overflow_def
  by (cases "delta > 0"; cases "delta < 0"; simp add: int64_defs wrap64_id; linarith)

lemma incr_entry_spec:
  "in_int64 n \<Longrightarrow> in_int64 d \<Longrightarrow> incr_entry e n d =
    (if in_int64 (n + d) then Inr (e\<lparr>e_str := FormatInt (n + d)\<rparr>, n + d) else Inl ErrOverflow)"
  by (simp add: incr_entry_def would_overflow_iff Let_def)

lemma spec_IncrBy:
  assumes "typed s" "in_int64 d"
  shows "spec_op now (OpIncrBy k d) (view s now) =
    apfst (\<lambda>s'. view s' now) (run_op ord now (OpIncrBy k d) s)"
proof (cases "getLive s k now")
  case None
  have "in_int64 0" by (simp add: int64_defs)
  with None assms show ?thesis
    by (simp add: Store_IncrBy_def spec_incr_def Let_def incr_entry_spec view_None spec_simps)
next
  case (Some e)
  with assms show ?thesis
    by (auto simp: Store_IncrBy_def spec_incr_def Let_def incr_entry_spec view_Some proj_kind
        spec_simps getLive_not_expired ParseInt_range split: option.splits)
qed

lemma spec_Del:
  "typed s \<Longrightarrow> spec_op now (OpDel k) (view s now) =
    apfst (\<lambda>s'. view s' now) (run_op ord now (OpDel k) s)"
  by (auto simp: Store_Del_def spec_simps view_def getLive_def domIff split: option.splits)

lemma spec_Expire:
  "typed s \<Longrightarrow> clock_ok now \<Longrightarrow> in_int64 ttl \<Longrightarrow> spec_op now (OpExpire k ttl) (view s now) =
    apfst (\<lambda>s'. view s' now) (run_op ord now (OpExpire k ttl) s)"
  using clock_ok_add [of now ttl]
  by (cases "getLive s k now")
    (auto simp: Store_Expire_def spec_simps view_None view_Some)

lemma spec_Persist:
  "typed s \<Longrightarrow> spec_op now (OpPersist k) (view s now) =
    apfst (\<lambda>s'. view s' now) (run_op ord now (OpPersist k) s)"
  by (cases "getLive s k now")
    (auto simp: Store_Persist_def spec_simps view_None view_Some fun_eq_iff)

lemma spec_reads:
  assumes "typed s"
  shows "Store_Exists s now k \<longleftrightarrow> k \<in> dom (view s now)"
    and "Store_Type s now k = (case view s now k of None \<Rightarrow> KindNone | Some (v, _) \<Rightarrow> kind_of v)"
    and "Store_TTL s now now2 k = (case view s now k of
        None \<Rightarrow> (0, False, False)
      | Some (_, t) \<Rightarrow> if t = 0 then (0, True, False) else (time_Sub t now2, True, True))"
  using assms by (cases "getLive s k now";
    simp add: Store_Exists_def Store_Type_def Store_TTL_def view_None view_Some proj_kind domIff)+

text \<open>Iterations over all shards.\<close>

lemma live_entries:
  assumes "store_ok s"
  shows "(\<exists>sh\<in>set (shards s). (k, e) \<in> set sh \<and> \<not> expired e now) \<longleftrightarrow> getLive s k now = Some e"
proof -
  have "gm_wf sh" if "sh \<in> set (shards s)" for sh
    using assms that by (auto simp: store_ok_def in_set_conv_nth)
  then have "(\<exists>sh\<in>set (shards s). (k, e) \<in> set sh \<and> \<not> expired e now)
      \<longleftrightarrow> (\<exists>sh\<in>set (shards s). map_of sh k = Some e) \<and> \<not> expired e now"
    by (auto simp: gm_in_set)
  with all_entries [OF assms, of k e] show ?thesis by (simp add: getLive_Some)
qed

lemma shards_wf: "store_ok s \<Longrightarrow> sh \<in> set (shards s) \<Longrightarrow> gm_wf sh"
  by (auto simp: store_ok_def in_set_conv_nth)

lemma spec_Keys:
  assumes "typed s" "perm_order ord"
  shows "set (Store_Keys ord s now pat) = {k \<in> dom (view s now). denotes (parse_glob pat) k}"
proof -
  have ok: "store_ok s" using assms(1) by (rule typed_ok)
  have "k \<in> set (Store_Keys ord s now pat) \<longleftrightarrow>
      (\<exists>e. (\<exists>sh\<in>set (shards s). (k, e) \<in> set sh \<and> \<not> expired e now) \<and> globMatch pat k)" for k
    using gm_range_set [OF assms(2) shards_wf [OF ok]]
    by (fastforce simp: Store_Keys_def image_iff)
  then have "k \<in> set (Store_Keys ord s now pat) \<longleftrightarrow>
      (\<exists>e. getLive s k now = Some e) \<and> denotes (parse_glob pat) k" for k
    unfolding live_entries [OF ok] globMatch_def matchHere_denotes by blast
  then show ?thesis by (auto simp: view_def)
qed

lemma distinct_concat_sub:
  assumes "\<forall>x\<in>set xs. distinct (f x) \<and> set (f x) \<subseteq> set (g x)" "distinct (concat (map g xs))"
  shows "distinct (concat (map f xs))"
  using assms
proof (induction xs)
  case (Cons x xs)
  then have "set (concat (map f xs)) \<subseteq> set (concat (map g xs))" "set (f x) \<subseteq> set (g x)" by auto
  moreover have "set (g x) \<inter> set (concat (map g xs)) = {}" using Cons.prems(2) by simp
  ultimately have "set (f x) \<inter> set (concat (map f xs)) = {}" by blast
  with Cons show ?case by simp
qed simp

lemma Keys_distinct:
  assumes "typed s" "perm_order ord" shows "distinct (Store_Keys ord s now pat)"
  unfolding Store_Keys_def
proof (rule distinct_concat_sub [where g = gm_keys])
  show "distinct (concat (map gm_keys (shards s)))"
    using store_keys_distinct [OF typed_ok [OF assms(1)]] by (simp add: store_keys_def)
  show "\<forall>sh\<in>set (shards s).
      distinct (map fst (filter (\<lambda>(k, e). \<not> expired e now \<and> globMatch pat k) (gm_range ord sh))) \<and>
      set (map fst (filter (\<lambda>(k, e). \<not> expired e now \<and> globMatch pat k) (gm_range ord sh)))
        \<subseteq> set (gm_keys sh)"
  proof
    fix sh assume "sh \<in> set (shards s)"
    then have "gm_wf sh" by (rule shards_wf [OF typed_ok [OF assms(1)]])
    from gm_range_wf [OF assms(2) this] gm_range_set [OF assms(2) this]
    show "distinct (map fst (filter (\<lambda>(k, e). \<not> expired e now \<and> globMatch pat k) (gm_range ord sh))) \<and>
      set (map fst (filter (\<lambda>(k, e). \<not> expired e now \<and> globMatch pat k) (gm_range ord sh)))
        \<subseteq> set (gm_keys sh)"
      by (auto simp: gm_wf_def distinct_map_filter gm_keys_def simp del: set_gm_keys)
  qed
qed

lemma spec_FlushDB: "typed s \<Longrightarrow> view (Store_FlushDB s) now = Map.empty"
proof
  fix k assume "typed s"
  then have "shardFor s k < length (shards s)" by (simp add: shardFor_less typed_ok)
  moreover have "shardFor (Store_FlushDB s) k = shardFor s k"
    by (simp add: Store_FlushDB_def shardFor_def)
  ultimately show "view (Store_FlushDB s) now k = None"
    by (simp add: view_def getLive_def sh_lookup_def Store_FlushDB_def)
qed

lemma typed_FlushDB [invs]: "typed s \<Longrightarrow> typed (Store_FlushDB s)"
proof -
  assume s: "typed s"
  have *: "shardFor (s\<lparr>shards := xs\<rparr>) = shardFor s" for xs
    by (simp add: shardFor_def fun_eq_iff)
  from s show ?thesis using shardFor_less [of s]
    by (auto simp: typed_def store_ok_def Store_FlushDB_def * sh_lookup_def)
qed

lemma length_filter_card:
  "gm_wf sh \<Longrightarrow> length (filter P sh) = card {k. \<exists>e. map_of sh k = Some e \<and> P (k, e)}"
proof -
  assume "gm_wf sh"
  then have wf: "gm_wf (filter P sh)" by (simp add: gm_wf_def distinct_map_filter)
  have "dom (map_of (filter P sh)) = {k. \<exists>e. map_of sh k = Some e \<and> P (k, e)}"
    using gm_in_set [OF wf] gm_in_set [OF \<open>gm_wf sh\<close>] by auto
  with gm_length_card [OF wf] show ?thesis by simp
qed

lemma spec_DBSize:
  assumes "typed s" shows "Store_DBSize s now = int (card (dom (view s now)))"
proof -
  let ?live = "\<lambda>i. {k. \<exists>e. map_of (shards s ! i) k = Some e \<and> \<not> expired e now}"
  have ok: "store_ok s" using assms by (rule typed_ok)
  have "Store_DBSize s now = (\<Sum>i<length (shards s). int (card (?live i)))"
    using length_filter_card [OF shards_wf [OF ok], of _ "\<lambda>(k, e). \<not> expired e now"]
    by (simp add: Store_DBSize_def sum_list_sum_nth atLeast0LessThan)
  also have "\<dots> = int (card (\<Union>i<length (shards s). ?live i))"
  proof (subst card_UN_disjoint)
    show "\<forall>i\<in>{..<length (shards s)}. finite (?live i)"
      by (auto intro: rev_finite_subset [OF finite_dom_map_of])
    show "\<forall>i\<in>{..<length (shards s)}. \<forall>j\<in>{..<length (shards s)}. i \<noteq> j \<longrightarrow> ?live i \<inter> ?live j = {}"
    proof (intro ballI impI)
      fix i j assume ij: "i \<in> {..<length (shards s)}" "j \<in> {..<length (shards s)}" "i \<noteq> j"
      have "shardFor s k = n" if "n < length (shards s)" "k \<in> dom (map_of (shards s ! n))" for k n
        using ok that by (auto simp: store_ok_def)
      with ij show "?live i \<inter> ?live j = {}" by blast
    qed
  qed simp_all
  also have "(\<Union>i<length (shards s). ?live i) = dom (view s now)"
  proof -
    have "k \<in> dom (view s now) \<longleftrightarrow> (\<exists>e. (\<exists>sh\<in>set (shards s). map_of sh k = Some e) \<and> \<not> expired e now)" for k
      by (auto simp: all_entries [OF ok] view_def getLive_def domIff split: option.splits)
    moreover have "k \<in> (\<Union>i<length (shards s). ?live i) \<longleftrightarrow>
        (\<exists>e. (\<exists>sh\<in>set (shards s). map_of sh k = Some e) \<and> \<not> expired e now)" for k
    proof
      assume "k \<in> (\<Union>i<length (shards s). ?live i)"
      then obtain i e where "i < length (shards s)" "map_of (shards s ! i) k = Some e" "\<not> expired e now"
        by auto
      then show "\<exists>e. (\<exists>sh\<in>set (shards s). map_of sh k = Some e) \<and> \<not> expired e now"
        by (meson nth_mem)
    next
      assume "\<exists>e. (\<exists>sh\<in>set (shards s). map_of sh k = Some e) \<and> \<not> expired e now"
      then obtain sh e where sh: "sh \<in> set (shards s)" "map_of sh k = Some e" "\<not> expired e now"
        by auto
      from sh(1) obtain i where "i < length (shards s)" "shards s ! i = sh"
        by (metis in_set_conv_nth)
      with sh(2,3) show "k \<in> (\<Union>i<length (shards s). ?live i)" by auto
    qed
    ultimately show ?thesis by blast
  qed
  finally show ?thesis .
qed

text \<open>A sweep removes what has expired, and nothing else.\<close>

lemma sweep_fold_lookup:
  "map_of (fst (fold (\<lambda>(k, e) (m, n). if expired e now then (gm_del k m, n + 1) else (m, n)) xs (sh, n))) j =
    (if \<exists>e. (j, e) \<in> set xs \<and> expired e now then None else map_of sh j)"
  by (induction xs arbitrary: sh n) auto

lemma sweep_fold_wf:
  "gm_wf sh \<Longrightarrow>
    gm_wf (fst (fold (\<lambda>(k, e) (m, n). if expired e now then (gm_del k m, n + 1) else (m, n)) xs (sh, n)))"
  by (induction xs arbitrary: sh n) (auto simp: gm_wf_del)

lemma sweep_shard_lookup:
  assumes "perm_order ord" "gm_wf sh"
  shows "map_of (fst (sweep_shard ord now sh)) k =
    (case map_of sh k of None \<Rightarrow> None | Some e \<Rightarrow> if expired e now then None else Some e)"
  unfolding sweep_shard_def sweep_fold_lookup gm_range_set [OF assms]
  by (auto simp: gm_in_set [OF assms(2)] split: option.splits)

lemma sweep_lookup:
  assumes "store_ok s" "perm_order ord"
  shows "store_ok (fst (Store_SweepExpired ord s now))"
    and "sh_lookup (fst (Store_SweepExpired ord s now)) k = getLive s k now"
proof -
  let ?s = "fst (Store_SweepExpired ord s now)"
  have sf: "shardFor ?s = shardFor s"
    by (simp add: Store_SweepExpired_def Let_def shardFor_def fun_eq_iff)
  have nth: "shards ?s ! i = fst (sweep_shard ord now (shards s ! i))" if "i < length (shards s)" for i
    using that by (simp add: Store_SweepExpired_def Let_def)
  have wf: "gm_wf (shards s ! i)" if "i < length (shards s)" for i
    using assms(1) that by (simp add: store_ok_def)
  have "gm_wf (shards ?s ! i) \<and> (\<forall>k\<in>dom (map_of (shards ?s ! i)). shardFor ?s k = i)"
    if "i < length (shards s)" for i
  proof -
    have "gm_wf (shards ?s ! i)" using wf [OF that] by (simp add: nth [OF that] sweep_shard_def sweep_fold_wf)
    moreover have "dom (map_of (shards ?s ! i)) \<subseteq> dom (map_of (shards s ! i))"
      using sweep_shard_lookup [OF assms(2) wf [OF that], of now]
      by (auto simp: nth [OF that] split: option.splits)
    ultimately show ?thesis using assms(1) that unfolding sf store_ok_def by blast
  qed
  then show "store_ok ?s"
    using assms(1) by (simp add: store_ok_def Store_SweepExpired_def Let_def)
  show "sh_lookup ?s k = getLive s k now"
    using shardFor_less [OF assms(1), of k] wf [of "shardFor s k"]
    by (simp add: sh_lookup_def sf nth sweep_shard_lookup assms(2) getLive_def)
qed

lemma spec_Sweep:
  "store_ok s \<Longrightarrow> perm_order ord \<Longrightarrow> now \<le> now' \<Longrightarrow>
    view (fst (Store_SweepExpired ord s now)) now' = view s now'"
  by (auto simp: fun_eq_iff view_def getLive_def [of "fst _"] sweep_lookup(2) getLive_def expired_def
      split: option.splits)

lemma typed_Sweep [invs]:
  "typed s \<Longrightarrow> perm_order ord \<Longrightarrow> typed (fst (Store_SweepExpired ord s now))"
  by (auto simp: typed_def sweep_lookup getLive_Some)

text \<open>The same shard by shard.\<close>

lemma sweep_at_all: "fst (Store_SweepExpired ord s now) = fold (sweep_at ord now) [0..<length (shards s)] s"
proof -
  let ?f = "\<lambda>sh. fst (sweep_shard ord now sh)"
  have "fold (sweep_at ord now) [0..<n] s = s\<lparr>shards := map ?f (take n (shards s)) @ drop n (shards s)\<rparr>"
    if "n \<le> length (shards s)" for n
    using that
  proof (induction n)
    case (Suc n)
    then have "drop n (shards s) = shards s ! n # drop (Suc n) (shards s)" by (simp add: Cons_nth_drop_Suc)
    with Suc show ?case by (simp add: sweep_at_def nth_append take_Suc_conv_app_nth list_update_append min_absorb2)
  qed simp
  from this [of "length (shards s)"] show ?thesis by (simp add: Store_SweepExpired_def Let_def comp_def)
qed

lemma sweep_at_lookup:
  assumes "store_ok s" "perm_order po" "i < length (shards s)"
  shows "store_ok (sweep_at po now i s)"
    "sh_lookup (sweep_at po now i s) k = (if shardFor s k = i then getLive s k now else sh_lookup s k)"
proof -
  have i: "gm_wf (shards s ! i)" "\<forall>k\<in>dom (map_of (shards s ! i)). shardFor s k = i"
    using assms(1,3) by (auto simp: store_ok_def)
  note look = sweep_shard_lookup [OF assms(2) i(1), of now]
  show "store_ok (sweep_at po now i s)" unfolding sweep_at_def
  proof (rule store_ok_update [OF assms(1)])
    show "gm_wf (fst (sweep_shard po now (shards s ! i)))" using i(1) by (simp add: sweep_shard_def sweep_fold_wf)
    show "\<forall>k\<in>dom (map_of (fst (sweep_shard po now (shards s ! i)))). shardFor s k = i"
      using i(2) look by (auto split: option.splits)
  qed
  have "shardFor (sweep_at po now i s) = shardFor s" by (simp add: sweep_at_def shardFor_def fun_eq_iff)
  then show "sh_lookup (sweep_at po now i s) k = (if shardFor s k = i then getLive s k now else sh_lookup s k)"
    using shardFor_less [OF assms(1), of k] assms(3) look [of k]
    by (auto simp: sh_lookup_def sweep_at_def getLive_def)
qed

lemma view_sweep_at:
  assumes "store_ok s" "perm_order po" "i < length (shards s)" "now \<le> T"
  shows "view (sweep_at po now i s) T = view s T"
  using assms(4) by (auto simp: view_def getLive_def [of "sweep_at _ _ _ _"] sweep_at_lookup(2) [OF assms(1-3)]
      getLive_def expired_def fun_eq_iff split: option.splits)

lemma typed_sweep_at [invs]:
  "typed s \<Longrightarrow> perm_order po \<Longrightarrow> i < length (shards s) \<Longrightarrow> typed (sweep_at po now i s)"
  by (auto simp: typed_def sweep_at_lookup getLive_Some split: if_splits)

lemma sweep_fold_count:
  "snd (fold (\<lambda>(k, e) (m, n). if expired e now then (gm_del k m, n + 1) else (m, n)) xs (sh, n)) =
    n + int (length (filter (\<lambda>(k, e). expired e now) xs))"
  by (induction xs arbitrary: sh n) auto

text \<open>The count a sweep returns, and the keys it leaves, add up to the keys there were.\<close>

lemma sweep_shard_count:
  assumes "perm_order po" "gm_wf sh"
  shows "snd (sweep_shard po now sh) + int (length (filter (\<lambda>(k, e). \<not> expired e now) sh)) = int (length sh)"
proof -
  have "length (filter (\<lambda>(k, e). expired e now) (gm_range po sh)) = length (filter (\<lambda>(k, e). expired e now) sh)"
    using gm_range_mset [OF assms] by (metis mset_filter size_mset)
  then have "snd (sweep_shard po now sh) = int (length (filter (\<lambda>(k, e). expired e now) sh))"
    unfolding sweep_shard_def sweep_fold_count by simp
  then show ?thesis
    using sum_length_filter_compl [of "\<lambda>(k, e). expired e now" sh] by (simp add: case_prod_unfold)
qed

lemma sweep_count:
  assumes "store_ok s" "perm_order po"
  shows "snd (Store_SweepExpired po s now) + Store_DBSize s now = int (length (store_keys s))"
proof -
  have "sum_list (map (\<lambda>sh. snd (sweep_shard po now sh)) xs) +
      sum_list (map (\<lambda>sh. int (length (filter (\<lambda>(k, e). \<not> expired e now) sh))) xs) =
      int (length (concat (map gm_keys xs)))" if "\<forall>sh\<in>set xs. gm_wf sh" for xs
    using that
  proof (induction xs)
    case (Cons sh xs)
    then show ?case using sweep_shard_count [OF assms(2), of sh now] by simp
  qed simp
  from this [of "shards s"] shards_wf [OF assms(1)] show ?thesis
    by (simp add: Store_SweepExpired_def Store_DBSize_def store_keys_def Let_def comp_def)
qed
end
