(* ===== verification/Store_Refine.thy ===== *)
theory Store_Refine
  imports Store_Spec
begin

text \<open>
  The hash and list operations meet their specifications, and the refinement of a whole history
  of store operations: an interpretation of \<open>refines\<close> on the model of the store.
\<close>

section \<open>Hashes\<close>

lemma card_new_fields:
  assumes "gm_wf h"
  shows "snd (hset_loop ps h 0) = int (card (fst ` set ps - dom (map_of h)))"
proof -
  let ?h = "fst (hset_loop ps h 0)"
  have "dom (map_of ?h) = dom (map_of h) \<union> fst ` set ps"
    by (simp add: hset_loop_lookup assms dom_map_of_conv_image_fst Un_commute)
  then have "length ?h = card (dom (map_of h) \<union> (fst ` set ps - dom (map_of h)))"
    using gm_length_card [OF hset_loop_wf [OF assms]] by simp
  also have "\<dots> = length h + card (fst ` set ps - dom (map_of h))"
    by (subst card_Un_disjoint) (auto simp: gm_length_card [OF assms] finite_dom_map_of)
  finally show ?thesis using hset_loop_added [OF assms, of ps 0] by simp
qed

lemma card_removed_fields:
  assumes "gm_wf h"
  shows "snd (hdel_loop fs h 0) = int (card (dom (map_of h) \<inter> set fs))"
proof -
  let ?h = "fst (hdel_loop fs h 0)"
  have "length h = card ((dom (map_of h) - set fs) \<union> (dom (map_of h) \<inter> set fs))"
    using gm_length_card [OF assms] by (metis Un_Diff_Int)
  also have "\<dots> = card (dom (map_of h) - set fs) + card (dom (map_of h) \<inter> set fs)"
    by (rule card_Un_disjoint) (auto simp: finite_dom_map_of)
  also have "dom (map_of h) - set fs = dom (map_of ?h)"
    by (auto simp: hdel_loop_lookup restrict_map_def split: if_splits)
  finally have "length h = length ?h + card (dom (map_of h) \<inter> set fs)"
    using gm_length_card [OF hdel_loop_wf [OF assms]] by simp
  then show ?thesis using hdel_loop_removed [OF assms, of fs 0] by simp
qed

lemma hdel_empty_iff: "fst (hdel_loop fs h n) = [] \<longleftrightarrow> dom (map_of h) \<subseteq> set fs"
  unfolding gm_Nil_iff hdel_loop_lookup
  by (auto simp: restrict_map_def fun_eq_iff domIff subset_iff)

lemma live_hash:
  "typed s \<Longrightarrow> getLive s k now = Some e \<Longrightarrow> e_kind e = KindHash \<Longrightarrow> gm_wf (e_hash e)"
  using entry_okD(2) getLive_entry_ok by blast

lemma spec_HSet:
  assumes "typed s"
  shows "spec_op now (OpHSet k ps) (view s now) =
    apfst (\<lambda>s'. view s' now) (run_op ord now (OpHSet k ps) s)"
proof (cases "getLive s k now")
  case None
  with assms card_new_fields [of "[]" ps] hset_loop_lookup [of "[]" ps 0] show ?thesis
    by (simp add: Store_HSet_def Let_def case_prod_unfold view_None spec_simps spec_hset_def)
next
  case (Some e)
  with assms card_new_fields [of "e_hash e" ps] hset_loop_lookup [of "e_hash e" ps 0]
    live_hash [OF assms Some]
  show ?thesis
    by (auto simp: Store_HSet_def Let_def case_prod_unfold view_Some proj_kind spec_simps
        spec_hset_def getLive_not_expired)
qed

lemma spec_HDel:
  assumes "typed s"
  shows "spec_op now (OpHDel k fs) (view s now) =
    apfst (\<lambda>s'. view s' now) (run_op ord now (OpHDel k fs) s)"
proof (cases "getLive s k now")
  case None
  with assms show ?thesis by (simp add: Store_HDel_def view_None spec_simps spec_hdel_def)
next
  case (Some e)
  with assms card_removed_fields [of "e_hash e" fs] hdel_loop_lookup [of fs "e_hash e" 0]
    live_hash [OF assms Some]
  show ?thesis
    by (auto simp: Store_HDel_def Let_def case_prod_unfold view_Some proj_kind spec_simps
        spec_hdel_def getLive_not_expired hdel_empty_iff)
qed

lemma ask_read_hash:
  assumes "typed s" "missing' = f missing" "\<And>h. gm_wf h \<Longrightarrow> f (get h) = get' (map_of h)"
  shows "result_of f (read_hash s now k missing get) = ask as_hash (view s now) k missing' get'"
proof (cases "getLive s k now")
  case (Some e)
  with assms live_hash [OF assms(1) Some] show ?thesis
    by (simp add: read_hash_def ask_def view_Some proj_kind)
qed (simp add: read_hash_def ask_def view_None assms(2))

lemma spec_HGet:
  "typed s \<Longrightarrow> result_of RStr (Store_HGet s now k f) =
    ask as_hash (view s now) k (RStr None) (\<lambda>m. RStr (m f))"
  using ask_read_hash [of s "RStr None" RStr None "\<lambda>h. map_of h f" "\<lambda>m. RStr (m f)"]
  by (simp add: Store_HGet_def read_hash_def)

lemma unflatten_pairs: "unflatten (concat (map (\<lambda>(f, v). [f, v]) ps)) = ps"
  by (induction ps) auto

lemma gm_graph: "gm_wf h \<Longrightarrow> set h = Map.graph (map_of h)"
  by (auto simp: Map.graph_def gm_in_set)

lemma gm_values: "gm_wf h \<Longrightarrow> mset (map snd h) = image_mset (the \<circ> map_of h) (mset_set (dom (map_of h)))"
proof -
  assume "gm_wf h"
  then have "mset_set (dom (map_of h)) = mset (map fst h)"
    by (metis gm_keys_def gm_wf_def mset_set_set set_gm_keys)
  moreover have "map snd h = map (the \<circ> map_of h) (map fst h)"
    using \<open>gm_wf h\<close> by (auto simp: gm_wf_def)
  ultimately show ?thesis by (simp only: mset_map)
qed

lemma spec_HGetAll:
  "typed s \<Longrightarrow> perm_order ord \<Longrightarrow>
    result_of (\<lambda>xs. RPairs (set (unflatten xs))) (Store_HGetAll ord s now k) =
      ask as_hash (view s now) k (RPairs {}) (\<lambda>m. RPairs (Map.graph m))"
  unfolding Store_HGetAll_def
  by (rule ask_read_hash) (simp_all add: unflatten_pairs gm_range_set gm_graph)

lemma spec_HKeys:
  "typed s \<Longrightarrow> perm_order ord \<Longrightarrow>
    result_of (\<lambda>xs. RSet (set xs)) (Store_HKeys ord s now k) =
      ask as_hash (view s now) k (RSet {}) (\<lambda>m. RSet (dom m))"
  unfolding Store_HKeys_def by (rule ask_read_hash) (simp_all add: gm_range_keys)

lemma spec_HVals:
  "typed s \<Longrightarrow> perm_order ord \<Longrightarrow>
    result_of (\<lambda>xs. RBag (mset xs)) (Store_HVals ord s now k) =
      ask as_hash (view s now) k (RBag {#})
        (\<lambda>m. RBag (image_mset (the \<circ> m) (mset_set (dom m))))"
  unfolding Store_HVals_def
  by (rule ask_read_hash) (simp_all add: gm_range_mset flip: gm_values)

lemma spec_HLen:
  "typed s \<Longrightarrow> result_of RInt (Store_HLen s now k) =
    ask as_hash (view s now) k (RInt 0) (\<lambda>m. RInt (int (card (dom m))))"
  unfolding Store_HLen_def by (rule ask_read_hash) (simp_all add: gm_length_card)

lemma spec_HExists:
  "typed s \<Longrightarrow> result_of RBool (Store_HExists s now k f) =
    ask as_hash (view s now) k (RBool False) (\<lambda>m. RBool (f \<in> dom m))"
  unfolding Store_HExists_def by (rule ask_read_hash) (simp_all add: domIff)

section \<open>Lists\<close>

lemma spec_push:
  assumes "typed s"
  shows "change as_list [] (view s now) k (\<lambda>xs. (AList (f xs), RInt (int (length (f xs))))) =
    apfst (\<lambda>s'. view s' now) (with_result RInt (push_with f s now k))"
  using assms by (cases "getLive s k now")
    (auto simp: push_with_def Let_def view_None view_Some proj_kind spec_simps getLive_not_expired)

lemma spec_LPush:
  "typed s \<Longrightarrow> spec_op now (OpLPush k vs) (view s now) =
    apfst (\<lambda>s'. view s' now) (run_op ord now (OpLPush k vs) s)"
  using spec_push [of s now k "lpush_loop vs"] by (simp add: Store_LPush_def lpush_loop_rev)

lemma spec_RPush:
  "typed s \<Longrightarrow> spec_op now (OpRPush k vs) (view s now) =
    apfst (\<lambda>s'. view s' now) (run_op ord now (OpRPush k vs) s)"
  using spec_push [of s now k "\<lambda>xs. xs @ vs"] by (simp add: Store_RPush_def)

lemma live_list:
  "typed s \<Longrightarrow> getLive s k now = Some e \<Longrightarrow> e_kind e = KindList \<Longrightarrow> e_list e \<noteq> []"
  using entry_okD(3) getLive_entry_ok by blast

lemma spec_pop_view:
  assumes "typed s"
  shows "spec_pop (view s now) k left =
    apfst (\<lambda>s'. view s' now) (with_result RStr (Store_pop s now k left))"
proof (cases "getLive s k now")
  case None
  with assms show ?thesis by (simp add: Store_pop_def spec_pop_def view_None)
next
  case (Some e)
  have "tl xs = [] \<longleftrightarrow> length xs = 1" "butlast xs = [] \<longleftrightarrow> length xs = 1" if "xs \<noteq> []" for xs :: "string list"
    using that by (cases xs; simp)+
  with Some assms live_list [OF assms Some] show ?thesis
    by (auto simp: Store_pop_def spec_pop_def Let_def view_Some proj_kind spec_simps getLive_not_expired)
qed

lemma ask_read_list:
  assumes "typed s" "missing' = f missing" "\<And>xs. f (get xs) = get' xs"
  shows "result_of f (read_list s now k missing get) = ask as_list (view s now) k missing' get'"
  using assms by (cases "getLive s k now")
    (simp_all add: read_list_def ask_def view_Some view_None proj_kind)

lemma nths_all_out: "(\<And>i. i < length xs \<Longrightarrow> i \<notin> A) \<Longrightarrow> nths xs A = []"
  by (auto simp: nths_def filter_empty_conv set_zip)

lemma nths_same: "(\<And>i. i < length xs \<Longrightarrow> i \<in> A \<longleftrightarrow> i \<in> B) \<Longrightarrow> nths xs A = nths xs B"
  unfolding nths_def by (intro arg_cong [of _ _ "map fst"] filter_cong) (auto simp: set_zip)

text \<open>The index arithmetic, on any list that fits into memory.\<close>

lemma normalizeIndex_bounds:
  "in_int64 i \<Longrightarrow> int n \<le> maxInt64 \<Longrightarrow>
    normalizeIndex i (int n) = (if i < 0 then int n + i else i)"
  by (simp add: normalizeIndex_def int64_defs)

lemma list_index_nth:
  assumes "in_int64 i" "int (length xs) \<le> maxInt64"
  shows "list_index xs i =
    (if 0 \<le> i \<and> i < int (length xs) then Some (xs ! nat i)
     else if - int (length xs) \<le> i \<and> i < 0 then Some (rev xs ! nat (- i - 1))
     else None)"
  using assms
  by (auto simp: list_index_def Let_def normalizeIndex_bounds rev_nth nat_diff_distrib
      intro!: arg_cong [of _ _ "nth xs"])

lemma list_range_nths:
  assumes "in_int64 a" "in_int64 b" "int (length xs) \<le> maxInt64"
  shows "list_range xs a b =
    nths xs {i. (if a < 0 then int (length xs) + a else a) \<le> int i \<and>
                int i \<le> (if b < 0 then int (length xs) + b else b)}"
proof -
  let ?lo = "if a < 0 then int (length xs) + a else a"
  let ?hi = "if b < 0 then int (length xs) + b else b"
  have slice: "take n (drop m xs) = nths xs {i. m \<le> i \<and> i < m + n}" for m n
  proof -
    have "nths xs {i. m \<le> i \<and> i < m + n} = drop m (nths xs {i. i < m + n})"
    proof (induction xs arbitrary: m n)
      case (Cons x xs)
      show ?case
      proof (cases m)
        case 0
        then show ?thesis by simp
      next
        case (Suc k)
        with Cons.IH [of k n] show ?thesis by (simp add: nths_Cons)
      qed
    qed simp
    then show ?thesis by (simp add: drop_take nths_upt_eq_take [unfolded lessThan_def])
  qed
  show ?thesis
  proof (cases "max ?lo 0 > min ?hi (int (length xs) - 1)")
    case True
    then have "nths xs {i. ?lo \<le> int i \<and> int i \<le> ?hi} = []"
      by (intro nths_all_out) auto
    with True assms show ?thesis
      by (auto simp: list_range_def Let_def normalizeIndex_bounds)
  next
    case False
    then have "nths xs {i. ?lo \<le> int i \<and> int i \<le> ?hi} =
        nths xs {i. nat (max ?lo 0) \<le> i \<and> i < nat (max ?lo 0) + nat (min ?hi (int (length xs) - 1) - max ?lo 0 + 1)}"
      by (intro nths_same) auto
    with False assms show ?thesis
      by (auto simp: list_range_def Let_def normalizeIndex_bounds slice)
  qed
qed

section \<open>Refinement of a history\<close>

text \<open>
  A history is a list of operations, each with the time elapsed since the one before it and the
  order in which its \<^verbatim>\<open>range\<close> loops visit a map. The abstract machine forgets what has expired
  and then follows the specification.
\<close>

type_synonym timed_op = "duration \<times> (string list \<Rightarrow> string list) \<times> store_op"

fun timed_run :: "timed_op \<Rightarrow> store \<times> time \<Rightarrow> (store \<times> time) \<times> result" where
  "timed_run (d, ord, op) (s, t) =
     (let (s', r) = run_op ord (t + d) op s in ((s', t + d), r))"

fun timed_spec :: "timed_op \<Rightarrow> db \<times> time \<Rightarrow> (db \<times> time) \<times> result" where
  "timed_spec (d, ord, op) (db, t) =
     (let (db', r) = spec_op (t + d) op (age (t + d) db) in ((db', t + d), r))"

definition timed_abs :: "store \<times> time \<Rightarrow> db \<times> time" where
  "timed_abs st = (view (fst st) (snd st), snd st)"

definition timed_ok :: "store \<times> time \<Rightarrow> bool" where
  "timed_ok st \<longleftrightarrow> typed (fst st) \<and> clock_ok (snd st)"

definition timed_allowed :: "timed_op \<Rightarrow> bool" where
  "timed_allowed x \<longleftrightarrow> 0 \<le> fst x \<and> perm_order (fst (snd x)) \<and> op_ok (snd (snd x))"

lemma typed_run_op [invs]:
  "typed s \<Longrightarrow> perm_order ord \<Longrightarrow> op_ok op \<Longrightarrow> typed (fst (run_op ord now op s))"
  by (cases op) (simp_all add: invs)

text \<open>The single step, at one clock reading.\<close>

lemma spec_run_op:
  assumes "typed s" "clock_ok now" "perm_order ord" "op_ok op"
  shows "spec_op now op (view s now) = apfst (\<lambda>s'. view s' now) (run_op ord now op s)"
proof (cases op)
  case OpSet
  with assms show ?thesis by (simp add: spec_Set)
next
  case OpSetNX
  with assms spec_SetNX show ?thesis by blast
next
  case OpSetXX
  with assms spec_SetXX show ?thesis by blast
next
  case OpGet
  with assms spec_Get show ?thesis by blast
next
  case OpAppend
  with assms spec_Append show ?thesis by blast
next
  case OpGetSet
  with assms spec_GetSet show ?thesis by blast
next
  case OpStrLen
  with assms spec_StrLen show ?thesis by blast
next
  case (OpIncrBy k d)
  then have "in_int64 d" using assms(4) by simp
  with OpIncrBy spec_IncrBy [OF assms(1)] show ?thesis by blast
next
  case OpDel
  with assms spec_Del show ?thesis by blast
next
  case (OpExpire k ttl)
  then have "in_int64 ttl" using assms(4) by simp
  with OpExpire spec_Expire [OF assms(1,2)] show ?thesis by blast
next
  case OpPersist
  with assms spec_Persist show ?thesis by blast
next
  case OpKeys
  with assms show ?thesis by (simp add: spec_Keys)
next
  case OpFlushDB
  with assms show ?thesis by (simp add: spec_FlushDB fun_eq_iff)
next
  case OpHSet
  with assms spec_HSet show ?thesis by blast
next
  case OpHDel
  with assms spec_HDel show ?thesis by blast
next
  case OpLPush
  with assms spec_LPush show ?thesis by blast
next
  case OpRPush
  with assms spec_RPush show ?thesis by blast
next
  case OpSweepExpired
  with assms show ?thesis by (simp add: spec_Sweep typed_ok fun_eq_iff)
qed (use assms in \<open>simp_all add: spec_reads spec_DBSize spec_HGet spec_HGetAll spec_HKeys spec_HVals
  spec_HLen spec_HExists Store_LPop_def Store_RPop_def spec_pop_view Store_LLen_def Store_LIndex_def
  Store_LRange_def ask_read_list\<close>)

interpretation store: refines timed_run timed_spec timed_abs timed_ok timed_allowed
proof
  fix st and x :: timed_op
  assume st: "timed_ok st" and x: "timed_allowed x"
  obtain s t where st_eq: "st = (s, t)" by (cases st)
  obtain d ord op where x_eq: "x = (d, ord, op)" by (cases x)
  from st x have typed: "typed s" and clock: "clock_ok (t + d)"
    and d: "0 \<le> d" "perm_order ord" "op_ok op"
    by (auto simp: timed_ok_def timed_allowed_def clock_ok_def st_eq x_eq)
  show "timed_ok (fst (timed_run x st))"
    using typed_run_op [OF typed d(2,3), of "t + d"] clock
    by (simp add: timed_ok_def st_eq x_eq case_prod_unfold Let_def)
  show "timed_spec x (timed_abs st) = (timed_abs (fst (timed_run x st)), snd (timed_run x st))"
    using spec_run_op [OF typed clock d(2,3)] view_age [of t "t + d" s] d(1)
    by (simp add: timed_abs_def st_eq x_eq case_prod_unfold Let_def apfst_def map_prod_def)
qed

end
