(* ===== verification/Command_Spec.thy ===== *)
theory Command_Spec
  imports Command Store_Refine
begin

text \<open>
  What a command means: the store operations its arguments stand for (\<open>cmd_ops\<close>), the reply
  that renders their results (\<open>reply_of\<close>) and the commands that go to the log (\<open>logged\<close>). The
  main result is that \<^verbatim>\<open>Execute\<close> does just that.
\<close>

section \<open>From arguments to operations\<close>

definition set_op :: "string list \<Rightarrow> store_op list" where
  "set_op args =
     (case parseSetOpts (drop 3 args) of
        None \<Rightarrow> []
      | Some (ttl, nx, xx) \<Rightarrow>
          [if nx then OpSetNX (args ! 1) (args ! 2) ttl
           else if xx then OpSetXX (args ! 1) (args ! 2) ttl
           else OpSet (args ! 1) (args ! 2) ttl])"

definition with_int :: "string \<Rightarrow> (int \<Rightarrow> store_op list) \<Rightarrow> store_op list" where
  "with_int s f = (case ParseInt s of None \<Rightarrow> [] | Some n \<Rightarrow> f n)"

definition guarded :: "bool \<Rightarrow> store_op list \<Rightarrow> store_op list" where
  "guarded b ops = (if b then ops else [])"

text \<open>Empty for commands that are no single or repeated store operation, and for ill-formed ones.\<close>

definition ops_of :: "string \<Rightarrow> string list \<Rightarrow> store_op list" where
  "ops_of name args =
     (let n = length args; k = args ! 1 in
      if name = ''SET'' then guarded (3 \<le> n) (set_op args)
      else if name = ''GET'' then guarded (n = 2) [OpGet k]
      else if name = ''GETSET'' then guarded (n = 3) [OpGetSet k (args ! 2)]
      else if name = ''APPEND'' then guarded (n = 3) [OpAppend k (args ! 2)]
      else if name = ''STRLEN'' then guarded (n = 2) [OpStrLen k]
      else if name = ''INCR'' then guarded (n = 2) [OpIncrBy k 1]
      else if name = ''DECR'' then guarded (n = 2) [OpIncrBy k (-1)]
      else if name = ''INCRBY'' then guarded (n = 3) (with_int (args ! 2) (\<lambda>d. [OpIncrBy k d]))
      else if name = ''DECRBY'' then
        guarded (n = 3) (with_int (args ! 2) (\<lambda>d. [OpIncrBy k (wrap64 (- d))]))
      else if name = ''MGET'' then map OpGet (drop 1 args)
      else if name = ''MSET'' then
        guarded (n mod 2 = 1) (map (\<lambda>(k, v). OpSet k v 0) (pair_up (drop 1 args)))
      else if name = ''DEL'' then map OpDel (drop 1 args)
      else if name = ''EXISTS'' then map OpExists (drop 1 args)
      else if name = ''TYPE'' then guarded (n = 2) [OpType k]
      else if name = ''EXPIRE'' then
        guarded (n = 3) (with_int (args ! 2) (\<lambda>a. [OpExpire k (wrap64 (a * Second))]))
      else if name = ''PEXPIRE'' then
        guarded (n = 3) (with_int (args ! 2) (\<lambda>a. [OpExpire k (wrap64 (a * Millisecond))]))
      else if name = ''PERSIST'' then guarded (n = 2) [OpPersist k]
      else if name = ''DBSIZE'' then [OpDBSize]
      else if name = ''FLUSHDB'' then [OpFlushDB]
      else if name = ''HSET'' then
        guarded (4 \<le> n \<and> n mod 2 = 0) [OpHSet k (pair_up (drop 2 args))]
      else if name = ''HGET'' then guarded (n = 3) [OpHGet k (args ! 2)]
      else if name = ''HDEL'' then guarded (3 \<le> n) [OpHDel k (drop 2 args)]
      else if name = ''HLEN'' then guarded (n = 2) [OpHLen k]
      else if name = ''HEXISTS'' then guarded (n = 3) [OpHExists k (args ! 2)]
      else if name = ''LPUSH'' then guarded (3 \<le> n) [OpLPush k (drop 2 args)]
      else if name = ''RPUSH'' then guarded (3 \<le> n) [OpRPush k (drop 2 args)]
      else if name = ''LPOP'' then guarded (n = 2) [OpLPop k]
      else if name = ''RPOP'' then guarded (n = 2) [OpRPop k]
      else if name = ''LLEN'' then guarded (n = 2) [OpLLen k]
      else if name = ''LINDEX'' then
        guarded (n = 3) (with_int (args ! 2) (\<lambda>i. [OpLIndex k i]))
      else if name = ''LRANGE'' then
        guarded (n = 4)
          (with_int (args ! 2) (\<lambda>a. with_int (args ! 3) (\<lambda>b. [OpLRange k a b])))
      else [])"

definition cmd_ops :: "string list \<Rightarrow> store_op list" where
  "cmd_ops args = (if args = [] then [] else ops_of (ToUpper (args ! 0)) args)"

section \<open>From results to the reply and the log\<close>

definition render :: "store_op \<Rightarrow> result \<Rightarrow> string" where
  "render op r =
     (case r of
        RErr err \<Rightarrow> WriteError (error_msg err)
      | RStr None \<Rightarrow> WriteNull
      | RStr (Some v) \<Rightarrow> WriteBulkString v
      | RInt n \<Rightarrow> WriteInteger n
      | RKind k \<Rightarrow> WriteSimpleString (Kind_String k)
      | RList xs \<Rightarrow> WriteStringArray xs
      | RBool b \<Rightarrow>
          (case op of
             OpSetNX _ _ _ \<Rightarrow> if b then WriteSimpleString ''OK'' else WriteNull
           | OpSetXX _ _ _ \<Rightarrow> if b then WriteSimpleString ''OK'' else WriteNull
           | _ \<Rightarrow> WriteInteger (if b then 1 else 0))
      | _ \<Rightarrow> WriteSimpleString ''OK'')"

definition nullable :: "result \<Rightarrow> string" where
  "nullable r = (case r of RStr (Some v) \<Rightarrow> WriteBulkString v | _ \<Rightarrow> WriteNull)"

definition hits :: "result list \<Rightarrow> int" where
  "hits rs = int (length (filter (\<lambda>r. r = RBool True) rs))"

definition reply_for :: "string \<Rightarrow> store_op list \<Rightarrow> result list \<Rightarrow> string" where
  "reply_for name ops rs =
     (if name = ''MGET'' then WriteArrayHeader (int (length rs)) @ concat (map nullable rs)
      else if name = ''MSET'' then WriteSimpleString ''OK''
      else if name = ''DEL'' \<or> name = ''EXISTS'' then WriteInteger (hits rs)
      else render (hd ops) (hd rs))"

definition reply_of :: "string list \<Rightarrow> result list \<Rightarrow> string" where
  "reply_of args rs = reply_for (ToUpper (args ! 0)) (cmd_ops args) rs"

text \<open>Whether an operation with this result has (or may have) changed the data.\<close>

definition is_int :: "result \<Rightarrow> bool" where
  "is_int r = (case r of RInt _ \<Rightarrow> True | _ \<Rightarrow> False)"

definition is_str :: "result \<Rightarrow> bool" where
  "is_str r = (case r of RStr _ \<Rightarrow> True | _ \<Rightarrow> False)"

definition effective :: "store_op \<Rightarrow> result \<Rightarrow> bool" where
  "effective op r =
     (case op of
        OpSet _ _ _ \<Rightarrow> True
      | OpFlushDB \<Rightarrow> True
      | OpSetNX _ _ _ \<Rightarrow> r = RBool True
      | OpSetXX _ _ _ \<Rightarrow> r = RBool True
      | OpDel _ \<Rightarrow> r = RBool True
      | OpExpire _ _ \<Rightarrow> r = RBool True
      | OpPersist _ \<Rightarrow> r = RBool True
      | OpGetSet _ _ \<Rightarrow> is_str r
      | OpAppend _ _ \<Rightarrow> is_int r
      | OpIncrBy _ _ \<Rightarrow> is_int r
      | OpHSet _ _ \<Rightarrow> is_int r
      | OpHDel _ _ \<Rightarrow> (case r of RInt n \<Rightarrow> 0 < n | _ \<Rightarrow> False)
      | OpLPush _ _ \<Rightarrow> is_int r
      | OpRPush _ _ \<Rightarrow> is_int r
      | OpLPop _ \<Rightarrow> is_str r \<and> r \<noteq> RStr None
      | OpRPop _ \<Rightarrow> is_str r \<and> r \<noteq> RStr None
      | _ \<Rightarrow> False)"

text \<open>The entries for an operation that does not log the command as it came.\<close>

definition log_entry :: "string list \<Rightarrow> store_op \<Rightarrow> result \<Rightarrow> string list" where
  "log_entry args op r =
     (case op of
        OpGetSet k v \<Rightarrow> [''SET'', k, v]
      | OpIncrBy k d \<Rightarrow> (case r of RInt n \<Rightarrow> [''SET'', k, FormatInt n] | _ \<Rightarrow> args)
      | _ \<Rightarrow> args)"

definition plain_set :: "store_op \<Rightarrow> string list" where
  "plain_set op = (case op of OpSet k v _ \<Rightarrow> [''SET'', k, v] | _ \<Rightarrow> [])"

definition logged_for :: "string \<Rightarrow> string list \<Rightarrow> store_op list \<Rightarrow> result list \<Rightarrow> string list list" where
  "logged_for name args ops rs =
     (if name = ''MSET'' then map plain_set ops
      else if list_ex (\<lambda>(op, r). effective op r) (zip ops rs) then [log_entry args (hd ops) (hd rs)]
      else [])"

definition logged :: "string list \<Rightarrow> result list \<Rightarrow> string list list" where
  "logged args rs = logged_for (ToUpper (args ! 0)) args (cmd_ops args) rs"

section \<open>Running a command\<close>

fun run_list :: "env \<Rightarrow> nat \<Rightarrow> store_op list \<Rightarrow> store \<Rightarrow> store \<times> result list" where
  "run_list e i [] s = (s, [])"
| "run_list e i (op # ops) s =
     (let (s', r) = run_op (ord e) (clk e i) op s; (s'', rs) = run_list e (Suc i) ops s'
      in (s'', r # rs))"

definition log_all :: "string list list \<Rightarrow> deps \<Rightarrow> deps" where
  "log_all cmds d = fold (\<lambda>c d. appendAOF d c) cmds d"

text \<open>A command run by its operations: the dependencies after it, and the reply.\<close>

definition by_ops :: "env \<Rightarrow> deps \<Rightarrow> string \<Rightarrow> string list \<Rightarrow> deps \<times> string" where
  "by_ops e d name args =
     (let ops = ops_of name args; (s, rs) = run_list e 0 ops (d_Store d)
      in (log_all (logged_for name args ops rs) (d\<lparr>d_Store := s\<rparr>), reply_for name ops rs))"

lemma log_all_simps [simp]:
  "log_all [] d = d" "log_all (c # cs) d = log_all cs (appendAOF d c)"
  by (simp_all add: log_all_def)

lemma appendAOF_simps [simp]:
  "d_Store (appendAOF d c) = d_Store d" "d_Broker (appendAOF d c) = d_Broker d"
  "d_AOF (appendAOF d c) = map_option (\<lambda>h. h @ [c]) (d_AOF d)"
  "(appendAOF d c)\<lparr>d_Store := s\<rparr> = appendAOF (d\<lparr>d_Store := s\<rparr>) c"
  by (simp_all add: appendAOF_def split: option.splits)

lemmas handler_ops = by_ops_def ops_of_def Let_def guarded_def with_int_def logged_for_def
  reply_for_def render_def effective_def is_int_def is_str_def log_entry_def

lemmas handler_splits = sum.splits option.splits prod.splits if_splits

lemma cmdSet_ops: "ops_of ''SET'' args \<noteq> [] \<Longrightarrow> cmdSet e d args = by_ops e d ''SET'' args"
  by (auto simp: cmdSet_def handler_ops set_op_def split: handler_splits)

lemma cmdGet_ops: "ops_of ''GET'' args \<noteq> [] \<Longrightarrow> cmdGet e d args = by_ops e d ''GET'' args"
  by (auto simp: cmdGet_def handler_ops split: handler_splits)

lemma GETSET_ops: "ops_of ''GETSET'' args \<noteq> [] \<Longrightarrow> cmdGetSet e d args = by_ops e d ''GETSET'' args"
  by (auto simp: cmdGetSet_def handler_ops split: handler_splits)

lemma APPEND_ops: "ops_of ''APPEND'' args \<noteq> [] \<Longrightarrow> cmdAppend e d args = by_ops e d ''APPEND'' args"
  by (auto simp: cmdAppend_def handler_ops split: handler_splits)

lemma STRLEN_ops: "ops_of ''STRLEN'' args \<noteq> [] \<Longrightarrow> cmdStrLen e d args = by_ops e d ''STRLEN'' args"
  by (auto simp: cmdStrLen_def handler_ops split: handler_splits)

lemma TYPE_ops: "ops_of ''TYPE'' args \<noteq> [] \<Longrightarrow> cmdType e d args = by_ops e d ''TYPE'' args"
  by (auto simp: cmdType_def handler_ops split: handler_splits)

lemma EXPIRE_ops: "ops_of ''EXPIRE'' args \<noteq> [] \<Longrightarrow> cmdExpire e d args Second = by_ops e d ''EXPIRE'' args"
  by (auto simp: cmdExpire_def handler_ops split: handler_splits)

lemma PEXPIRE_ops: "ops_of ''PEXPIRE'' args \<noteq> [] \<Longrightarrow> cmdExpire e d args Millisecond = by_ops e d ''PEXPIRE'' args"
  by (auto simp: cmdExpire_def handler_ops split: handler_splits)

lemma PERSIST_ops: "ops_of ''PERSIST'' args \<noteq> [] \<Longrightarrow> cmdPersist e d args = by_ops e d ''PERSIST'' args"
  by (auto simp: cmdPersist_def handler_ops split: handler_splits)

lemma HSET_ops: "ops_of ''HSET'' args \<noteq> [] \<Longrightarrow> cmdHSet e d args = by_ops e d ''HSET'' args"
  by (auto simp: cmdHSet_def handler_ops split: handler_splits)

lemma HGET_ops: "ops_of ''HGET'' args \<noteq> [] \<Longrightarrow> cmdHGet e d args = by_ops e d ''HGET'' args"
  by (auto simp: cmdHGet_def handler_ops split: handler_splits)

lemma HDEL_ops: "ops_of ''HDEL'' args \<noteq> [] \<Longrightarrow> cmdHDel e d args = by_ops e d ''HDEL'' args"
  by (auto simp: cmdHDel_def handler_ops split: handler_splits)

lemma HLEN_ops: "ops_of ''HLEN'' args \<noteq> [] \<Longrightarrow> cmdHLen e d args = by_ops e d ''HLEN'' args"
  by (auto simp: cmdHLen_def handler_ops split: handler_splits)

lemma HEXISTS_ops: "ops_of ''HEXISTS'' args \<noteq> [] \<Longrightarrow> cmdHExists e d args = by_ops e d ''HEXISTS'' args"
  by (auto simp: cmdHExists_def handler_ops split: handler_splits)

lemma LPUSH_ops: "ops_of ''LPUSH'' args \<noteq> [] \<Longrightarrow> cmdPush e d args True = by_ops e d ''LPUSH'' args"
  by (auto simp: cmdPush_def handler_ops split: handler_splits)

lemma RPUSH_ops: "ops_of ''RPUSH'' args \<noteq> [] \<Longrightarrow> cmdPush e d args False = by_ops e d ''RPUSH'' args"
  by (auto simp: cmdPush_def handler_ops split: handler_splits)

lemma LPOP_ops: "ops_of ''LPOP'' args \<noteq> [] \<Longrightarrow> cmdPop e d args True = by_ops e d ''LPOP'' args"
  by (auto simp: cmdPop_def handler_ops split: handler_splits)

lemma RPOP_ops: "ops_of ''RPOP'' args \<noteq> [] \<Longrightarrow> cmdPop e d args False = by_ops e d ''RPOP'' args"
  by (auto simp: cmdPop_def handler_ops split: handler_splits)

lemma LLEN_ops: "ops_of ''LLEN'' args \<noteq> [] \<Longrightarrow> cmdLLen e d args = by_ops e d ''LLEN'' args"
  by (auto simp: cmdLLen_def handler_ops split: handler_splits)

lemma LINDEX_ops: "ops_of ''LINDEX'' args \<noteq> [] \<Longrightarrow> cmdLIndex e d args = by_ops e d ''LINDEX'' args"
  by (auto simp: cmdLIndex_def handler_ops split: handler_splits)

lemma LRANGE_ops: "ops_of ''LRANGE'' args \<noteq> [] \<Longrightarrow> cmdLRange e d args = by_ops e d ''LRANGE'' args"
  by (auto simp: cmdLRange_def handler_ops split: handler_splits)

lemma incr_ops:
  assumes "ops_of name args = [OpIncrBy (args ! 1) delta]" "incr_delta args fixed byArg = Inr delta"
    "name \<notin> {''MSET'', ''MGET'', ''DEL'', ''EXISTS''}"
  shows "cmdIncrBy e d args fixed byArg = by_ops e d name args"
  using assms
  by (auto simp: cmdIncrBy_def by_ops_def Let_def logged_for_def reply_for_def render_def
      effective_def is_int_def log_entry_def WriteInteger_def WriteInteger64_def split: handler_splits)

lemma INCR_ops: "ops_of ''INCR'' args \<noteq> [] \<Longrightarrow> cmdIncrBy e d args 1 False = by_ops e d ''INCR'' args"
  by (rule incr_ops) (auto simp: ops_of_def Let_def guarded_def incr_delta_def split: if_splits)

lemma DECR_ops: "ops_of ''DECR'' args \<noteq> [] \<Longrightarrow> cmdIncrBy e d args (-1) False = by_ops e d ''DECR'' args"
  by (rule incr_ops) (auto simp: ops_of_def Let_def guarded_def incr_delta_def split: if_splits)

lemma INCRBY_ops:
  assumes "ToUpper (args ! 0) = ''INCRBY''" "ops_of ''INCRBY'' args \<noteq> []"
  shows "cmdIncrBy e d args 0 True = by_ops e d ''INCRBY'' args"
proof (rule incr_ops)
  show "ops_of ''INCRBY'' args = [OpIncrBy (args ! 1) (the (ParseInt (args ! 2)))]"
    "incr_delta args 0 True = Inr (the (ParseInt (args ! 2)))"
    using assms by (auto simp: ops_of_def Let_def guarded_def with_int_def incr_delta_def
        split: if_splits option.splits)
qed simp

lemma DECRBY_ops:
  assumes "ToUpper (args ! 0) = ''DECRBY''" "ops_of ''DECRBY'' args \<noteq> []"
  shows "cmdIncrBy e d args 0 True = by_ops e d ''DECRBY'' args"
proof (rule incr_ops)
  show "ops_of ''DECRBY'' args = [OpIncrBy (args ! 1) (wrap64 (- the (ParseInt (args ! 2))))]"
    "incr_delta args 0 True = Inr (wrap64 (- the (ParseInt (args ! 2))))"
    using assms by (auto simp: ops_of_def Let_def guarded_def with_int_def incr_delta_def
        split: if_splits option.splits)
qed simp

text \<open>The commands over several keys.\<close>

lemma mget_loop_ops:
  "mget_loop e i ks s =
    (fst (run_list e i (map OpGet ks) s),
     map (\<lambda>r. case r of RStr (Some v) \<Rightarrow> v | _ \<Rightarrow> []) (snd (run_list e i (map OpGet ks) s)),
     map (\<lambda>r. case r of RStr (Some v) \<Rightarrow> True | _ \<Rightarrow> False) (snd (run_list e i (map OpGet ks) s)))"
  by (induction ks arbitrary: i s)
    (auto simp: Let_def case_prod_unfold split: sum.splits option.splits prod.splits)

lemma nullable_array:
  "WriteNullableStringArray (map (\<lambda>r. case r of RStr (Some v) \<Rightarrow> v | _ \<Rightarrow> []) rs)
    (map (\<lambda>r. case r of RStr (Some v) \<Rightarrow> True | _ \<Rightarrow> False) rs) =
   WriteArrayHeader (int (length rs)) @ concat (map nullable rs)"
proof -
  have "concat (map (\<lambda>(it, b). if b then WriteBulkString it else WriteNull)
      (zip (map (\<lambda>r. case r of RStr (Some v) \<Rightarrow> v | _ \<Rightarrow> []) rs)
        (map (\<lambda>r. case r of RStr (Some v) \<Rightarrow> True | _ \<Rightarrow> False) rs))) = concat (map nullable rs)"
    by (induction rs) (auto simp: nullable_def split: result.splits option.splits)
  then show ?thesis by (simp add: WriteNullableStringArray_def)
qed

lemma not_effective:
  "list_ex (\<lambda>(op, r). effective op r) (zip (map OpGet ks) rs) = False"
  "list_ex (\<lambda>(op, r). effective op r) (zip (map OpExists ks) rs) = False"
  by (induction ks arbitrary: rs) (case_tac rs; simp add: effective_def)+

lemma MGET_ops: "ops_of ''MGET'' args \<noteq> [] \<Longrightarrow> cmdMGet e d args = by_ops e d ''MGET'' args"
  by (auto simp: cmdMGet_def by_ops_def ops_of_def Let_def logged_for_def reply_for_def
      mget_loop_ops nullable_array not_effective split: prod.splits)

lemma mset_loop_ops:
  "mset_loop e i xs d =
    (let ops = map (\<lambda>(k, v). OpSet k v 0) (pair_up xs)
     in log_all (map plain_set ops) (d\<lparr>d_Store := fst (run_list e i ops (d_Store d))\<rparr>))"
  by (induction e i xs d rule: mset_loop.induct)
    (auto simp: Let_def case_prod_unfold plain_set_def)

lemma MSET_ops:
  "ops_of ''MSET'' args \<noteq> [] \<Longrightarrow> cmdMSet e d args = by_ops e d ''MSET'' args"
  by (cases args; cases "tl args"; cases "tl (tl args)")
    (auto simp: cmdMSet_def by_ops_def ops_of_def guarded_def Let_def logged_for_def reply_for_def
      mset_loop_ops split: prod.splits if_splits)

lemma del_loop_ops:
  "del_loop e i ks s n =
    (fst (run_list e i (map OpDel ks) s), n + hits (snd (run_list e i (map OpDel ks) s)))"
  by (induction ks arbitrary: i s n) (auto simp: Let_def case_prod_unfold hits_def)

lemma del_effective:
  "length rs = length ks \<Longrightarrow>
    list_ex (\<lambda>(op, r). effective op r) (zip (map OpDel ks) rs) \<longleftrightarrow> 0 < hits rs"
  by (induction ks rs rule: list_induct2') (auto simp: effective_def hits_def)

lemma run_list_length: "length (snd (run_list e i ops s)) = length ops"
  by (induction ops arbitrary: i s) (auto simp: Let_def case_prod_unfold)

lemma DEL_ops: "ops_of ''DEL'' args \<noteq> [] \<Longrightarrow> cmdDel e d args = by_ops e d ''DEL'' args"
  using run_list_length [of e 0 "map OpDel (drop 1 args)" "d_Store d"]
  by (auto simp: cmdDel_def by_ops_def ops_of_def Let_def logged_for_def reply_for_def
      del_loop_ops del_effective [unfolded case_prod_unfold] case_prod_unfold log_entry_def hd_map)

lemma exists_loop_ops:
  "exists_loop e i ks s n = n + hits (snd (run_list e i (map OpExists ks) s)) \<and>
    fst (run_list e i (map OpExists ks) s) = s"
  by (induction ks arbitrary: i n) (auto simp: Let_def case_prod_unfold hits_def)

lemma EXISTS_ops: "ops_of ''EXISTS'' args \<noteq> [] \<Longrightarrow> cmdExists e d args = by_ops e d ''EXISTS'' args"
  by (auto simp: cmdExists_def by_ops_def ops_of_def Let_def logged_for_def reply_for_def
      exists_loop_ops not_effective [unfolded case_prod_unfold] case_prod_unfold)

section \<open>The dispatch\<close>

lemma DBSIZE_ops: "by_ops e d ''DBSIZE'' args = (d, WriteInteger (Store_DBSize (d_Store d) (clk e 0)))"
  by (simp add: handler_ops)

lemma FLUSHDB_ops:
  "by_ops e d ''FLUSHDB'' args =
    (appendAOF (d\<lparr>d_Store := Store_FlushDB (d_Store d)\<rparr>) args, WriteSimpleString ''OK'')"
  by (simp add: handler_ops)

lemmas command_ops = cmdSet_ops cmdGet_ops GETSET_ops APPEND_ops STRLEN_ops INCR_ops DECR_ops
  INCRBY_ops DECRBY_ops MGET_ops MSET_ops DEL_ops EXISTS_ops TYPE_ops EXPIRE_ops PEXPIRE_ops
  PERSIST_ops DBSIZE_ops FLUSHDB_ops HSET_ops HGET_ops HDEL_ops HLEN_ops HEXISTS_ops LPUSH_ops
  RPUSH_ops LPOP_ops RPOP_ops LLEN_ops LINDEX_ops LRANGE_ops

definition op_commands :: "string list" where
  "op_commands = [''SET'', ''GET'', ''GETSET'', ''APPEND'', ''STRLEN'', ''INCR'', ''DECR'', ''INCRBY'',
     ''DECRBY'', ''MGET'', ''MSET'', ''DEL'', ''EXISTS'', ''TYPE'', ''EXPIRE'', ''PEXPIRE'', ''PERSIST'',
     ''DBSIZE'', ''FLUSHDB'', ''HSET'', ''HGET'', ''HDEL'', ''HLEN'', ''HEXISTS'', ''LPUSH'', ''RPUSH'',
     ''LPOP'', ''RPOP'', ''LLEN'', ''LINDEX'', ''LRANGE'']"

lemma ops_of_other: "name \<notin> set op_commands \<Longrightarrow> ops_of name args = []"
  by (simp add: ops_of_def op_commands_def Let_def)

lemma data_handler_ops:
  assumes "ops_of name args \<noteq> []" "ToUpper (args ! 0) = name"
  shows "data_handler e d name args = Some (by_ops e d name args)"
proof -
  have "name \<in> set op_commands" using assms(1) ops_of_other by blast
  with assms show ?thesis
    unfolding op_commands_def list.set insert_iff empty_iff
    by (elim disjE FalseE) (simp_all add: data_handler_def command_ops)
qed

text \<open>The rest leaves the store and the log as they are.\<close>

lemma pair_up_Nil: "pair_up xs = [] \<longleftrightarrow> length xs < 2"
  by (cases xs rule: pair_up.cases) auto

lemmas none_simps = ops_of_def Let_def guarded_def with_int_def

lemma SET_none: "ops_of ''SET'' args = [] \<Longrightarrow> fst (cmdSet e d args) = d"
  by (auto simp: cmdSet_def set_op_def none_simps split: if_splits option.splits)

lemma GET_none: "ops_of ''GET'' args = [] \<Longrightarrow> fst (cmdGet e d args) = d"
  by (auto simp: cmdGet_def none_simps split: if_splits option.splits)

lemma GETSET_none: "ops_of ''GETSET'' args = [] \<Longrightarrow> fst (cmdGetSet e d args) = d"
  by (auto simp: cmdGetSet_def none_simps split: if_splits option.splits)

lemma APPEND_none: "ops_of ''APPEND'' args = [] \<Longrightarrow> fst (cmdAppend e d args) = d"
  by (auto simp: cmdAppend_def none_simps split: if_splits option.splits)

lemma STRLEN_none: "ops_of ''STRLEN'' args = [] \<Longrightarrow> fst (cmdStrLen e d args) = d"
  by (auto simp: cmdStrLen_def none_simps split: if_splits option.splits)

lemma MGET_none: "ops_of ''MGET'' args = [] \<Longrightarrow> fst (cmdMGet e d args) = d"
  by (auto simp: cmdMGet_def none_simps split: if_splits option.splits)

lemma MSET_none: "ops_of ''MSET'' args = [] \<Longrightarrow> fst (cmdMSet e d args) = d"
  by (auto simp: cmdMSet_def pair_up_Nil not_less none_simps split: if_splits option.splits)

lemma DEL_none: "ops_of ''DEL'' args = [] \<Longrightarrow> fst (cmdDel e d args) = d"
  by (auto simp: cmdDel_def none_simps split: if_splits option.splits)

lemma EXISTS_none: "ops_of ''EXISTS'' args = [] \<Longrightarrow> fst (cmdExists e d args) = d"
  by (auto simp: cmdExists_def none_simps split: if_splits option.splits)

lemma TYPE_none: "ops_of ''TYPE'' args = [] \<Longrightarrow> fst (cmdType e d args) = d"
  by (auto simp: cmdType_def none_simps split: if_splits option.splits)

lemma EXPIRE_none: "ops_of ''EXPIRE'' args = [] \<Longrightarrow> fst (cmdExpire e d args Second) = d"
  by (auto simp: cmdExpire_def none_simps split: if_splits option.splits)

lemma PEXPIRE_none: "ops_of ''PEXPIRE'' args = [] \<Longrightarrow> fst (cmdExpire e d args Millisecond) = d"
  by (auto simp: cmdExpire_def none_simps split: if_splits option.splits)

lemma PERSIST_none: "ops_of ''PERSIST'' args = [] \<Longrightarrow> fst (cmdPersist e d args) = d"
  by (auto simp: cmdPersist_def none_simps split: if_splits option.splits)

lemma HSET_none: "ops_of ''HSET'' args = [] \<Longrightarrow> fst (cmdHSet e d args) = d"
  by (auto simp: cmdHSet_def none_simps split: if_splits option.splits)

lemma HGET_none: "ops_of ''HGET'' args = [] \<Longrightarrow> fst (cmdHGet e d args) = d"
  by (auto simp: cmdHGet_def none_simps split: if_splits option.splits)

lemma HDEL_none: "ops_of ''HDEL'' args = [] \<Longrightarrow> fst (cmdHDel e d args) = d"
  by (auto simp: cmdHDel_def none_simps split: if_splits option.splits)

lemma HLEN_none: "ops_of ''HLEN'' args = [] \<Longrightarrow> fst (cmdHLen e d args) = d"
  by (auto simp: cmdHLen_def none_simps split: if_splits option.splits)

lemma HEXISTS_none: "ops_of ''HEXISTS'' args = [] \<Longrightarrow> fst (cmdHExists e d args) = d"
  by (auto simp: cmdHExists_def none_simps split: if_splits option.splits)

lemma LPUSH_none: "ops_of ''LPUSH'' args = [] \<Longrightarrow> fst (cmdPush e d args True) = d"
  by (auto simp: cmdPush_def none_simps split: if_splits option.splits)

lemma RPUSH_none: "ops_of ''RPUSH'' args = [] \<Longrightarrow> fst (cmdPush e d args False) = d"
  by (auto simp: cmdPush_def none_simps split: if_splits option.splits)

lemma LPOP_none: "ops_of ''LPOP'' args = [] \<Longrightarrow> fst (cmdPop e d args True) = d"
  by (auto simp: cmdPop_def none_simps split: if_splits option.splits)

lemma RPOP_none: "ops_of ''RPOP'' args = [] \<Longrightarrow> fst (cmdPop e d args False) = d"
  by (auto simp: cmdPop_def none_simps split: if_splits option.splits)

lemma LLEN_none: "ops_of ''LLEN'' args = [] \<Longrightarrow> fst (cmdLLen e d args) = d"
  by (auto simp: cmdLLen_def none_simps split: if_splits option.splits)

lemma LINDEX_none: "ops_of ''LINDEX'' args = [] \<Longrightarrow> fst (cmdLIndex e d args) = d"
  by (auto simp: cmdLIndex_def none_simps split: if_splits option.splits)

lemma LRANGE_none: "ops_of ''LRANGE'' args = [] \<Longrightarrow> fst (cmdLRange e d args) = d"
  by (auto simp: cmdLRange_def none_simps split: if_splits option.splits)

lemma INCR_none: "ops_of ''INCR'' args = [] \<Longrightarrow> fst (cmdIncrBy e d args 1 False) = d"
  by (auto simp: cmdIncrBy_def incr_delta_def none_simps split: if_splits option.splits)

lemma DECR_none: "ops_of ''DECR'' args = [] \<Longrightarrow> fst (cmdIncrBy e d args (-1) False) = d"
  by (auto simp: cmdIncrBy_def incr_delta_def none_simps split: if_splits option.splits)

lemma INCRBY_none: "ops_of ''INCRBY'' args = [] \<Longrightarrow> fst (cmdIncrBy e d args 0 True) = d"
  by (auto simp: cmdIncrBy_def incr_delta_def none_simps split: if_splits option.splits)

lemma DECRBY_none: "ops_of ''DECRBY'' args = [] \<Longrightarrow> fst (cmdIncrBy e d args 0 True) = d"
  by (auto simp: cmdIncrBy_def incr_delta_def none_simps split: if_splits option.splits)

lemmas command_none = SET_none GET_none GETSET_none APPEND_none STRLEN_none MGET_none MSET_none DEL_none EXISTS_none TYPE_none EXPIRE_none PEXPIRE_none PERSIST_none HSET_none HGET_none HDEL_none HLEN_none HEXISTS_none LPUSH_none RPUSH_none LPOP_none RPOP_none LLEN_none LINDEX_none LRANGE_none INCR_none DECR_none INCRBY_none DECRBY_none

lemma DBSIZE_FLUSHDB_some: "ops_of ''DBSIZE'' args \<noteq> []" "ops_of ''FLUSHDB'' args \<noteq> []"
  by (simp_all add: ops_of_def)

lemma data_handler_none:
  "name \<in> set op_commands \<Longrightarrow> ops_of name args = [] \<Longrightarrow>
    fst (the (data_handler e d name args)) = d"
  unfolding op_commands_def list.set insert_iff empty_iff
  by (elim disjE FalseE) (simp_all add: data_handler_def command_none DBSIZE_FLUSHDB_some)

lemma data_handler_other:
  assumes "ops_of name args = []" "data_handler e d name args = Some r"
  shows "fst r = d"
proof (cases "name \<in> set op_commands")
  case False
  with assms(2) show ?thesis
    by (auto simp: data_handler_def op_commands_def cmdTTL_def cmdKeys_def cmdHGetAll_def
        cmdHCollection_def case_prod_unfold Let_def split: if_splits)
next
  case True
  with assms data_handler_none [OF True assms(1), of e d] show ?thesis by simp
qed

lemma subscribe_loop_frame:
  "subscribe_loop chs d cs = (d', cs', w) \<Longrightarrow>
    d_Store d' = d_Store d \<and> d_AOF d' = d_AOF d"
  by (induction chs d cs arbitrary: d' cs' w rule: subscribe_loop.induct)
    (fastforce simp: Let_def split: if_splits prod.splits)+

text \<open>One round of \<open>unsubscribe_loop\<close>.\<close>

definition unsubscribe_one :: "string \<Rightarrow> deps \<Rightarrow> conn \<Rightarrow> (deps \<times> conn) option" where
  "unsubscribe_one ch d cs =
     (case map_of (c_Subs cs) ch of
        None \<Rightarrow> Some (d, cs)
      | Some sub \<Rightarrow>
          map_option (\<lambda>b. (d\<lparr>d_Broker := b\<rparr>, cs\<lparr>c_Subs := gm_del ch (c_Subs cs)\<rparr>))
            (Broker_Unsubscribe (d_Broker d) sub))"

lemma unsubscribe_loop_Cons:
  "unsubscribe_loop (ch # chs) d cs =
    (case unsubscribe_one ch d cs of
       None \<Rightarrow> None
     | Some (d1, cs1) \<Rightarrow>
         map_option (\<lambda>(d2, cs2, w). (d2, cs2,
             writeSubscribeReply ''unsubscribe'' ch (int (length (c_Subs cs1))) @ w))
           (unsubscribe_loop chs d1 cs1))"
  by (simp add: unsubscribe_one_def Let_def split: option.split prod.split)

lemma unsubscribe_one_frame:
  "unsubscribe_one ch d cs = Some (d', cs') \<Longrightarrow> d_Store d' = d_Store d \<and> d_AOF d' = d_AOF d"
  by (auto simp: unsubscribe_one_def split: option.splits)

declare unsubscribe_loop.simps(2) [simp del]

lemma unsubscribe_loop_frame:
  "unsubscribe_loop chs d cs = Some (d', cs', w) \<Longrightarrow>
    d_Store d' = d_Store d \<and> d_AOF d' = d_AOF d"
  by (induction chs arbitrary: d cs d' cs' w)
    (fastforce simp: unsubscribe_loop_Cons split: option.splits dest: unsubscribe_one_frame)+

lemma cmdUnsubscribe_frame:
  "cmdUnsubscribe e d cs args = Some (d', cs', w) \<Longrightarrow> d_Store d' = d_Store d \<and> d_AOF d' = d_AOF d"
  by (auto simp: cmdUnsubscribe_def Let_def split: if_splits dest: unsubscribe_loop_frame)

section \<open>Execute\<close>

text \<open>A well-formed command on the store, of a connection with no subscriptions.\<close>

lemma Execute_ops:
  assumes "\<not> InSubscribeMode cs" "cmd_ops args \<noteq> []"
  shows "Execute e d cs args =
    (let (s, rs) = run_list e 0 (cmd_ops args) (d_Store d)
     in Some (log_all (logged args rs) (d\<lparr>d_Store := s\<rparr>), cs, reply_of args rs, None))"
proof -
  have ne: "args \<noteq> []" using assms(2) by (auto simp: cmd_ops_def)
  let ?name = "ToUpper (args ! 0)"
  have "?name \<in> set op_commands" using assms(2) ops_of_other by (metis cmd_ops_def)
  then have "?name \<noteq> ''PING''" "?name \<noteq> ''ECHO''" "?name \<noteq> ''COMMAND''" "?name \<noteq> ''QUIT''"
    by (auto simp: op_commands_def)
  moreover have "data_handler e d ?name args = Some (by_ops e d ?name args)"
    using data_handler_ops assms(2) by (metis cmd_ops_def)
  ultimately show ?thesis using assms(1) ne
    by (simp add: Execute_def by_ops_def cmd_ops_def logged_def reply_of_def Let_def split: prod.splits)
qed

lemma Execute_other:
  assumes "Execute e d cs args = Some (d', cs', w, err)" "InSubscribeMode cs \<or> cmd_ops args = []"
  shows "d_Store d' = d_Store d \<and> d_AOF d' = d_AOF d"
proof (cases "data_handler e d (ToUpper (args ! 0)) args")
  case None
  with assms(1) show ?thesis
    by (auto simp: Execute_def Let_def cmdSubscribe_def cmdPublish_def
        dest: subscribe_loop_frame cmdUnsubscribe_frame split: if_splits option.splits prod.splits)
next
  case (Some r)
  then have name: "\<not> subscribe_mode_allowed (ToUpper (args ! 0))"
    by (auto simp: subscribe_mode_allowed_def data_handler_def)
  show ?thesis
  proof (cases "InSubscribeMode cs")
    case True
    with assms(1) name show ?thesis by (auto simp: Execute_def Let_def split: if_splits)
  next
    case False
    show ?thesis
    proof (cases "args = []")
      case True
      with assms(1) show ?thesis by (simp add: Execute_def)
    next
      case ne: False
      with False have "fst r = d" using data_handler_other Some assms(2) by (auto simp: cmd_ops_def)
      with False assms(1) Some show ?thesis
        by (auto simp: Execute_def Let_def split: if_splits prod.splits)
    qed
  qed
qed

text \<open>While a connection is subscribed, no command of it reaches the data or the log.\<close>

lemma Execute_subscribed:
  assumes "InSubscribeMode cs" "Execute e d cs args = Some (d', cs', w, err)"
  shows "d_Store d' = d_Store d \<and> d_AOF d' = d_AOF d"
  using Execute_other assms by blast

section \<open>Against the flat data set\<close>

definition env_ok :: "env \<Rightarrow> bool" where
  "env_ok e \<longleftrightarrow> mono (clk e) \<and> clock_ok (clk e 0) \<and> perm_order (ord e) \<and> perm_order (sub_ord e)"

lemma env_ok_clock: "env_ok e \<Longrightarrow> clock_ok (clk e i)"
  using monoD [of "clk e" 0 i] by (auto simp: env_ok_def clock_ok_def)

text \<open>Every command passes the store well-formed operations.\<close>

lemma in_guarded [simp]: "op \<in> set (guarded b ops) \<longleftrightarrow> b \<and> op \<in> set ops"
  by (simp add: guarded_def)

lemma in_with_int [simp]:
  "op \<in> set (with_int s f) \<longleftrightarrow> (\<exists>n. ParseInt s = Some n \<and> op \<in> set (f n))"
  by (cases "ParseInt s") (simp_all add: with_int_def)

lemma set_op_ok: "op \<in> set (set_op args) \<Longrightarrow> op_ok op"
  by (auto simp: set_op_def split: option.splits if_splits)

lemma ops_of_ok: "op \<in> set (ops_of name args) \<Longrightarrow> op_ok op"
proof -
  assume op: "op \<in> set (ops_of name args)"
  then have "name \<in> set op_commands" using ops_of_other by fastforce
  moreover have *: "in_int64 1" "in_int64 (-1)" by (simp_all add: int64_defs)
  ultimately show "op_ok op" using op
    unfolding op_commands_def list.set insert_iff empty_iff
    by (elim disjE FalseE)
      (auto simp: ops_of_def Let_def pair_up_Nil wrap64_range * intro: ParseInt_range set_op_ok)
qed

lemma cmd_ops_ok: "op \<in> set (cmd_ops args) \<Longrightarrow> op_ok op"
  by (auto simp: cmd_ops_def intro: ops_of_ok split: if_splits)

lemma typed_run_list [invs]:
  "typed s \<Longrightarrow> env_ok e \<Longrightarrow> \<forall>op\<in>set ops. op_ok op \<Longrightarrow> typed (fst (run_list e i ops s))"
  by (induction ops arbitrary: i s) (auto simp: Let_def case_prod_unfold env_ok_def typed_run_op)

text \<open>The specification of a list of operations, with the passing of time between them.\<close>

fun spec_list :: "env \<Rightarrow> nat \<Rightarrow> store_op list \<Rightarrow> db \<Rightarrow> db \<times> result list" where
  "spec_list e i [] db = (db, [])"
| "spec_list e i (op # ops) db =
     (let (db', r) = spec_op (clk e i) op (age (clk e i) db);
          (db'', rs) = spec_list e (Suc i) ops db'
      in (db'', r # rs))"

lemma age_age: "t \<le> t' \<Longrightarrow> age t' (age t db) = age t' db"
  by (auto simp: age_def fun_eq_iff split: option.splits)

lemma spec_run_list:
  assumes "typed s" "env_ok e" "\<forall>op\<in>set ops. op_ok op"
    "t \<le> clk e i" "\<forall>T\<ge>t. view s T = age T db"
  shows "snd (run_list e i ops s) = snd (spec_list e i ops db) \<and>
    (\<forall>T\<ge>t. (\<forall>j<length ops. clk e (i + j) \<le> T) \<longrightarrow>
      view (fst (run_list e i ops s)) T = age T (fst (spec_list e i ops db)))"
  using assms
proof (induction ops arbitrary: i s t db)
  case (Cons op ops)
  let ?now = "clk e i"
  let ?s = "fst (run_op (ord e) ?now op s)" and ?db = "fst (spec_op ?now op (age ?now db))"
  have now: "view s ?now = age ?now db" using Cons.prems by simp
  have step: "spec_op ?now op (view s ?now) = apfst (\<lambda>s'. view s' ?now) (run_op (ord e) ?now op s)"
    using Cons.prems by (intro spec_run_op) (auto simp: env_ok_def env_ok_clock)
  then have r: "snd (spec_op ?now op (age ?now db)) = snd (run_op (ord e) ?now op s)"
    and v: "view ?s ?now = ?db" by (simp_all flip: now)
  have typed: "typed ?s" using Cons.prems by (auto intro: typed_run_op simp: env_ok_def)
  have later: "\<forall>T\<ge>?now. view ?s T = age T ?db" using view_age [of ?now] v by metis
  have mono: "?now \<le> clk e (Suc i)" using Cons.prems(2) by (simp add: env_ok_def monoD)
  note IH = Cons.IH [OF typed Cons.prems(2) _ mono later]
  have "snd (run_list e i (op # ops) s) = snd (spec_list e i (op # ops) db)"
    using IH Cons.prems(3) r by (simp add: case_prod_unfold Let_def)
  moreover have "\<forall>T\<ge>t. (\<forall>j<length (op # ops). clk e (i + j) \<le> T) \<longrightarrow>
      view (fst (run_list e i (op # ops) s)) T = age T (fst (spec_list e i (op # ops) db))"
  proof (intro allI impI)
    fix T assume T: "\<forall>j<length (op # ops). clk e (i + j) \<le> T"
    then have "?now \<le> T" by force
    moreover have "clk e (Suc i + j) \<le> T" if "j < length ops" for j
      using T [rule_format, of "Suc j"] that by simp
    ultimately show "view (fst (run_list e i (op # ops) s)) T = age T (fst (spec_list e i (op # ops) db))"
      using IH Cons.prems(3) by (simp add: case_prod_unfold Let_def)
  qed
  ultimately show ?case by blast
qed simp_all

section \<open>Invariant of a server and its connections\<close>

definition deps_ok :: "deps \<Rightarrow> bool" where
  "deps_ok d \<longleftrightarrow> typed (d_Store d) \<and> broker_ok (d_Broker d)"

text \<open>A connection's subscriptions are those the broker has registered for it.\<close>

definition conn_ok :: "broker \<Rightarrow> conn \<Rightarrow> bool" where
  "conn_ok b cs \<longleftrightarrow> gm_wf (c_Subs cs) \<and>
     (\<forall>ch p. map_of (c_Subs cs) ch = Some p \<longrightarrow>
        p < length (heap b) \<and> p \<in> set (subscribers b ch))"

lemma log_all_frame [simp]:
  "d_Store (log_all cs d) = d_Store d" "d_Broker (log_all cs d) = d_Broker d"
  "d_AOF (log_all cs d) = map_option (\<lambda>h. h @ cs) (d_AOF d)"
  by (induction cs arbitrary: d) (auto simp: option.map_comp comp_def option.map_ident_strong)

lemma subscribers_Subscribe:
  "set (subscribers (fst (Broker_Subscribe b ch)) c) =
    set (subscribers b c) \<union> (if c = ch then {length (heap b)} else {})"
  by (cases "map_of (subs b) ch") (auto simp: Broker_Subscribe_def Let_def subscribers_def)

lemma subscribe_loop_ok:
  assumes "subscribe_loop chs d cs = (d', cs', w)" "broker_ok (d_Broker d)" "conn_ok (d_Broker d) cs"
  shows "broker_ok (d_Broker d') \<and> conn_ok (d_Broker d') cs'"
  using assms
proof (induction chs arbitrary: d cs d' cs' w)
  case (Cons ch chs)
  show ?case
  proof (cases "map_of (c_Subs cs) ch")
    case (Some p)
    with Cons.IH [of d cs d' cs' w] Cons.prems show ?thesis by simp
  next
    case None
    let ?b = "fst (Broker_Subscribe (d_Broker d) ch)" and ?p = "length (heap (d_Broker d))"
    have p: "snd (Broker_Subscribe (d_Broker d) ch) = ?p"
      by (simp add: Broker_Subscribe_def Let_def)
    define cs1 where "cs1 = (let c = cs\<lparr>c_Subs := gm_put ch ?p (c_Subs cs)\<rparr>
      in if c_Deliver c then c\<lparr>c_delivering := c_delivering c @ [?p]\<rparr> else c)"
    have subs: "c_Subs cs1 = gm_put ch ?p (c_Subs cs)" by (simp add: cs1_def Let_def)
    have "conn_ok ?b cs1" using Cons.prems(3)
      by (auto simp: conn_ok_def subs gm_wf_put subscribers_Subscribe heap_grows(1) less_SucI)
    moreover have "broker_ok ?b" using Cons.prems(2) by (rule broker_ok_Subscribe)
    moreover obtain w' where "subscribe_loop chs (d\<lparr>d_Broker := ?b\<rparr>) cs1 = (d', cs', w')"
      using Cons.prems(1) None p by (auto simp: Let_def case_prod_unfold cs1_def prod_eq_iff)
    ultimately show ?thesis using Cons.IH [of "d\<lparr>d_Broker := ?b\<rparr>" cs1 d' cs' w'] by simp
  qed
qed simp

text \<open>An \<^verbatim>\<open>Unsubscribe\<close> takes away one pointer, and only from its own channel.\<close>

lemma Unsubscribe_subscribers:
  assumes "broker_ok b" "Broker_Unsubscribe b p = Some b'"
  shows "length (heap b') = length (heap b) \<and>
    subscribers b' ch = (if ch = sub_Channel (heap b ! p) then removeAll p (subscribers b ch)
                         else subscribers b ch)"
  using assms
proof (cases rule: Unsubscribe_cases)
  case 1
  then show ?thesis by (simp add: removeAll_id)
next
  case 2
  have "subscribers b' ch = (if ch = sub_Channel (heap b ! p) then removeAll p (subscribers b ch)
                         else subscribers b ch)"
    unfolding subscribers_def [of b'] 2(4) by (simp add: Let_def subscribers_def)
  with 2(2) show ?thesis by simp
qed

lemma unsubscribe_one_ok:
  assumes "broker_ok (d_Broker d)" "conn_ok (d_Broker d) cs"
  shows "\<exists>d' cs'. unsubscribe_one ch d cs = Some (d', cs') \<and>
    broker_ok (d_Broker d') \<and> conn_ok (d_Broker d') cs'"
proof (cases "map_of (c_Subs cs) ch")
  case None
  with assms show ?thesis by (simp add: unsubscribe_one_def)
next
  case (Some p)
  obtain b where b: "Broker_Unsubscribe (d_Broker d) p = Some b"
    using Unsubscribe_Some [OF assms(1)] by blast
  have p: "p \<in> set (subscribers (d_Broker d) ch)"
    using assms(2) Some by (auto simp: conn_ok_def)
  have "sub_Channel (heap (d_Broker d) ! p) = ch" using subscribers_ok [OF assms(1) p] by simp
  then have "conn_ok b (cs\<lparr>c_Subs := gm_del ch (c_Subs cs)\<rparr>)"
    using assms(2) Unsubscribe_subscribers [OF assms(1) b] by (auto simp: conn_ok_def gm_wf_del)
  with b Some broker_ok_Unsubscribe [OF assms(1) b] show ?thesis by (simp add: unsubscribe_one_def)
qed

lemma unsubscribe_loop_ok:
  "broker_ok (d_Broker d) \<Longrightarrow> conn_ok (d_Broker d) cs \<Longrightarrow>
    \<exists>d' cs' w. unsubscribe_loop chs d cs = Some (d', cs', w) \<and>
      broker_ok (d_Broker d') \<and> conn_ok (d_Broker d') cs'"
proof (induction chs arbitrary: d cs)
  case (Cons ch chs)
  obtain d1 cs1 where "unsubscribe_one ch d cs = Some (d1, cs1)"
    "broker_ok (d_Broker d1)" "conn_ok (d_Broker d1) cs1"
    using unsubscribe_one_ok [OF Cons.prems] by blast
  with Cons.IH [of d1 cs1] show ?case by (auto simp: unsubscribe_loop_Cons)
qed simp

lemma conn_ok_subs:
  "subs b' = subs b \<Longrightarrow> length (heap b') = length (heap b) \<Longrightarrow> conn_ok b' cs = conn_ok b cs"
  by (simp add: conn_ok_def subscribers_def)

text \<open>\<^verbatim>\<open>Execute\<close> keeps the invariant, and nothing in it panics.\<close>

lemma by_ops_broker: "d_Broker (fst (by_ops e d name args)) = d_Broker d"
  by (simp add: by_ops_def Let_def case_prod_unfold)

lemma data_handler_broker:
  assumes "data_handler e d (ToUpper (args ! 0)) args = Some r" shows "d_Broker (fst r) = d_Broker d"
proof (cases "ops_of (ToUpper (args ! 0)) args = []")
  case True
  then show ?thesis using data_handler_other assms by metis
next
  case False
  then show ?thesis using data_handler_ops assms by_ops_broker by (metis option.sel)
qed

lemma data_handler_typed:
  assumes "data_handler e d (ToUpper (args ! 0)) args = Some r" "typed (d_Store d)" "env_ok e"
  shows "typed (d_Store (fst r))"
proof (cases "ops_of (ToUpper (args ! 0)) args = []")
  case True
  then show ?thesis using data_handler_other assms by metis
next
  case False
  then have "r = by_ops e d (ToUpper (args ! 0)) args" using data_handler_ops assms by (metis option.sel)
  then show ?thesis using typed_run_list [OF assms(2,3)] ops_of_ok
    by (auto simp: by_ops_def Let_def case_prod_unfold)
qed

fun result_ok :: "exec_result \<Rightarrow> bool" where
  "result_ok None = False"
| "result_ok (Some (d, cs, w, err)) = (deps_ok d \<and> conn_ok (d_Broker d) cs)"

lemma Execute_ok:
  assumes "deps_ok d" "conn_ok (d_Broker d) cs" "env_ok e"
  shows "result_ok (Execute e d cs args)"
proof (cases "data_handler e d (ToUpper (args ! 0)) args")
  case (Some r)
  obtain d' w where r: "r = (d', w)" by (cases r)
  have "deps_ok d'" "d_Broker d' = d_Broker d"
    using data_handler_broker [OF Some] data_handler_typed [OF Some _ assms(3)] assms(1)
    by (auto simp: deps_ok_def r)
  with assms(1,2) Some show ?thesis unfolding Execute_def Let_def by (simp add: r)
next
  case None
  have ok: "typed (d_Store d)" "broker_ok (d_Broker d)" using assms(1) by (auto simp: deps_ok_def)
  obtain d0 cs0 w0 where l: "subscribe_loop (drop 1 args) d cs = (d0, cs0, w0)"
    by (cases "subscribe_loop (drop 1 args) d cs")
  have "deps_ok d0 \<and> conn_ok (d_Broker d0) cs0"
    using subscribe_loop_ok [OF l ok(2) assms(2)] subscribe_loop_frame [OF l] ok(1)
    by (simp add: deps_ok_def)
  then obtain d1 cs1 w1 where sub: "cmdSubscribe d cs args = (d1, cs1, w1)" "deps_ok d1"
    "conn_ok (d_Broker d1) cs1"
    using l assms(1,2) that by (cases "length args < 2") (simp_all add: cmdSubscribe_def)
  have loop: "\<exists>d' cs' w. unsubscribe_loop chs d cs = Some (d', cs', w) \<and> deps_ok d' \<and> conn_ok (d_Broker d') cs'"
    for chs
  proof -
    obtain d' cs' w where l: "unsubscribe_loop chs d cs = Some (d', cs', w)"
      "broker_ok (d_Broker d')" "conn_ok (d_Broker d') cs'"
      using unsubscribe_loop_ok [OF ok(2) assms(2)] by blast
    with unsubscribe_loop_frame [OF l(1)] ok(1) show ?thesis by (auto simp: deps_ok_def)
  qed
  have "\<exists>d' cs' w. cmdUnsubscribe e d cs args = Some (d', cs', w) \<and> deps_ok d' \<and> conn_ok (d_Broker d') cs'"
    using loop [of "drop 1 args"] loop [of "ord e (gm_keys (c_Subs cs))"] assms(1,2)
    by (simp add: cmdUnsubscribe_def Let_def)
  then obtain d2 cs2 w2 where unsub: "cmdUnsubscribe e d cs args = Some (d2, cs2, w2)"
    "deps_ok d2" "conn_ok (d_Broker d2) cs2" by blast
  obtain d3 w3 where pub: "cmdPublish e d args = Some (d3, w3)" "deps_ok d3" "conn_ok (d_Broker d3) cs"
  proof (cases "length args = 3")
    case True
    have "perm_order (sub_ord e)" using assms(3) by (simp add: env_ok_def)
    from Publish_result [OF ok(2) this, of "args ! 1" "args ! 2"]
    obtain b n where b: "Broker_Publish (sub_ord e) (d_Broker d) (args ! 1) (args ! 2) = Some (b, n)"
      "broker_ok b" "subs b = subs (d_Broker d)" "length (heap b) = length (heap (d_Broker d))"
      by blast
    moreover from conn_ok_subs [OF b(3,4)] have "conn_ok b cs" using assms(2) by blast
    ultimately show thesis using that ok(1) True by (simp add: cmdPublish_def deps_ok_def)
  next
    case False
    then show thesis using that assms(1,2) by (simp add: cmdPublish_def)
  qed
  show ?thesis unfolding Execute_def Let_def
    by (simp add: if_distrib [of result_ok] None sub unsub pub assms(1,2) split del: if_split cong: if_cong)
qed

end
