(* ===== verification/Command_Reads.thy ===== *)
theory Command_Reads
  imports Command_Spec
begin

text \<open>
  The commands that list keys, fields and values or tell a remaining time (\<^verbatim>\<open>KEYS\<close>,
  \<^verbatim>\<open>HGETALL\<close>, \<^verbatim>\<open>HKEYS\<close>, \<^verbatim>\<open>HVALS\<close>, \<^verbatim>\<open>TTL\<close>, \<^verbatim>\<open>PTTL\<close> of \<^verbatim>\<open>command/command.go\<close>): what they answer is
  determined up to the order of the elements, or depends on a second reading of the clock, \<open>delay\<close>
  after the first.
\<close>

definition read_at :: "duration \<Rightarrow> string list \<Rightarrow> store_op option" where
  "read_at delay args =
     (if length args \<noteq> 2 then None
      else
        let name = ToUpper (args ! 0); k = args ! 1
        in if name = ''KEYS'' then Some (OpKeys k)
           else if name = ''HGETALL'' then Some (OpHGetAll k)
           else if name = ''HKEYS'' then Some (OpHKeys k)
           else if name = ''HVALS'' then Some (OpHVals k)
           else if name = ''TTL'' \<or> name = ''PTTL'' then Some (OpTTL k delay)
           else None)"

definition read_op :: "env \<Rightarrow> string list \<Rightarrow> store_op option" where
  "read_op e args = read_at (clk e 1 - clk e 0) args"

definition ttl_unit :: "string list \<Rightarrow> duration" where
  "ttl_unit args = (if ToUpper (args ! 0) = ''PTTL'' then Millisecond else Second)"

text \<open>The replies that stand for a result: every element once, fields before their values.\<close>

primrec tells :: "duration \<Rightarrow> result \<Rightarrow> string set" where
  "tells u (RErr err) = {WriteError (error_msg err)}"
| "tells u (RSet S) = {WriteStringArray xs | xs. distinct xs \<and> set xs = S}"
| "tells u (RPairs P) =
     {WriteStringArray (concat (map (\<lambda>(f, v). [f, v]) ps)) | ps. distinct (map fst ps) \<and> set ps = P}"
| "tells u (RBag M) = {WriteStringArray xs | xs. mset xs = M}"
| "tells u (RTTL r) =
     (case r of (left, found, timed) \<Rightarrow>
        {WriteInteger (if \<not> found then -2 else if \<not> timed then -1 else go_quot left u)})"
| "tells u RNone = {}"
| "tells u (RBool b) = {}"
| "tells u (RInt n) = {}"
| "tells u (RStr v) = {}"
| "tells u (RKind k) = {}"
| "tells u (RList xs) = {}"

text \<open>The two ends of a hash that is read.\<close>

lemma read_hash_cases:
  assumes "typed s" "read_hash s now k [] f = Inr xs"
  shows "xs = [] \<or> (\<exists>h. gm_wf h \<and> xs = f h)"
  using assms(2) live_hash [OF assms(1), of k now] by (auto simp: read_hash_def split: option.splits if_splits)

lemma listed_keys:
  "typed s \<Longrightarrow> perm_order po \<Longrightarrow> WriteStringArray (Store_Keys po s now pat) \<in> tells u (RSet (set (Store_Keys po s now pat)))"
  using Keys_distinct by auto

lemma listed_hash:
  assumes "typed s" "perm_order po"
  shows "(case Store_HGetAll po s now k of Inl err \<Rightarrow> WriteError (error_msg err) | Inr xs \<Rightarrow> WriteStringArray xs)
      \<in> tells u (result_of (\<lambda>xs. RPairs (set (unflatten xs))) (Store_HGetAll po s now k))"
proof (cases "Store_HGetAll po s now k")
  case (Inr xs)
  then have "read_hash s now k [] (\<lambda>h. concat (map (\<lambda>(f, v). [f, v]) (gm_range po h))) = Inr xs"
    by (simp add: Store_HGetAll_def)
  from read_hash_cases [OF assms(1) this]
  obtain ps where ps: "xs = concat (map (\<lambda>(f, v). [f, v]) ps)" "distinct (map fst ps)"
  proof (elim disjE exE conjE)
    fix h assume h: "gm_wf h" and xs: "xs = concat (map (\<lambda>(f, v). [f, v]) (gm_range po h))"
    show ?thesis by (rule that [OF xs]) (use gm_range_wf [OF assms(2) h] in \<open>simp add: gm_wf_def\<close>)
  qed (use that [of "[]"] in simp)
  with Inr show ?thesis by (auto simp: unflatten_pairs)
qed simp

lemma listed_fields:
  assumes "typed s" "perm_order po"
  shows "(case Store_HKeys po s now k of Inl err \<Rightarrow> WriteError (error_msg err) | Inr xs \<Rightarrow> WriteStringArray xs)
      \<in> tells u (result_of (\<lambda>xs. RSet (set xs)) (Store_HKeys po s now k))"
proof (cases "Store_HKeys po s now k")
  case (Inr xs)
  then have "read_hash s now k [] (\<lambda>h. map fst (gm_range po h)) = Inr xs" by (simp add: Store_HKeys_def)
  from read_hash_cases [OF assms(1) this] have "distinct xs"
    using gm_range_wf [OF assms(2)] by (auto simp: gm_wf_def)
  with Inr show ?thesis by auto
qed simp

lemma reads_answered:
  assumes "typed (d_Store d)" "env_ok e" "\<not> InSubscribeMode cs" "read_op e args = Some op"
  shows "\<exists>w. Execute e d cs args = Some (d, cs, w, None) \<and>
    w \<in> tells (ttl_unit args) (snd (spec_op (clk e 0) op (view (d_Store d) (clk e 0))))"
proof -
  let ?s = "d_Store d" and ?now = "clk e 0" and ?name = "ToUpper (args ! 0)"
  have po: "perm_order (ord e)" and now: "clock_ok ?now" using assms(2) by (simp_all add: env_ok_def)
  have len: "length args = 2" using assms(4) by (auto simp: read_op_def read_at_def split: if_splits)
  have "op_ok op" using assms(4) by (auto simp: read_op_def read_at_def Let_def split: if_splits)
  from spec_run_op [OF assms(1) now po this]
  have spec: "snd (spec_op ?now op (view ?s ?now)) = snd (run_op (ord e) ?now op ?s)" by simp
  consider (keys) "?name = ''KEYS''" "op = OpKeys (args ! 1)"
    | (all) "?name = ''HGETALL''" "op = OpHGetAll (args ! 1)"
    | (fields) "?name = ''HKEYS''" "op = OpHKeys (args ! 1)"
    | (vals) "?name = ''HVALS''" "op = OpHVals (args ! 1)"
    | (ttl) "?name = ''TTL'' \<or> ?name = ''PTTL''" "op = OpTTL (args ! 1) (clk e 1 - clk e 0)"
    using assms(4) len by (auto simp: read_op_def read_at_def Let_def split: if_splits)
  then show ?thesis
  proof cases
    case keys
    with listed_keys [OF assms(1) po] assms(3) len show ?thesis unfolding spec
      by (simp add: Execute_def data_handler_def cmdKeys_def)
  next
    case all
    with listed_hash [OF assms(1) po] assms(3) len show ?thesis unfolding spec
      by (simp add: Execute_def data_handler_def cmdHGetAll_def)
  next
    case fields
    with listed_fields [OF assms(1) po] assms(3) len show ?thesis unfolding spec
      by (simp add: Execute_def data_handler_def cmdHCollection_def)
  next
    case vals
    with assms(3) len show ?thesis unfolding spec
      by (cases "Store_HVals (ord e) ?s ?now (args ! 1)") (auto simp: Execute_def data_handler_def cmdHCollection_def)
  next
    case ttl
    with assms(3) len show ?thesis unfolding spec
      by (auto simp: Execute_def data_handler_def cmdTTL_def ttl_unit_def split: prod.split)
  qed
qed

end
