(* ===== verification/Set_Options.thy ===== *)
theory Set_Options
  imports Command
begin

text \<open>
  The grammar of the options of \<^verbatim>\<open>SET\<close>: \<^verbatim>\<open>parseSetOpts\<close> (\<^verbatim>\<open>internal/command/helpers.go\<close>)
  accepts a list of options just when each is well formed, at most one of them gives a time to
  live, and \<^verbatim>\<open>NX\<close> and \<^verbatim>\<open>XX\<close> do not both occur.
\<close>

datatype set_opt = TTLOpt duration | NXOpt | XXOpt

text \<open>The options one by one, without regard to the others.\<close>

fun set_tokens :: "string list \<Rightarrow> set_opt list option" where
  "set_tokens [] = Some []"
| "set_tokens (opt # opts) =
     (if ToUpper opt = ''NX'' then map_option (Cons NXOpt) (set_tokens opts)
      else if ToUpper opt = ''XX'' then map_option (Cons XXOpt) (set_tokens opts)
      else if ToUpper opt = ''EX'' \<or> ToUpper opt = ''PX'' then
        (case opts of
           [] \<Rightarrow> None
         | arg # rest \<Rightarrow>
             (case Atoi arg of
                None \<Rightarrow> None
              | Some n \<Rightarrow>
                  if n \<le> 0 then None
                  else map_option (Cons (TTLOpt (wrap64
                    (n * (if ToUpper opt = ''EX'' then Second else Millisecond))))) (set_tokens rest)))
      else None)"

fun ttls :: "set_opt list \<Rightarrow> duration list" where
  "ttls [] = []"
| "ttls (TTLOpt t # os) = t # ttls os"
| "ttls (_ # os) = ttls os"

definition compatible :: "set_opt list \<Rightarrow> bool" where
  "compatible os \<longleftrightarrow> length (ttls os) \<le> 1 \<and> \<not> (NXOpt \<in> set os \<and> XXOpt \<in> set os)"

definition last_or :: "'a \<Rightarrow> 'a list \<Rightarrow> 'a" where
  "last_or x xs = (if xs = [] then x else last xs)"

lemma set_opts_loop_tokens:
  "\<not> (nx \<and> xx) \<Longrightarrow> set_opts_loop opts have_ttl ttl nx xx =
    (case set_tokens opts of
       None \<Rightarrow> None
     | Some os \<Rightarrow>
         if length (ttls os) \<le> (if have_ttl then 0 else 1) \<and>
            \<not> ((nx \<or> NXOpt \<in> set os) \<and> (xx \<or> XXOpt \<in> set os))
         then Some (last_or ttl (ttls os), nx \<or> NXOpt \<in> set os, xx \<or> XXOpt \<in> set os)
         else None)"
proof (induction opts have_ttl ttl nx xx rule: set_opts_loop.induct)
  case (1 have_ttl ttl nx xx)
  then show ?case by (simp add: last_or_def)
next
  case (2 opt opts have_ttl ttl nx xx)
  consider (ttl) "ToUpper opt = ''EX'' \<or> ToUpper opt = ''PX''" | (nx) "ToUpper opt = ''NX''"
    | (xx) "ToUpper opt = ''XX''"
    | (bad) "ToUpper opt \<notin> {''EX'', ''PX'', ''NX'', ''XX''}" by auto
  then show ?case
  proof cases
    case ttl
    then have other: "ToUpper opt \<noteq> ''NX''" "ToUpper opt \<noteq> ''XX''" by auto
    show ?thesis
    proof (cases opts)
      case Nil
      with ttl other show ?thesis by simp
    next
      case (Cons arg rest)
      show ?thesis
      proof (cases "have_ttl \<or> parsePositiveInt arg = None \<or> the (parsePositiveInt arg) \<le> 0")
        case True
        with ttl other Cons show ?thesis
          by (auto simp: parsePositiveInt_def split: option.splits if_splits)
      next
        case False
        then obtain n where n: "Atoi arg = Some n" "n > 0" "\<not> have_ttl"
          by (auto simp: parsePositiveInt_def split: option.splits if_splits)
        then have pos: "parsePositiveInt arg = Some n" by (simp add: parsePositiveInt_def)
        from 2(1) [OF ttl Cons n(3) pos] n(2) 2(4) ttl other Cons pos n show ?thesis
          by (auto simp: last_or_def split: option.splits)
      qed
    qed
  next
    case nx
    with 2(2) 2(4) show ?thesis by (auto split: option.splits)
  next
    case xx
    with 2(3) 2(4) show ?thesis by (auto split: option.splits)
  next
    case bad
    then show ?thesis by simp
  qed
qed

lemma parseSetOpts_grammar:
  "parseSetOpts opts =
    (case set_tokens opts of
       None \<Rightarrow> None
     | Some os \<Rightarrow>
         if compatible os then Some (last_or 0 (ttls os), NXOpt \<in> set os, XXOpt \<in> set os) else None)"
  by (auto simp: parseSetOpts_def set_opts_loop_tokens compatible_def split: option.split)

end
