(* ===== verification/Aof.thy ===== *)
theory Aof
  imports Resp Store_Types
begin

text \<open>
  The append-only log (\<^verbatim>\<open>internal/aof/aof.go\<close>, \<^verbatim>\<open>internal/aof/helpers.go\<close>): the buffered
  file writer, the single writer goroutine fed by a channel, the compaction of the log and its
  replay. The goroutines are the rules of a step relation; the main results are that the file
  always holds a prefix of what was accepted, so that a crash loses a suffix of the history and
  nothing else, and that replay applies exactly the commands that the file holds whole.
\<close>

section \<open>The buffered file writer\<close>

text \<open>
  \<^verbatim>\<open>bufio.NewWriter(f)\<close> over an \<^verbatim>\<open>*os.File\<close> opened with \<^verbatim>\<open>O_APPEND\<close>: a buffer of 4096
  bytes and a sticky error. A write to an open file succeeds, a write to a closed one fails.
\<close>

definition bufio_size :: nat where "bufio_size = 4096"

record filew =
  wfile :: string   \<comment> \<open>the bytes of the file\<close>
  wopen :: bool
  wbuf :: string    \<comment> \<open>\<^verbatim>\<open>b.buf[0:b.n]\<close>\<close>
  werr :: bool      \<comment> \<open>\<^verbatim>\<open>b.err != nil\<close>\<close>

definition NewFileWriter :: "string \<Rightarrow> filew" where
  "NewFileWriter content = \<lparr>wfile = content, wopen = True, wbuf = [], werr = False\<rparr>"

definition file_write :: "filew \<Rightarrow> string \<Rightarrow> filew" where
  "file_write w p = (if wopen w then w\<lparr>wfile := wfile w @ p\<rparr> else w\<lparr>werr := True\<rparr>)"

definition Flush :: "filew \<Rightarrow> filew" where
  "Flush w =
     (if werr w \<or> wbuf w = [] then w
      else let w' = file_write w (wbuf w) in if werr w' then w' else w'\<lparr>wbuf := []\<rparr>)"

text \<open>
  \<^verbatim>\<open>Writer.Write\<close>: while \<open>p\<close> does not fit, the buffer is filled and flushed, or, when the
  buffer is empty, \<open>p\<close> goes to the file directly; the loop has at most two rounds.
\<close>

definition write_empty :: "filew \<Rightarrow> string \<Rightarrow> filew" where
  "write_empty w p =
     (if werr w then w
      else if length p \<le> bufio_size then w\<lparr>wbuf := p\<rparr>
      else file_write w p)"

definition bufio_Write :: "filew \<Rightarrow> string \<Rightarrow> filew" where
  "bufio_Write w p =
     (if werr w then w
      else if length p \<le> bufio_size - length (wbuf w) then w\<lparr>wbuf := wbuf w @ p\<rparr>
      else if wbuf w = [] then file_write w p
      else
        let avail = bufio_size - length (wbuf w);
            w' = Flush (w\<lparr>wbuf := wbuf w @ take avail p\<rparr>)
        in write_empty w' (drop avail p))"

text \<open>\<^verbatim>\<open>writeCommand\<close>: one formatted write for the header and one per argument.\<close>

definition writeCommand :: "filew \<Rightarrow> string list \<Rightarrow> filew" where
  "writeCommand w args =
     fold (\<lambda>a w. bufio_Write w (''$'' @ FormatInt (int (length a)) @ CRLF @ a @ CRLF)) args
       (bufio_Write w (''*'' @ FormatInt (int (length args)) @ CRLF))"

text \<open>A writer in good standing, and the bytes it stands for.\<close>

definition writer_ok :: "filew \<Rightarrow> bool" where
  "writer_ok w \<longleftrightarrow> wopen w \<and> \<not> werr w \<and> length (wbuf w) \<le> bufio_size"

definition written :: "filew \<Rightarrow> string" where
  "written w = wfile w @ wbuf w"

lemma Flush_ok [simp]:
  assumes "writer_ok w"
  shows "writer_ok (Flush w)" "wfile (Flush w) = written w" "wbuf (Flush w) = []"
  using assms by (auto simp: writer_ok_def Flush_def file_write_def written_def Let_def)

lemma written_Flush [simp]: "writer_ok w \<Longrightarrow> written (Flush w) = written w"
  by (simp add: written_def [of "Flush w"])

lemma bufio_Write_ok:
  "writer_ok w \<Longrightarrow> writer_ok (bufio_Write w p) \<and> written (bufio_Write w p) = written w @ p"
  by (auto simp: writer_ok_def written_def bufio_Write_def write_empty_def Flush_def file_write_def Let_def)

text \<open>Spilling and buffering do not show: a command adds its RESP encoding to what is written.\<close>

lemma bufio_Write_all:
  "writer_ok w \<Longrightarrow> writer_ok (fold (\<lambda>a w. bufio_Write w (f a)) xs w) \<and>
    written (fold (\<lambda>a w. bufio_Write w (f a)) xs w) = written w @ concat (map f xs)"
  by (induction xs arbitrary: w) (auto simp: bufio_Write_ok)

lemma writeCommand_ok:
  "writer_ok w \<Longrightarrow> writer_ok (writeCommand w args) \<and>
    written (writeCommand w args) = written w @ WriteStringArray args"
  unfolding writeCommand_def WriteStringArray_def WriteArrayHeader_def WriteBulkString_def
  using bufio_Write_ok [of w] by (simp add: bufio_Write_all)

text \<open>After an error nothing that is written reaches the file.\<close>

lemma bufio_Write_err: "werr w \<Longrightarrow> bufio_Write w p = w"
  by (simp add: bufio_Write_def)

lemma Flush_err: "werr w \<Longrightarrow> Flush w = w"
  by (simp add: Flush_def)

lemma wfile_grows_fold: "(\<And>a w. prefix (wfile w) (wfile (f a w))) \<Longrightarrow> prefix (wfile w) (wfile (fold f xs w))"
  by (induction xs arbitrary: w) (auto intro: prefix_order.trans)

lemma wfile_grows:
  "prefix (wfile w) (wfile (Flush w))" "prefix (wfile w) (wfile (bufio_Write w p))"
proof -
  show flush: "prefix (wfile w) (wfile (Flush w))" for w
    by (simp add: Flush_def file_write_def Let_def)
  show "prefix (wfile w) (wfile (bufio_Write w p))"
    using flush [of "w\<lparr>wbuf := wbuf w @ take (bufio_size - length (wbuf w)) p\<rparr>"]
    by (auto simp: bufio_Write_def write_empty_def file_write_def Let_def intro: prefix_prefix)
qed

section \<open>The log\<close>

definition ch_cap :: nat where "ch_cap = 1024"

text \<open>
  \<open>l_cur\<close> is the command the writer goroutine has received and not yet written. While
  \<^verbatim>\<open>l.f\<close> is open it is the file at \<^verbatim>\<open>l.path\<close>; after \<^verbatim>\<open>Rewrite\<close> failed between the
  close and the reopening, \<^verbatim>\<open>wfile\<close> stands for the file at the path.
\<close>

record Log =
  l_ch :: "string list list"
  l_closed :: bool      \<comment> \<open>\<^verbatim>\<open>close(l.ch)\<close> has run\<close>
  l_done :: bool        \<comment> \<open>the writer goroutine has exited\<close>
  l_cur :: "string list option"
  l_w :: filew

definition Log_Open :: "string \<Rightarrow> Log" where
  "Log_Open content =
     \<lparr>l_ch = [], l_closed = False, l_done = False, l_cur = None, l_w = NewFileWriter content\<rparr>"

datatype 'a chan_result = Done 'a | Blocked | Panic

definition Log_Append :: "Log \<Rightarrow> string list \<Rightarrow> Log chan_result" where
  "Log_Append l args =
     (if l_closed l then Panic
      else if length (l_ch l) < ch_cap then Done (l\<lparr>l_ch := l_ch l @ [args]\<rparr>)
      else Blocked)"

text \<open>
  \<^verbatim>\<open>writeLoop\<close>, one round of its loop as two atomic parts (the receive, and the body under
  \<^verbatim>\<open>l.mu\<close>), and what follows the loop. \<open>None\<close>: the part is not the next one to run.
\<close>

definition writer_receive :: "Log \<Rightarrow> Log option" where
  "writer_receive l =
     (if l_done l \<or> l_cur l \<noteq> None then None
      else case l_ch l of [] \<Rightarrow> None | cmd # cs \<Rightarrow> Some (l\<lparr>l_ch := cs, l_cur := Some cmd\<rparr>))"

definition writer_body :: "Log \<Rightarrow> Log option" where
  "writer_body l =
     (case l_cur l of
        None \<Rightarrow> None
      | Some cmd \<Rightarrow>
          let w = writeCommand (l_w l) cmd;
              w = (if length (l_ch l) = 0 then Flush w else w)
          in Some (l\<lparr>l_w := w, l_cur := None\<rparr>))"

definition writer_exit :: "Log \<Rightarrow> Log option" where
  "writer_exit l =
     (if l_done l \<or> \<not> l_closed l \<or> l_cur l \<noteq> None \<or> l_ch l \<noteq> [] then None
      else Some (l\<lparr>l_w := Flush (l_w l), l_done := True\<rparr>))"

text \<open>\<^verbatim>\<open>Close\<close>: the close of the channel, and, once the writer has exited, of the file.\<close>

definition Close_begin :: "Log \<Rightarrow> Log chan_result" where
  "Close_begin l = (if l_closed l then Panic else Done (l\<lparr>l_closed := True\<rparr>))"

definition Close_end :: "Log \<Rightarrow> Log chan_result" where
  "Close_end l =
     (if \<not> l_done l then Blocked else Done (l\<lparr>l_w := (l_w l)\<lparr>wopen := False\<rparr>\<rparr>))"

text \<open>\<^verbatim>\<open>Size\<close>; \<^verbatim>\<open>Stat\<close> fails on a closed file.\<close>

definition Log_Size :: "Log \<Rightarrow> Log \<times> int" where
  "Log_Size l =
     (let w = Flush (l_w l)
      in (l\<lparr>l_w := w\<rparr>, if wopen w then int (length (wfile w)) else 0))"

section \<open>Compaction\<close>

definition msUntil :: "time \<Rightarrow> time \<Rightarrow> int" where
  "msUntil now t =
     (let d = time_Sub t now in if d < 0 then 0 else d div Millisecond)"

definition snapshotCommands ::
    "(string list \<Rightarrow> string list) \<Rightarrow> time \<Rightarrow> Snapshot \<Rightarrow> string list list" where
  "snapshotCommands ord now s =
     (let cmds = (case snap_Kind s of
          KindString \<Rightarrow> [[''SET'', snap_Key s, snap_Str s]]
        | KindHash \<Rightarrow>
            (if length (snap_Hash s) > 0
             then [[''HSET'', snap_Key s] @ concat (map (\<lambda>(f, v). [f, v]) (gm_range ord (snap_Hash s)))]
             else [])
        | KindList \<Rightarrow>
            (if length (snap_List s) > 0 then [[''RPUSH'', snap_Key s] @ snap_List s] else [])
        | KindNone \<Rightarrow> [])
      in if \<not> IsZero (snap_ExpiresAt s) \<and> length cmds > 0
         then let ms = msUntil now (snap_ExpiresAt s)
              in if ms > 0 then cmds @ [[''PEXPIRE'', snap_Key s, FormatInt ms]] else cmds
         else cmds)"

text \<open>The commands \<^verbatim>\<open>Rewrite\<close> writes; \<open>clk i\<close> is the clock while the i-th snapshot is written.\<close>

definition rewrite_commands ::
    "(string list \<Rightarrow> string list) \<Rightarrow> (nat \<Rightarrow> time) \<Rightarrow> Snapshot list \<Rightarrow> string list list" where
  "rewrite_commands ord clk snap =
     concat (map (\<lambda>(i, s). snapshotCommands ord (clk i) s) (enumerate 0 snap))"

text \<open>
  The failures \<^verbatim>\<open>Rewrite\<close> handles: of \<^verbatim>\<open>os.Create\<close>, of the flush or close of the temporary
  file, of \<^verbatim>\<open>os.Rename\<close>, of the reopening.
\<close>

datatype io_fault = CreateFails | TmpFails | RenameFails | ReopenFails

definition tmp_file :: "string list list \<Rightarrow> filew" where
  "tmp_file cmds = Flush (fold (\<lambda>cmd w. writeCommand w cmd) cmds (NewFileWriter []))"

definition Rewrite :: "io_fault option \<Rightarrow> string list list \<Rightarrow> Log \<Rightarrow> Log \<times> io_fault option" where
  "Rewrite fault cmds l =
     (if fault = Some CreateFails \<or> fault = Some TmpFails then (l, fault)
      else
        let tmp = wfile (tmp_file cmds);
            w = (Flush (l_w l))\<lparr>wopen := False\<rparr>
        in if fault = Some RenameFails then (l\<lparr>l_w := w\<rparr>, fault)
           else if fault = Some ReopenFails then (l\<lparr>l_w := w\<lparr>wfile := tmp\<rparr>\<rparr>, fault)
           else (l\<lparr>l_w := NewFileWriter tmp\<rparr>, None))"

lemma writeCommands_ok:
  "writer_ok w \<Longrightarrow> writer_ok (fold (\<lambda>cmd w. writeCommand w cmd) cmds w) \<and>
    written (fold (\<lambda>cmd w. writeCommand w cmd) cmds w) = written w @ concat (map WriteStringArray cmds)"
  by (induction cmds arbitrary: w) (auto simp: writeCommand_ok)

lemma NewFileWriter_ok [simp]:
  "writer_ok (NewFileWriter c)" "written (NewFileWriter c) = c" "wbuf (NewFileWriter c) = []"
  "wfile (NewFileWriter c) = c"
  by (simp_all add: writer_ok_def NewFileWriter_def written_def)

lemma tmp_file_content: "wfile (tmp_file cmds) = concat (map WriteStringArray cmds)"
  using writeCommands_ok [of "NewFileWriter []" cmds] by (simp add: tmp_file_def)

section \<open>The goroutines\<close>

text \<open>
  The log with two ghosts: what the file held when it was opened or last replaced, and the
  commands accepted since then, in the order of their sends. Each rule is a region no other
  goroutine can divide; \<open>rewrite\<close> is the swap under \<^verbatim>\<open>l.mu\<close>, whatever the compacted file
  holds.
\<close>

record logsys =
  lg :: Log
  base :: string
  hist :: "string list list"

definition log_init :: "logsys \<Rightarrow> bool" where
  "log_init s \<longleftrightarrow> lg s = Log_Open (base s) \<and> hist s = []"

definition pending :: "Log \<Rightarrow> string list list" where
  "pending l = (case l_cur l of None \<Rightarrow> [] | Some c \<Rightarrow> [c]) @ l_ch l"

abbreviation enc_all :: "string list list \<Rightarrow> string" where
  "enc_all cmds \<equiv> concat (map WriteStringArray cmds)"

inductive log_step :: "logsys \<Rightarrow> logsys \<Rightarrow> bool" where
  append: "Log_Append (lg s) args = Done l \<Longrightarrow> log_step s (s\<lparr>lg := l, hist := hist s @ [args]\<rparr>)"
| receive: "writer_receive (lg s) = Some l \<Longrightarrow> log_step s (s\<lparr>lg := l\<rparr>)"
| body: "writer_body (lg s) = Some l \<Longrightarrow> log_step s (s\<lparr>lg := l\<rparr>)"
| exit: "writer_exit (lg s) = Some l \<Longrightarrow> log_step s (s\<lparr>lg := l\<rparr>)"
| close_begin: "Close_begin (lg s) = Done l \<Longrightarrow> log_step s (s\<lparr>lg := l\<rparr>)"
| close_end: "Close_end (lg s) = Done l \<Longrightarrow> log_step s (s\<lparr>lg := l\<rparr>)"
| size: "log_step s (s\<lparr>lg := fst (Log_Size (lg s))\<rparr>)"
| rewrite: "wopen (l_w (lg s)) \<Longrightarrow> Rewrite None cmds (lg s) = (l, None) \<Longrightarrow>
    log_step s \<lparr>lg = l, base = enc_all cmds, hist = pending (lg s)\<rparr>"

inductive_cases log_stepE: "log_step s t"

definition log_good :: "logsys \<Rightarrow> bool" where
  "log_good s \<longleftrightarrow>
     (let l = lg s; w = l_w l in
        length (l_ch l) \<le> ch_cap \<and> length (wbuf w) \<le> bufio_size \<and> \<not> werr w \<and>
        (wopen w \<or> l_done l) \<and>
        (l_done l \<longrightarrow> l_closed l \<and> pending l = []) \<and>
        (pending l = [] \<longrightarrow> wbuf w = []) \<and>
        prefix (base s) (wfile w) \<and>
        written w @ enc_all (pending l) = base s @ enc_all (hist s))"

lemma writer_ok_iff: "writer_ok w \<longleftrightarrow> wopen w \<and> \<not> werr w \<and> length (wbuf w) \<le> bufio_size"
  by (simp add: writer_ok_def)

lemma writeCommand_grows: "prefix (wfile w) (wfile (writeCommand w args))"
  unfolding writeCommand_def
  by (rule prefix_order.trans [OF wfile_grows(2) wfile_grows_fold]) (rule wfile_grows(2))

lemma pending_simps [simp]:
  "pending (l\<lparr>l_w := w\<rparr>) = pending l"
  "pending (l\<lparr>l_closed := b\<rparr>) = pending l"
  "pending (l\<lparr>l_done := b\<rparr>) = pending l"
  "pending (l\<lparr>l_ch := l_ch l @ [c]\<rparr>) = pending l @ [c]"
  "pending (l\<lparr>l_cur := None\<rparr>) = l_ch l"
  by (simp_all add: pending_def)

lemma pending_Nil: "pending l = [] \<longleftrightarrow> l_cur l = None \<and> l_ch l = []"
  by (auto simp: pending_def split: option.splits)

interpretation aof: transition_invariant log_init log_step log_good
proof
  show "log_init s \<Longrightarrow> log_good s" for s
    by (simp add: log_init_def log_good_def Log_Open_def NewFileWriter_def written_def pending_def)
next
  fix s t assume good: "log_good s" and "log_step s t"
  let ?l = "lg s"
  from \<open>log_step s t\<close> show "log_good t"
  proof cases
    case (append args l)
    with good show ?thesis
      by (auto simp: log_good_def Let_def Log_Append_def split: if_splits)
  next
    case (receive l)
    with good show ?thesis
      by (auto simp: log_good_def Let_def writer_receive_def pending_def split: if_splits list.splits)
  next
    case (body l)
    then obtain cmd where cmd: "l_cur ?l = Some cmd"
      and l: "l = ?l\<lparr>l_w := (if l_ch ?l = [] then Flush (writeCommand (l_w ?l) cmd) else writeCommand (l_w ?l) cmd), l_cur := None\<rparr>"
      by (auto simp: writer_body_def Let_def split: option.splits)
    have w: "writer_ok (l_w ?l)" "\<not> l_done ?l"
      using good cmd by (auto simp: log_good_def Let_def writer_ok_iff pending_def)
    have pend: "enc_all (pending ?l) = WriteStringArray cmd @ enc_all (l_ch ?l)" "pending ?l \<noteq> []"
      by (simp_all add: pending_def cmd)
    note wc = writeCommand_ok [OF w(1), of cmd]
    show ?thesis
    proof (cases "l_ch ?l = []")
      case True
      have "prefix (base s) (wfile (Flush (writeCommand (l_w ?l) cmd)))"
        using good writeCommand_grows wfile_grows(1)
        by (meson log_good_def prefix_order.trans)
      with True good wc Flush_ok(1) [OF conjunct1 [OF wc]] w pend show ?thesis
        by (auto simp: log_good_def Let_def body(1) l writer_ok_iff pending_def)
    next
      case False
      have "prefix (base s) (wfile (writeCommand (l_w ?l) cmd))"
        using good writeCommand_grows by (meson log_good_def prefix_order.trans)
      with False good wc w pend show ?thesis
        by (auto simp: log_good_def Let_def body(1) l writer_ok_iff pending_def)
    qed
  next
    case (exit l)
    with good show ?thesis
      by (auto simp: log_good_def Let_def writer_exit_def pending_Nil Flush_def split: if_splits)
  next
    case (close_begin l)
    with good show ?thesis
      by (auto simp: log_good_def Let_def Close_begin_def split: if_splits)
  next
    case (close_end l)
    with good show ?thesis
      by (auto simp: log_good_def Let_def Close_end_def written_def split: if_splits)
  next
    case size
    have "written (Flush w) = written w \<and> writer_ok (Flush w) \<and> wbuf (Flush w) = []"
      if "writer_ok w" for w using that by simp
    moreover have "Flush w = w" if "wbuf w = []" for w using that by (simp add: Flush_def)
    ultimately have "log_good (s\<lparr>lg := ?l\<lparr>l_w := Flush (l_w ?l)\<rparr>\<rparr>)"
      using good wfile_grows(1) [of "l_w ?l"] unfolding log_good_def Let_def writer_ok_iff
      by (cases "wopen (l_w ?l)") (auto intro: prefix_order.trans)
    then show ?thesis by (simp add: size Log_Size_def Let_def)
  next
    case (rewrite cmds l)
    with good show ?thesis
      by (auto simp: log_good_def Let_def Rewrite_def tmp_file_content NewFileWriter_def written_def pending_def)
  qed
qed
lemma log_good_file:
  assumes "log_good s"
  shows "\<exists>p. wfile (l_w (lg s)) = base s @ p \<and> prefix p (enc_all (hist s))"
proof -
  obtain p where p: "wfile (l_w (lg s)) = base s @ p"
    using assms by (auto simp: log_good_def Let_def prefix_def)
  with assms have "p @ wbuf (l_w (lg s)) @ enc_all (pending (lg s)) = enc_all (hist s)"
    by (auto simp: log_good_def Let_def written_def)
  then have "prefix p (enc_all (hist s))" by (rule prefixI [OF sym])
  with p show ?thesis by blast
qed

text \<open>Whenever nothing is queued, all that was accepted is in the file.\<close>

lemma log_good_drained:
  "log_good s \<Longrightarrow> pending (lg s) = [] \<Longrightarrow> wfile (l_w (lg s)) = base s @ enc_all (hist s)"
  by (auto simp: log_good_def Let_def written_def)

lemma reads_enc_all:
  assumes "\<forall>c\<in>set cmds. command_fits c"
  shows "\<exists>err. reads_all ReadCommand (enc_all cmds) cmds err \<and> at_end err"
proof -
  obtain err where "ReadCommand [] = Inl err" "at_end err" using commands.dec_Nil by blast
  with commands.reads_encoded [OF assms, of "[]" "[]" err] show ?thesis by (auto intro: reads_all.stop)
qed

text \<open>
  A crash leaves the file with all its old commands and a prefix of the new ones, from which a
  reader delivers whole commands only.
\<close>

lemma log_good_crash:
  assumes "log_good s" "base s = enc_all cmds" "\<forall>c\<in>set (cmds @ hist s). command_fits c"
  shows "\<exists>k e. reads_all ReadCommand (wfile (l_w (lg s))) (cmds @ take k (hist s)) e \<and> at_end e"
proof -
  obtain p where p: "wfile (l_w (lg s)) = enc_all cmds @ p" "prefix p (enc_all (hist s))"
    using log_good_file [OF assms(1)] assms(2) by auto
  obtain k e where "reads_all ReadCommand p (take k (hist s)) e" "at_end e"
    using commands.reads_torn [OF _ p(2)] assms(3) by auto
  then show ?thesis using commands.reads_encoded [of cmds p] assms(3) p(1) by auto
qed

section \<open>Replay\<close>

datatype 'e replay_result = ReplayOk | ReplayErr 'e | ReplayPanic

datatype 'e opened = NotExist | OpenError 'e | Content string

text \<open>The loop of \<^verbatim>\<open>Replay\<close>; \<open>apply\<close> acts on a state and may fail.\<close>

function replay_loop ::
    "(string list \<Rightarrow> 'd \<Rightarrow> 'd \<times> 'e option) \<Rightarrow> string \<Rightarrow> 'd \<Rightarrow> 'd \<times> 'e replay_result" where
  "replay_loop apply s d =
     (case ReadCommand s of
        Inl e \<Rightarrow> (d, if e = MakePanic then ReplayPanic else ReplayOk)
      | Inr (args, r) \<Rightarrow>
          if length args = 0 then replay_loop apply r d
          else (case apply args d of
              (d', Some err) \<Rightarrow> (d', ReplayErr err)
            | (d', None) \<Rightarrow> replay_loop apply r d'))"
  by pat_completeness auto
termination
  by (relation "measure (\<lambda>(apply, s, d). length s)") (auto dest: ReadCommand_length)

declare replay_loop.simps [simp del]

definition Replay ::
    "'e opened \<Rightarrow> (string list \<Rightarrow> 'd \<Rightarrow> 'd \<times> 'e option) \<Rightarrow> 'd \<Rightarrow> 'd \<times> 'e replay_result" where
  "Replay f apply d =
     (case f of
        NotExist \<Rightarrow> (d, ReplayOk)
      | OpenError err \<Rightarrow> (d, ReplayErr err)
      | Content bytes \<Rightarrow> replay_loop apply bytes d)"

text \<open>Applying a list of commands until the first error.\<close>

fun apply_all :: "(string list \<Rightarrow> 'd \<Rightarrow> 'd \<times> 'e option) \<Rightarrow> string list list \<Rightarrow> 'd \<Rightarrow> 'd \<times> 'e option" where
  "apply_all apply [] d = (d, None)"
| "apply_all apply (c # cs) d =
     (if c = [] then apply_all apply cs d
      else case apply c d of (d', Some err) \<Rightarrow> (d', Some err) | (d', None) \<Rightarrow> apply_all apply cs d')"

lemma replay_loop_reads:
  assumes "reads_all ReadCommand s cmds e"
  shows "replay_loop apply s d =
    (case apply_all apply cmds d of
       (d', Some err) \<Rightarrow> (d', ReplayErr err)
     | (d', None) \<Rightarrow> (d', if e = MakePanic then ReplayPanic else ReplayOk))"
  using assms
proof (induction arbitrary: d rule: reads_all.induct)
  case (stop s e)
  then show ?case by (subst replay_loop.simps) simp
next
  case (more s x r xs e)
  then show ?case by (subst replay_loop.simps) (auto split: prod.splits option.splits)
qed

section \<open>A closed file\<close>

lemma closed_file_frozen:
  assumes "\<not> wopen w"
  shows "wfile (Flush (fold (\<lambda>c w. writeCommand w c) cs w)) = wfile w"
proof -
  have flush: "\<not> wopen (Flush w) \<and> wfile (Flush w) = wfile w" if "\<not> wopen w" for w
    using that by (simp add: Flush_def file_write_def Let_def)
  have bw: "\<not> wopen (bufio_Write w p) \<and> wfile (bufio_Write w p) = wfile w" if "\<not> wopen w" for w p
    using that flush [of "w\<lparr>wbuf := wbuf w @ take (bufio_size - length (wbuf w)) p\<rparr>"]
    by (simp add: bufio_Write_def write_empty_def file_write_def Let_def)
  have all: "\<not> wopen (fold g xs w) \<and> wfile (fold g xs w) = wfile w"
    if "\<not> wopen w" "\<And>x w. \<not> wopen w \<Longrightarrow> \<not> wopen (g x w) \<and> wfile (g x w) = wfile w" for g xs w
    using that by (induction xs arbitrary: w) auto
  have "\<not> wopen (writeCommand w c) \<and> wfile (writeCommand w c) = wfile w" if "\<not> wopen w" for w c
    unfolding writeCommand_def using all [OF conjunct1 [OF bw [OF that]] bw] bw [OF that] by simp
  with all [OF assms, of "\<lambda>c w. writeCommand w c" cs] flush show ?thesis by metis
qed

end
