(* ===== verification/Command_Log.thy ===== *)
theory Command_Log
  imports Command_Spec Aof
begin

text \<open>
  The log as a description of the data. For data without deadlines, the commands that
  \<^verbatim>\<open>Execute\<close> hands to the log rebuild the data set when they are executed again, whatever the
  shard count, the clock and the map order then are.
\<close>

section \<open>Data without deadlines\<close>

definition permanent :: "db \<Rightarrow> bool" where
  "permanent db \<longleftrightarrow> (\<forall>k v t. db k = Some (v, t) \<longrightarrow> t = 0)"

definition permanent_op :: "store_op \<Rightarrow> bool" where
  "permanent_op op =
     (case op of
        OpSet _ _ ttl \<Rightarrow> ttl \<le> 0
      | OpSetNX _ _ ttl \<Rightarrow> ttl \<le> 0
      | OpSetXX _ _ ttl \<Rightarrow> ttl \<le> 0
      | OpExpire _ _ \<Rightarrow> False
      | OpTTL _ _ \<Rightarrow> False
      | _ \<Rightarrow> True)"

definition ttl_free :: "string list \<Rightarrow> bool" where
  "ttl_free args \<longleftrightarrow> (\<forall>op\<in>set (cmd_ops args). permanent_op op)"

lemma permanent_empty [simp]: "permanent Map.empty"
  by (simp add: permanent_def)

lemma permanent_upd [simp]:
  "permanent db \<Longrightarrow> permanent (db(k \<mapsto> (v, 0)))" "permanent db \<Longrightarrow> permanent (db(k := None))"
  by (simp_all add: permanent_def)

lemma permanentD: "permanent db \<Longrightarrow> db k = Some (v, t) \<Longrightarrow> t = 0"
  by (simp add: permanent_def)

lemma permanent_keep: "permanent db \<Longrightarrow> db k = Some (v, t) \<Longrightarrow> permanent (db(k \<mapsto> (v', t)))"
  using permanentD [of db k v t] by (simp add: permanent_def)

lemma age_permanent [simp]: "permanent db \<Longrightarrow> age t db = db"
  by (auto simp: age_def fun_eq_iff split: option.splits dest: permanentD)

lemma permanent_change:
  "permanent db \<Longrightarrow> permanent (fst (change proj fresh db k f))"
  by (auto simp: change_def split: option.splits intro: permanent_keep)

lemma spec_permanent:
  assumes "permanent db" "permanent_op op" shows "permanent (fst (spec_op now op db))"
proof (cases op)
  case (OpGetSet k v)
  with assms show ?thesis by (auto simp: ask_def split: option.splits result.splits)
next
  case (OpIncrBy k d)
  with assms show ?thesis
    by (auto simp: spec_incr_def Let_def split: option.splits intro: permanent_keep)
qed (use assms in \<open>auto simp: permanent_op_def deadline_def permanent_change spec_hdel_def spec_pop_def
  split: option.splits intro: permanent_keep\<close>)

lemma spec_any_time: "permanent_op op \<Longrightarrow> spec_op now op db = spec_op now' op db"
  by (cases op) (auto simp: permanent_op_def deadline_def)

text \<open>No key maps to an empty hash or list.\<close>

definition inhabited :: "db \<Rightarrow> bool" where
  "inhabited db \<longleftrightarrow> (\<forall>k v t. db k = Some (v, t) \<longrightarrow> v \<noteq> AHash Map.empty \<and> v \<noteq> AList [])"

lemma entry_ok_inhabited: "entry_ok e \<Longrightarrow> abs_val e \<noteq> AHash Map.empty \<and> abs_val e \<noteq> AList []"
  by (cases "e_kind e") (simp_all add: entry_ok_def abs_val_def)

lemma inhabited_view:
  assumes "typed s" shows "inhabited (view s now)"
  unfolding inhabited_def
proof (intro allI impI)
  fix k v t assume "view s now k = Some (v, t)"
  then obtain e where "getLive s k now = Some e" "v = abs_val e" by (auto simp: view_def)
  with entry_ok_inhabited [of e] getLive_entry_ok [OF assms]
  show "v \<noteq> AHash Map.empty \<and> v \<noteq> AList []" by simp
qed

lemma change_ineffective:
  "(\<And>x. is_int (snd (f x))) \<Longrightarrow> change proj fresh db k f = (db', r) \<Longrightarrow> \<not> is_int r \<Longrightarrow> db' = db"
  by (auto simp: change_def is_int_def split: option.splits)

text \<open>An operation whose result says so has changed nothing.\<close>

lemma hdel_ineffective:
  assumes "inhabited db" "spec_hdel db k fs = (db', r)" "\<not> (case r of RInt n \<Rightarrow> 0 < n | _ \<Rightarrow> False)"
  shows "db' = db"
proof (cases "db k")
  case (Some p)
  obtain v t where p: "p = (v, t)" by (cases p)
  show ?thesis
  proof (cases "as_hash v")
    case (Some m)
    then have v: "v = AHash m" by (cases v) auto
    with \<open>db k = Some p\<close> p assms(1) have "m \<noteq> Map.empty" by (auto simp: inhabited_def)
    moreover have disj: "dom m \<inter> set fs = {}"
    proof -
      have "r = RInt (int (card (dom m \<inter> set fs)))"
        using assms(2) \<open>db k = Some p\<close> p Some by (simp add: spec_hdel_def)
      with assms(3) show ?thesis by simp
    qed
    ultimately have "\<not> dom m \<subseteq> set fs" by auto
    moreover have "m x = None" if "x \<in> set fs" for x
      using disj that by (meson disjoint_iff domIff)
    then have "m |` (- set fs) = m" by (simp add: restrict_map_def fun_eq_iff)
    ultimately have "db' = db(k \<mapsto> (AHash m, t))"
      using assms(2) \<open>db k = Some p\<close> p Some by (simp add: spec_hdel_def)
    with \<open>db k = Some p\<close> p v show ?thesis by (simp add: map_upd_triv)
  qed (use assms(2) \<open>db k = Some p\<close> p in \<open>simp add: spec_hdel_def\<close>)
qed (use assms(2) in \<open>simp add: spec_hdel_def\<close>)

lemma ineffective:
  assumes "inhabited db" "spec_op now op db = (db', r)" "\<not> effective op r"
  shows "db' = db"
proof (cases op)
  case (OpHDel k fs)
  with assms hdel_ineffective show ?thesis by (simp add: effective_def)
next
  case (OpAppend k v)
  with assms show ?thesis
    by (intro change_ineffective [of _ as_str "[]" db k db' r]) (auto simp: effective_def is_int_def)
next
  case (OpHSet k ps)
  with assms show ?thesis
    by (intro change_ineffective [of "spec_hset ps" as_hash Map.empty db k db' r])
      (auto simp: effective_def is_int_def spec_hset_def)
next
  case (OpLPush k vs)
  with assms show ?thesis
    by (intro change_ineffective [of _ as_list "[]" db k db' r]) (auto simp: effective_def is_int_def)
next
  case (OpRPush k vs)
  with assms show ?thesis
    by (intro change_ineffective [of _ as_list "[]" db k db' r]) (auto simp: effective_def is_int_def)
next
  case (OpGetSet k v)
  with assms show ?thesis
    by (auto simp: effective_def is_str_def ask_def split: option.splits result.splits)
next
  case (OpIncrBy k d)
  with assms show ?thesis
    by (auto simp: effective_def is_int_def spec_incr_def Let_def split: option.splits if_splits)
next
  case (OpDel k)
  then have "db k = None" "db' = db(k := None)"
    using assms by (auto simp: effective_def domIff)
  then show ?thesis by (simp add: fun_upd_idem_iff)
next
  case (OpPersist k)
  with assms show ?thesis
    by (auto simp: effective_def map_upd_triv split: option.splits)
next
  case (OpLPop k)
  with assms show ?thesis
    by (auto simp: effective_def is_str_def spec_pop_def split: option.splits)
next
  case (OpRPop k)
  with assms show ?thesis
    by (auto simp: effective_def is_str_def spec_pop_def split: option.splits)
qed (use assms in \<open>auto simp: effective_def fun_eq_iff split: option.splits if_splits\<close>)

section \<open>Running operations on data without deadlines\<close>

abbreviation spec_ops :: "store_op list \<Rightarrow> db \<Rightarrow> db \<times> result list" where
  "spec_ops \<equiv> run_ops (spec_op 0)"

lemma spec_list_permanent:
  "permanent db \<Longrightarrow> \<forall>op\<in>set ops. permanent_op op \<Longrightarrow>
    spec_list e i ops db = spec_ops ops db \<and> permanent (fst (spec_ops ops db))"
proof (induction ops arbitrary: i db)
  case (Cons op ops)
  have "spec_op (clk e i) op (age (clk e i) db) = spec_op 0 op db"
    using Cons.prems spec_any_time [of op "clk e i" db 0] by simp
  moreover have "permanent (fst (spec_op 0 op db))" using Cons.prems spec_permanent by simp
  ultimately show ?case using Cons.IH [of "fst (spec_op 0 op db)"] Cons.prems
    by (simp add: Let_def case_prod_unfold)
qed simp

lemma spec_ops_ineffective:
  "inhabited db \<Longrightarrow> \<not> list_ex (\<lambda>(op, r). effective op r) (zip ops (snd (spec_ops ops db))) \<Longrightarrow>
    fst (spec_ops ops db) = db"
proof (induction ops arbitrary: db)
  case (Cons op ops)
  obtain db1 r where 1: "spec_op 0 op db = (db1, r)" by (cases "spec_op 0 op db")
  with Cons.prems have "\<not> effective op r" by (simp add: Let_def case_prod_unfold)
  with 1 Cons.prems(1) have "db1 = db" using ineffective by blast
  with 1 Cons show ?case by (simp add: Let_def case_prod_unfold)
qed simp

text \<open>Executing logged commands on the flat data set.\<close>

definition replay_db :: "string list list \<Rightarrow> db \<Rightarrow> db" where
  "replay_db cmds db = fold (\<lambda>c db. fst (spec_ops (cmd_ops c) db)) cmds db"

lemma replay_db_simps [simp]:
  "replay_db [] db = db" "replay_db (c # cs) db = replay_db cs (fst (spec_ops (cmd_ops c) db))"
  "replay_db (cs @ cs') db = replay_db cs' (replay_db cs db)"
  by (simp_all add: replay_db_def)

lemma cmd_ops_SET: "cmd_ops [''SET'', k, v] = [OpSet k v 0]"
proof -
  have "ToUpper ''SET'' = ''SET''"
    by (rule ToUpper_fixed) (simp add: ascii_upper_def in_bytes_def)
  then show ?thesis
    by (simp add: cmd_ops_def ops_of_def guarded_def set_op_def parseSetOpts_def)
qed

lemma replay_mset:
  "replay_db (map plain_set (map (\<lambda>(k, v). OpSet k v 0) kvs)) db =
    fst (spec_ops (map (\<lambda>(k, v). OpSet k v 0) kvs) db)"
  by (induction kvs arbitrary: db)
    (auto simp: plain_set_def cmd_ops_SET Let_def case_prod_unfold deadline_def)

lemma MSET_cmd_ops:
  assumes "ToUpper (args ! 0) = ''MSET''"
  shows "\<exists>kvs. cmd_ops args = map (\<lambda>(k, v). OpSet k v 0) kvs"
proof (cases "args \<noteq> [] \<and> length args mod 2 = 1")
  case True
  with assms show ?thesis
    by (intro exI [of _ "pair_up (drop 1 args)"]) (simp add: cmd_ops_def ops_of_def guarded_def)
next
  case False
  with assms show ?thesis
    by (intro exI [of _ "[]"]) (auto simp: cmd_ops_def ops_of_def guarded_def)
qed

lemma ops_of_single:
  assumes "ops_of name args = op # ops" "(\<exists>k v. op = OpGetSet k v) \<or> (\<exists>k d. op = OpIncrBy k d)"
  shows "ops = []"
proof -
  have "name \<in> set op_commands" using assms(1) ops_of_other by fastforce
  with assms show ?thesis
    unfolding op_commands_def list.set insert_iff empty_iff
    by (elim disjE FalseE)
      (auto simp: ops_of_def Let_def guarded_def with_int_def set_op_def
        split: if_splits option.splits)
qed

text \<open>What is logged for a command does to the data what the command did.\<close>

lemma replay_logged:
  assumes "permanent db" "inhabited db"
  shows "replay_db (logged args (snd (spec_ops (cmd_ops args) db))) db = fst (spec_ops (cmd_ops args) db)"
proof (cases "ToUpper (args ! 0) = ''MSET''")
  case True
  then obtain kvs where "cmd_ops args = map (\<lambda>(k, v). OpSet k v 0) kvs"
    using MSET_cmd_ops by blast
  with True replay_mset [of kvs db] show ?thesis by (simp only: logged_def logged_for_def if_True simp_thms)
next
  case False
  let ?ops = "cmd_ops args" let ?rs = "snd (spec_ops ?ops db)"
  show ?thesis
  proof (cases "list_ex (\<lambda>(op, r). effective op r) (zip ?ops ?rs)")
    case False
    with \<open>ToUpper _ \<noteq> _\<close> spec_ops_ineffective [OF assms(2)] show ?thesis
      by (simp add: logged_def logged_for_def)
  next
    case True
    then obtain op ops where ops: "?ops = op # ops" by (cases ?ops) auto
    obtain db1 r where 1: "spec_op 0 op db = (db1, r)" by (cases "spec_op 0 op db")
    have hd: "hd ?rs = r" by (simp add: ops 1 Let_def case_prod_unfold)
    have log: "logged args ?rs = [log_entry args op r]"
      using True \<open>ToUpper _ \<noteq> _\<close> hd by (simp add: logged_def logged_for_def) (simp add: ops)
    have single: "ops = []" if "(\<exists>k v. op = OpGetSet k v) \<or> (\<exists>k d. op = OpIncrBy k d)"
      using ops_of_single [of "ToUpper (args ! 0)" args op ops] ops that
      by (simp add: cmd_ops_def split: if_splits)
    consider (getset) k v where "op = OpGetSet k v" | (incr) k d n where "op = OpIncrBy k d" "r = RInt n"
      | (same) "log_entry args op r = args"
      by (cases op; cases r) (auto simp: log_entry_def)
    then show ?thesis
    proof cases
      case getset
      with True single 1 show ?thesis unfolding log
        by (auto simp: ops log_entry_def cmd_ops_SET deadline_def effective_def is_str_def ask_def
            Let_def split: option.splits result.splits)
    next
      case incr
      with single 1 assms(1) show ?thesis unfolding log
        by (auto simp: ops log_entry_def cmd_ops_SET deadline_def spec_incr_def Let_def
            split: option.splits if_splits dest: permanentD)
    next
      case same
      then show ?thesis by (simp add: log)
    qed
  qed
qed

lemma log_entry_cases: "log_entry args op r = args \<or> (\<exists>k v. log_entry args op r = [''SET'', k, v])"
  by (cases op; cases r; simp add: log_entry_def)

lemma logged_ops: "c \<in> set (logged args rs) \<Longrightarrow> cmd_ops c \<noteq> []"
proof -
  assume c: "c \<in> set (logged args rs)"
  show ?thesis
  proof (cases "ToUpper (args ! 0) = ''MSET''")
    case True
    then obtain kvs where "cmd_ops args = map (\<lambda>(k, v). OpSet k v 0) kvs"
      using MSET_cmd_ops by blast
    with c True show ?thesis
      by (auto simp: logged_def logged_for_def plain_set_def cmd_ops_SET)
  next
    case False
    with c have ops: "cmd_ops args \<noteq> []" and "\<exists>op r. c = log_entry args op r"
      by (auto simp: logged_def logged_for_def split: if_splits)
    then obtain op r where "c = log_entry args op r" by blast
    with ops log_entry_cases [of args op r] show ?thesis by (auto simp: cmd_ops_SET)
  qed
qed

lemma logged_ttl_free: "ttl_free args \<Longrightarrow> c \<in> set (logged args rs) \<Longrightarrow> ttl_free c"
proof -
  assume free: "ttl_free args" and c: "c \<in> set (logged args rs)"
  have "(\<exists>k v. c = [''SET'', k, v]) \<or> c = args"
  proof (cases "ToUpper (args ! 0) = ''MSET''")
    case True
    then obtain kvs where "cmd_ops args = map (\<lambda>(k, v). OpSet k v 0) kvs"
      using MSET_cmd_ops by blast
    with c True show ?thesis by (auto simp: logged_def logged_for_def plain_set_def)
  next
    case False
    with c obtain op r where "c = log_entry args op r"
      by (auto simp: logged_def logged_for_def split: if_splits)
    with log_entry_cases [of args op r] show ?thesis by auto
  qed
  with free show ?thesis by (auto simp: ttl_free_def cmd_ops_SET permanent_op_def)
qed

section \<open>Histories\<close>

text \<open>
  A history: the commands in the order of their execution, each with the run-time choices made
  for it and the state of the connection it came from.
\<close>

type_synonym event = "env \<times> conn \<times> string list"

definition exec_step :: "event \<Rightarrow> deps \<Rightarrow> deps" where
  "exec_step x d =
     (case x of (e, cs, args) \<Rightarrow>
        (case Execute e d cs args of None \<Rightarrow> d | Some (d', cs', w, err) \<Rightarrow> d'))"

definition exec_all :: "event list \<Rightarrow> deps \<Rightarrow> deps" where
  "exec_all xs d = fold exec_step xs d"

text \<open>Time does not run backwards, and no command sets a deadline.\<close>

fun hist_ok :: "time \<Rightarrow> event list \<Rightarrow> bool" where
  "hist_ok t [] = True"
| "hist_ok t ((e, cs, args) # xs) =
     (env_ok e \<and> t \<le> clk e 0 \<and> ttl_free args \<and> hist_ok (clk e (length (cmd_ops args))) xs)"

fun hist_end :: "time \<Rightarrow> event list \<Rightarrow> time" where
  "hist_end t [] = t"
| "hist_end t ((e, cs, args) # xs) = hist_end (clk e (length (cmd_ops args))) xs"

text \<open>The store shows the data set \<open>db\<close>, from time \<open>t\<close> on.\<close>

definition shows_db :: "time \<Rightarrow> deps \<Rightarrow> db \<Rightarrow> bool" where
  "shows_db t d db \<longleftrightarrow> typed (d_Store d) \<and> permanent db \<and> (\<forall>T\<ge>t. view (d_Store d) T = db)"

lemma shows_db_inhabited: "shows_db t d db \<Longrightarrow> inhabited db"
  unfolding shows_db_def using inhabited_view [of "d_Store d" t] by auto

lemma shows_db_later: "shows_db t d db \<Longrightarrow> t \<le> t' \<Longrightarrow> d_Store d' = d_Store d \<Longrightarrow> shows_db t' d' db"
  by (simp add: shows_db_def)

lemma exec_step_ops:
  assumes "shows_db t d db" "env_ok e" "t \<le> clk e 0" "ttl_free args" "\<not> InSubscribeMode cs"
    "cmd_ops args \<noteq> []"
  shows "shows_db (clk e (length (cmd_ops args))) (exec_step (e, cs, args) d) (fst (spec_ops (cmd_ops args) db))"
    and "d_AOF (exec_step (e, cs, args) d) =
      map_option (\<lambda>h. h @ logged args (snd (spec_ops (cmd_ops args) db))) (d_AOF d)"
proof -
  let ?ops = "cmd_ops args" and ?s = "d_Store d"
  have s: "typed ?s" "permanent db" "\<forall>T\<ge>t. view ?s T = age T db"
    using assms(1) by (auto simp: shows_db_def)
  have ops: "\<forall>op\<in>set ?ops. op_ok op" using cmd_ops_ok by blast
  have run: "snd (run_list e 0 ?ops ?s) = snd (spec_list e 0 ?ops db) \<and>
    (\<forall>T\<ge>t. (\<forall>j<length ?ops. clk e (0 + j) \<le> T) \<longrightarrow>
      view (fst (run_list e 0 ?ops ?s)) T = age T (fst (spec_list e 0 ?ops db)))"
    by (rule spec_run_list [OF s(1) assms(2) ops assms(3) s(3)])
  have spec: "spec_list e 0 ?ops db = spec_ops ?ops db" "permanent (fst (spec_ops ?ops db))"
    using spec_list_permanent [OF s(2)] assms(4) by (auto simp: ttl_free_def)
  have mono: "clk e j \<le> clk e (length ?ops)" if "j \<le> length ?ops" for j
    using assms(2) that by (simp add: env_ok_def monoD)
  have step: "exec_step (e, cs, args) d = log_all (logged args (snd (run_list e 0 ?ops ?s)))
      (d\<lparr>d_Store := fst (run_list e 0 ?ops ?s)\<rparr>)"
    using Execute_ops [OF assms(5,6), of e d] by (simp add: exec_step_def Let_def case_prod_unfold)
  show "d_AOF (exec_step (e, cs, args) d) =
      map_option (\<lambda>h. h @ logged args (snd (spec_ops ?ops db))) (d_AOF d)"
    using run by (simp add: step spec(1))
  have "view (fst (run_list e 0 ?ops ?s)) T = fst (spec_ops ?ops db)" if T: "clk e (length ?ops) \<le> T" for T
  proof -
    have "t \<le> T" using mono [of 0] assms(3) T by simp
    moreover have "clk e (0 + j) \<le> T" if "j < length ?ops" for j using mono [of j] T that by simp
    ultimately show ?thesis using run spec by simp
  qed
  then show "shows_db (clk e (length ?ops)) (exec_step (e, cs, args) d) (fst (spec_ops ?ops db))"
    using spec(2) typed_run_list [OF s(1) assms(2) ops] by (simp add: step shows_db_def)
qed

lemma exec_step_other:
  assumes "InSubscribeMode cs \<or> cmd_ops args = []"
  shows "d_Store (exec_step (e, cs, args) d) = d_Store d \<and> d_AOF (exec_step (e, cs, args) d) = d_AOF d"
proof (cases "Execute e d cs args")
  case (Some r)
  obtain d' cs' w err where r: "r = (d', cs', w, err)" by (cases r)
  with Some Execute_other [of e d cs args d' cs' w err] assms show ?thesis by (simp add: exec_step_def)
qed (simp add: exec_step_def)

text \<open>One command: the data it leaves is what its log entries make of the data before it.\<close>

lemma exec_step_replay:
  assumes "shows_db t d db" "env_ok e" "t \<le> clk e 0" "ttl_free args" "d_AOF d = Some h"
  shows "\<exists>new. d_AOF (exec_step (e, cs, args) d) = Some (h @ new) \<and>
    (\<forall>c\<in>set new. ttl_free c \<and> cmd_ops c \<noteq> []) \<and>
    shows_db (clk e (length (cmd_ops args))) (exec_step (e, cs, args) d) (replay_db new db)"
proof (cases "InSubscribeMode cs \<or> cmd_ops args = []")
  case True
  have "clk e 0 \<le> clk e (length (cmd_ops args))" using assms(2) by (simp add: env_ok_def monoD)
  with exec_step_other [OF True, of e d] assms shows_db_later [OF assms(1)] show ?thesis
    by (intro exI [of _ "[]"]) simp
next
  case False
  let ?rs = "snd (spec_ops (cmd_ops args) db)"
  have *: "permanent db" "inhabited db"
    using assms(1) shows_db_inhabited by (auto simp: shows_db_def)
  from False exec_step_ops [OF assms(1-4)] assms(5) replay_logged [OF *, of args]
    logged_ops logged_ttl_free [OF assms(4)]
  show ?thesis by (intro exI [of _ "logged args ?rs"]) auto
qed

lemma exec_all_replay:
  "shows_db t d db \<Longrightarrow> hist_ok t xs \<Longrightarrow> d_AOF d = Some h \<Longrightarrow>
    \<exists>new. d_AOF (exec_all xs d) = Some (h @ new) \<and> (\<forall>c\<in>set new. ttl_free c \<and> cmd_ops c \<noteq> []) \<and>
      shows_db (hist_end t xs) (exec_all xs d) (replay_db new db)"
proof (induction xs arbitrary: t d db h)
  case Nil
  then show ?case by (intro exI [of _ "[]"]) (simp add: exec_all_def)
next
  case (Cons x xs)
  obtain e cs args where x: "x = (e, cs, args)" by (cases x)
  let ?d = "exec_step x d" and ?t = "clk e (length (cmd_ops args))"
  obtain new1 where 1: "d_AOF ?d = Some (h @ new1)" "\<forall>c\<in>set new1. ttl_free c \<and> cmd_ops c \<noteq> []"
    "shows_db ?t ?d (replay_db new1 db)"
    using exec_step_replay [OF Cons.prems(1), of e args h cs] Cons.prems(2,3) by (auto simp: x)
  obtain new2 where 2: "d_AOF (exec_all xs ?d) = Some ((h @ new1) @ new2)"
    "\<forall>c\<in>set new2. ttl_free c \<and> cmd_ops c \<noteq> []"
    "shows_db (hist_end ?t xs) (exec_all xs ?d) (replay_db new2 (replay_db new1 db))"
    using Cons.IH [OF 1(3) _ 1(1)] Cons.prems(2) by (auto simp: x)
  from 1(2) 2 show ?case by (intro exI [of _ "new1 @ new2"]) (auto simp: exec_all_def x)
qed

text \<open>Executing store commands from a connection without subscriptions follows \<open>replay_db\<close>.\<close>

lemma exec_all_db:
  "shows_db t d db \<Longrightarrow> hist_ok t xs \<Longrightarrow>
    \<forall>(e, cs, c)\<in>set xs. \<not> InSubscribeMode cs \<and> cmd_ops c \<noteq> [] \<Longrightarrow>
    shows_db (hist_end t xs) (exec_all xs d) (replay_db (map (snd \<circ> snd) xs) db)"
proof (induction xs arbitrary: t d db)
  case (Cons x xs)
  obtain e cs args where x: "x = (e, cs, args)" by (cases x)
  with Cons.prems have "shows_db (clk e (length (cmd_ops args))) (exec_step x d)
      (fst (spec_ops (cmd_ops args) db))"
    using exec_step_ops(1) [OF Cons.prems(1)] by simp
  from Cons.IH [OF this] Cons.prems(2,3) show ?case by (simp add: x exec_all_def)
qed (simp add: exec_all_def)

end
