(* ===== verification/Compaction.thy ===== *)
theory Compaction
  imports Command_Log
begin

text \<open>
  The commands that \<^verbatim>\<open>Rewrite\<close> writes for a snapshot (\<^verbatim>\<open>internal/aof/aof.go\<close>) rebuild the
  data set: every key with its value, and its remaining time to live in whole milliseconds.
\<close>

section \<open>One key\<close>

definition replay_at :: "time \<Rightarrow> string list list \<Rightarrow> db \<Rightarrow> db" where
  "replay_at T cmds db = fold (\<lambda>c db. fst (run_ops (spec_op T) (cmd_ops c) db)) cmds db"

lemma replay_at_simps [simp]:
  "replay_at T [] db = db"
  "replay_at T (c # cs) db = replay_at T cs (fst (run_ops (spec_op T) (cmd_ops c) db))"
  "replay_at T (cs @ cs') db = replay_at T cs' (replay_at T cs db)"
  by (simp_all add: replay_at_def)

text \<open>The deadline after a compaction at time \<open>w\<close> and a replay at time \<open>T\<close>.\<close>

definition new_deadline :: "time \<Rightarrow> time \<Rightarrow> time \<Rightarrow> time" where
  "new_deadline T w t =
     (if t = 0 \<or> msUntil w t = 0 then 0 else T + msUntil w t * Millisecond)"

lemma pair_up_concat: "pair_up (concat (map (\<lambda>(f, v). [f, v]) ps)) = ps"
  by (induction ps) auto

lemma length_concat_pairs: "length (concat (map (\<lambda>(f, v). [f, v]) ps)) = 2 * length ps"
  by (induction ps) auto

lemma cmd_ops_HSET:
  assumes "ps \<noteq> []"
  shows "cmd_ops ([''HSET'', k] @ concat (map (\<lambda>(f, v). [f, v]) ps)) = [OpHSet k ps]"
proof -
  have "ToUpper ''HSET'' = ''HSET''"
    by (rule ToUpper_fixed) (simp add: ascii_upper_def in_bytes_def)
  moreover have "length (concat (map (\<lambda>(f, v). [f, v]) ps)) \<ge> 2"
    using assms by (cases ps) (auto simp: length_concat_pairs)
  ultimately show ?thesis
    by (simp add: cmd_ops_def ops_of_def guarded_def pair_up_concat length_concat_pairs)
qed

lemma cmd_ops_RPUSH: "xs \<noteq> [] \<Longrightarrow> cmd_ops ([''RPUSH'', k] @ xs) = [OpRPush k xs]"
proof -
  assume "xs \<noteq> []"
  then have "Suc 0 \<le> length xs" by (cases xs) auto
  moreover have "ToUpper ''RPUSH'' = ''RPUSH''"
    by (rule ToUpper_fixed) (simp add: ascii_upper_def in_bytes_def)
  ultimately show ?thesis by (simp add: cmd_ops_def ops_of_def guarded_def)
qed

lemma msUntil_range: "0 \<le> msUntil w t" "msUntil w t * Millisecond \<le> maxInt64"
proof -
  show "0 \<le> msUntil w t" by (simp add: msUntil_def Let_def Millisecond_def pos_imp_zdiv_nonneg_iff)
  have "time_Sub t w \<le> maxInt64" by (simp add: time_Sub_def int64_defs)
  moreover have "x div 1000000 * 1000000 \<le> x" for x :: int
    using minus_mod_eq_div_mult [of x 1000000] pos_mod_sign [of 1000000 x] by linarith
  ultimately show "msUntil w t * Millisecond \<le> maxInt64"
    by (auto simp: msUntil_def Let_def Millisecond_def int64_defs intro: order_trans)
qed

lemma cmd_ops_PEXPIRE:
  "cmd_ops [''PEXPIRE'', k, FormatInt (msUntil w t)] = [OpExpire k (msUntil w t * Millisecond)]"
proof -
  have "ToUpper ''PEXPIRE'' = ''PEXPIRE''"
    by (rule ToUpper_fixed) (simp add: ascii_upper_def in_bytes_def)
  moreover have "in_int64 (msUntil w t * Millisecond)" "in_int64 (msUntil w t)"
    using msUntil_range [of w t] by (auto simp: int64_defs Millisecond_def)
  ultimately show ?thesis
    by (simp add: cmd_ops_def ops_of_def guarded_def with_int_def ParseInt_FormatInt)
qed

lemma rev_lookup: "gm_wf m \<Longrightarrow> map_of (rev m) = map_of m"
  by (simp add: gm_wf_def map_of_inject_set flip: rev_map)

lemma range_lookup: "perm_order po \<Longrightarrow> gm_wf h \<Longrightarrow> map_of (rev (gm_range po h)) = map_of h"
  by (simp add: rev_lookup gm_range_wf gm_range_lookup)

text \<open>What is copied for an entry: its kind, its value, and its deadline.\<close>

definition copies :: "string \<times> entry \<Rightarrow> Snapshot \<Rightarrow> bool" where
  "copies ke p \<longleftrightarrow> (case ke of (k, e) \<Rightarrow>
     snap_Key p = k \<and> snap_Kind p = e_kind e \<and> snap_ExpiresAt p = expiresAt e \<and>
     (case e_kind e of
        KindString \<Rightarrow> snap_Str p = e_str e
      | KindHash \<Rightarrow> gm_wf (snap_Hash p) \<and> map_of (snap_Hash p) = map_of (e_hash e)
      | KindList \<Rightarrow> snap_List p = e_list e
      | KindNone \<Rightarrow> True))"

lemma copies_entry:
  assumes "entry_ok e" "perm_order po"
  shows "copies (k, e) (snapshot_entry po k e)"
proof (cases "e_kind e")
  case KindHash
  let ?h = "fold (\<lambda>(f, v). gm_put f v) (gm_range po (e_hash e)) []"
  have "map_of ?h = map_of (rev (gm_range po (e_hash e)))" by (subst gm.lookup_put_all) simp_all
  also have "\<dots> = map_of (e_hash e)" using KindHash entry_okD(2) [OF assms(1)] by (intro range_lookup assms(2)) blast
  finally show ?thesis using KindHash gm.ok_put_all [of "[]"] by (simp add: copies_def snapshot_entry_def)
qed (simp_all add: copies_def snapshot_entry_def)

text \<open>The commands for it: one for the value, and one for the deadline if it is a whole millisecond away.\<close>

definition value_command :: "(string list \<Rightarrow> string list) \<Rightarrow> Snapshot \<Rightarrow> string list" where
  "value_command po p =
     (case snap_Kind p of
        KindHash \<Rightarrow> [''HSET'', snap_Key p] @ concat (map (\<lambda>(f, v). [f, v]) (gm_range po (snap_Hash p)))
      | KindList \<Rightarrow> [''RPUSH'', snap_Key p] @ snap_List p
      | _ \<Rightarrow> [''SET'', snap_Key p, snap_Str p])"

lemma copies_hash:
  assumes "copies (k, e) p" "entry_ok e" "e_kind e = KindHash" "perm_order po"
  shows "map_of (rev (gm_range po (snap_Hash p))) = map_of (e_hash e)" "snap_Hash p \<noteq> []" "gm_range po (snap_Hash p) \<noteq> []"
proof -
  have e: "e_hash e \<noteq> []" and p: "gm_wf (snap_Hash p)" "map_of (snap_Hash p) = map_of (e_hash e)"
    using assms(1) entry_okD(2) [OF assms(2,3)] by (auto simp: copies_def assms(3))
  show r: "map_of (rev (gm_range po (snap_Hash p))) = map_of (e_hash e)"
    using range_lookup [OF assms(4) p(1)] p(2) by simp
  from e have "map_of (e_hash e) \<noteq> Map.empty" by simp
  with p(2) r show "snap_Hash p \<noteq> []" "gm_range po (snap_Hash p) \<noteq> []" by auto
qed

lemma value_replay:
  assumes "copies (k, e) p" "entry_ok e" "perm_order po" "db k = None"
  shows "fst (run_ops (spec_op T) (cmd_ops (value_command po p)) db) = db(k \<mapsto> (abs_val e, 0))"
proof (cases "e_kind e")
  case KindHash
  with copies_hash [OF assms(1,2) KindHash assms(3)] cmd_ops_HSET [of "gm_range po (snap_Hash p)" k] assms(1,4) show ?thesis
    by (simp add: copies_def value_command_def change_def spec_hset_def abs_val_def)
next
  case KindList
  then have "e_list e \<noteq> []" using assms(2) entry_okD(3) by blast
  with KindList assms(1,4) cmd_ops_RPUSH [of "e_list e" k] show ?thesis
    by (simp add: copies_def value_command_def change_def abs_val_def)
qed (use assms in \<open>simp_all add: copies_def value_command_def cmd_ops_SET deadline_def abs_val_def entry_ok_def\<close>)

lemma snapshotCommands_copy:
  assumes "copies (k, e) p" "entry_ok e" "perm_order po"
  shows "snapshotCommands po w p =
    value_command po p #
      (if expiresAt e \<noteq> 0 \<and> msUntil w (expiresAt e) > 0
       then [[''PEXPIRE'', k, FormatInt (msUntil w (expiresAt e))]] else [])"
  using assms entry_okD(3) [OF assms(2)] copies_hash(2) [OF assms(1,2) _ assms(3)]
  by (cases "e_kind e")
    (simp_all add: snapshotCommands_def copies_def value_command_def Let_def entry_ok_def)

lemma snapshot_replay:
  assumes "copies (k, e) p" "entry_ok e" "perm_order po" "db k = None"
  shows "replay_at T (snapshotCommands po w p) db = db(k \<mapsto> (abs_val e, new_deadline T w (expiresAt e)))"
  using value_replay [OF assms(1-3), of db T] assms(4) msUntil_range(1) [of w "expiresAt e"]
  unfolding snapshotCommands_copy [OF assms(1-3)]
  by (auto simp: cmd_ops_PEXPIRE new_deadline_def Millisecond_def)

section \<open>The whole snapshot\<close>

definition live_list :: "(string list \<Rightarrow> string list) \<Rightarrow> store \<Rightarrow> time \<Rightarrow> (string \<times> entry) list" where
  "live_list po s now =
     concat (map (\<lambda>sh. filter (\<lambda>(k, e). \<not> expired e now) (gm_range po sh)) (shards s))"

lemma SnapshotAll_live:
  "Store_SnapshotAll po s now = map (\<lambda>(k, e). snapshot_entry po k e) (live_list po s now)"
  by (simp add: Store_SnapshotAll_def live_list_def map_concat comp_def)

lemma live_list_set:
  assumes "store_ok s" "perm_order po"
  shows "(k, e) \<in> set (live_list po s now) \<longleftrightarrow> getLive s k now = Some e"
  using live_entries [OF assms(1), of k e now] gm_range_set [OF assms(2) shards_wf [OF assms(1)]]
  by (fastforce simp: live_list_def)

lemma live_list_distinct:
  assumes "store_ok s" "perm_order po"
  shows "distinct (map fst (live_list po s now))"
  unfolding live_list_def map_concat list.map_comp
proof (rule distinct_concat_sub [where g = gm_keys])
  show "distinct (concat (map gm_keys (shards s)))"
    using store_keys_distinct [OF assms(1)] by (simp add: store_keys_def)
  show "\<forall>sh\<in>set (shards s).
      distinct ((map fst \<circ> (\<lambda>sh. filter (\<lambda>(k, e). \<not> expired e now) (gm_range po sh))) sh) \<and>
      set ((map fst \<circ> (\<lambda>sh. filter (\<lambda>(k, e). \<not> expired e now) (gm_range po sh))) sh) \<subseteq> set (gm_keys sh)"
  proof
    fix sh assume "sh \<in> set (shards s)"
    then have "gm_wf sh" by (rule shards_wf [OF assms(1)])
    from gm_range_wf [OF assms(2) this] gm_range_set [OF assms(2) this]
    show "distinct ((map fst \<circ> (\<lambda>sh. filter (\<lambda>(k, e). \<not> expired e now) (gm_range po sh))) sh) \<and>
      set ((map fst \<circ> (\<lambda>sh. filter (\<lambda>(k, e). \<not> expired e now) (gm_range po sh))) sh) \<subseteq> set (gm_keys sh)"
      by (auto simp: gm_wf_def distinct_map_filter gm_keys_def simp del: set_gm_keys)
  qed
qed

text \<open>Copies of different keys, whenever and in whatever order they were taken.\<close>

lemma snapshots_replay:
  assumes "perm_order po" "list_all2 copies kes ps" "distinct (map fst kes)" "\<forall>(k, e)\<in>set kes. entry_ok e \<and> db k = None"
  shows "\<forall>k. (case map_of kes k of
      None \<Rightarrow> replay_at T (concat (map (\<lambda>(i, s). snapshotCommands po (ck i) s) (enumerate n ps))) db k = db k
    | Some e \<Rightarrow> \<exists>i. replay_at T (concat (map (\<lambda>(i, s). snapshotCommands po (ck i) s) (enumerate n ps))) db k =
        Some (abs_val e, new_deadline T (ck i) (expiresAt e)))"
  using assms(2-4)
proof (induction kes ps arbitrary: n db rule: list_all2_induct)
  case (Cons ke kes p ps)
  obtain k e where ke: "ke = (k, e)" by (cases ke)
  let ?db = "db(k \<mapsto> (abs_val e, new_deadline T (ck n) (expiresAt e)))"
  have step: "replay_at T (snapshotCommands po (ck n) p) db = ?db"
    using snapshot_replay [of k e p po db] Cons.hyps(1) Cons.prems(2) assms(1) ke by auto
  have "\<forall>(k, e)\<in>set kes. entry_ok e \<and> ?db k = None"
    using Cons.prems by (force simp: ke)
  moreover have "distinct (map fst kes)" using Cons.prems(1) by simp
  ultimately have IH: "case map_of kes j of
      None \<Rightarrow> replay_at T (concat (map (\<lambda>(i, s). snapshotCommands po (ck i) s) (enumerate (Suc n) ps))) ?db j = ?db j
    | Some e \<Rightarrow> \<exists>i. replay_at T (concat (map (\<lambda>(i, s). snapshotCommands po (ck i) s) (enumerate (Suc n) ps))) ?db j =
        Some (abs_val e, new_deadline T (ck i) (expiresAt e))" for j
    using Cons.IH by blast
  have new: "map_of kes k = None" using Cons.prems(1) by (simp add: ke map_of_eq_None_iff)
  show ?case
  proof
    fix j
    show "case map_of (ke # kes) j of
      None \<Rightarrow> replay_at T (concat (map (\<lambda>(i, s). snapshotCommands po (ck i) s) (enumerate n (p # ps)))) db j = db j
    | Some e \<Rightarrow> \<exists>i. replay_at T (concat (map (\<lambda>(i, s). snapshotCommands po (ck i) s) (enumerate n (p # ps)))) db j =
        Some (abs_val e, new_deadline T (ck i) (expiresAt e))"
      using IH [of j] new by (cases "j = k"; cases "map_of kes j") (auto simp: ke step)
  qed
qed simp

lemma rewrite_copies:
  assumes "perm_order po" "list_all2 copies kes ps" "distinct (map fst kes)" "\<forall>(k, e)\<in>set kes. entry_ok e"
  shows "case map_of kes k of
      None \<Rightarrow> replay_at T (rewrite_commands po ck ps) Map.empty k = None
    | Some e \<Rightarrow> \<exists>i. replay_at T (rewrite_commands po ck ps) Map.empty k =
        Some (abs_val e, new_deadline T (ck i) (expiresAt e))"
  using spec [OF snapshots_replay [OF assms(1-3), of Map.empty T ck 0], of k] assms(4)
  by (auto simp: rewrite_commands_def split: option.splits)

lemma live_list_copies:
  assumes "typed s" "perm_order po"
  shows "list_all2 copies (live_list po s now) (Store_SnapshotAll po s now)"
    "\<forall>(k, e)\<in>set (live_list po s now). entry_ok e"
proof -
  show ok: "\<forall>(k, e)\<in>set (live_list po s now). entry_ok e"
    using live_list_set [OF typed_ok [OF assms(1)] assms(2)] getLive_entry_ok [OF assms(1)] by auto
  then show "list_all2 copies (live_list po s now) (Store_SnapshotAll po s now)"
    by (auto simp: SnapshotAll_live list_all2_map2 list_all2_same copies_entry [OF _ assms(2)])
qed

lemma rewrite_replay:
  assumes "typed s" "perm_order po"
  shows "case view s now k of
      None \<Rightarrow> replay_at T (rewrite_commands po ck (Store_SnapshotAll po s now)) Map.empty k = None
    | Some (v, t) \<Rightarrow> \<exists>i. replay_at T (rewrite_commands po ck (Store_SnapshotAll po s now)) Map.empty k =
        Some (v, new_deadline T (ck i) t)"
proof -
  let ?kes = "live_list po s now"
  have ok: "store_ok s" using assms(1) by (rule typed_ok)
  have lookup: "map_of ?kes k = getLive s k now"
  proof (cases "getLive s k now")
    case (Some e)
    then have "(k, e) \<in> set ?kes" using live_list_set [OF ok assms(2)] by simp
    with Some show ?thesis using live_list_distinct [OF ok assms(2)] by (simp add: map_of_is_SomeI)
  next
    case None
    then have "(k, e) \<notin> set ?kes" for e using live_list_set [OF ok assms(2), of k e] by simp
    then have "map_of ?kes k = None" unfolding map_of_eq_None_iff by force
    with None show ?thesis by simp
  qed
  from rewrite_copies [OF assms(2) live_list_copies(1) [OF assms, of now] live_list_distinct [OF ok assms(2)]
      live_list_copies(2) [OF assms], where k = k and T = T and ck = ck]
  show ?thesis by (simp add: lookup view_def split: option.splits)
qed

end
