(* ===== verification/Server.thy ===== *)
theory Server
  imports Compaction
begin

text \<open>
  The server (\<^verbatim>\<open>internal/server/server.go\<close>): construction, recovery from the log, the loop of
  a connection and its end. The system of connections is in the theory that follows.
\<close>

section \<open>Construction\<close>

record Config =
  Addr :: string
  Shards :: int
  SweepEvery :: duration
  AOFPath :: string
  MaxClients :: int

text \<open>\<open>srv_aof\<close>: the commands appended so far, when persistence is on.\<close>

record Server =
  srv_cfg :: Config
  srv_store :: store
  srv_broker :: broker
  srv_aof :: "string list list option"
  startedAt :: time
  clients :: int
  totalCommands :: int

definition Server_New :: "Config \<Rightarrow> time \<Rightarrow> Server option" where
  "Server_New cfg now =
     (let cfg = (if Shards cfg \<le> 0 then cfg\<lparr>Shards := 16\<rparr> else cfg);
          cfg = (if SweepEvery cfg \<le> 0 then cfg\<lparr>SweepEvery := Second\<rparr> else cfg)
      in case Store_New (Shards cfg) of
           None \<Rightarrow> None
         | Some st \<Rightarrow>
             Some \<lparr>srv_cfg = cfg, srv_store = st, srv_broker = Broker_New, srv_aof = None,
                   startedAt = now, clients = 0, totalCommands = 0\<rparr>)"

definition Server_Snapshot :: "time \<Rightarrow> Server \<Rightarrow> duration \<times> int \<times> int" where
  "Server_Snapshot now s = (time_Sub now (startedAt s), clients s, totalCommands s)"

definition Server_Enabled :: "Server \<Rightarrow> bool" where
  "Server_Enabled s \<longleftrightarrow> srv_aof s \<noteq> None"

text \<open>\<^verbatim>\<open>deps\<close>, with what the two interfaces answer at the time of a command.\<close>

definition server_deps :: "time \<Rightarrow> int \<Rightarrow> Server \<Rightarrow> deps" where
  "server_deps now aof_size s =
     \<lparr>d_Store = srv_store s, d_AOF = srv_aof s, d_Broker = srv_broker s,
      d_Stats = Some (Server_Snapshot now s), d_AOFI = Some (Server_Enabled s, aof_size)\<rparr>"

section \<open>Recovery\<close>

text \<open>
  \<open>OpenFailed\<close> is the error of opening the file, other than that it does not exist.
  The callback of \<^verbatim>\<open>replayAOF\<close>: the error of \<^verbatim>\<open>Execute\<close> is dropped and the flush of
  \<^verbatim>\<open>io.Discard\<close> cannot fail; \<open>envs n\<close> are the run-time choices for the n-th command. A panic
  in \<^verbatim>\<open>Execute\<close> ends the process.
\<close>

datatype crash = Crash | OpenFailed

definition new_conn :: "bool \<Rightarrow> conn" where
  "new_conn deliver = \<lparr>c_Subs = [], c_Deliver = deliver, c_delivering = []\<rparr>"

definition replay_apply ::
    "(nat \<Rightarrow> env) \<Rightarrow> string list \<Rightarrow> deps \<times> conn \<times> nat \<Rightarrow> (deps \<times> conn \<times> nat) \<times> crash option" where
  "replay_apply envs args st =
     (case st of (d, cs, n) \<Rightarrow>
        (case Execute (envs n) d cs args of
           None \<Rightarrow> (st, Some Crash)
         | Some (d', cs', w, err) \<Rightarrow> ((d', cs', Suc n), None)))"

definition replayAOF ::
    "(nat \<Rightarrow> env) \<Rightarrow> crash opened \<Rightarrow> Server \<Rightarrow> Server \<times> crash replay_result" where
  "replayAOF envs file s =
     (case Replay file (replay_apply envs)
        (\<lparr>d_Store = srv_store s, d_AOF = None, d_Broker = srv_broker s, d_Stats = None, d_AOFI = None\<rparr>,
         new_conn False, 0) of
        ((d, cs, n), res) \<Rightarrow> (s\<lparr>srv_store := d_Store d, srv_broker := d_Broker d\<rparr>, res))"

lemma new_conn_mode [simp]: "\<not> InSubscribeMode (new_conn b)"
  by (simp add: InSubscribeMode_def new_conn_def)

definition indexed :: "(nat \<Rightarrow> env) \<Rightarrow> conn \<Rightarrow> nat \<Rightarrow> string list list \<Rightarrow> event list" where
  "indexed envs cs n cmds = map (\<lambda>(i, c). (envs i, cs, c)) (enumerate n cmds)"

lemma indexed_simps [simp]:
  "indexed envs cs n [] = []"
  "indexed envs cs n (c # cmds) = (envs n, cs, c) # indexed envs cs (Suc n) cmds"
  by (simp_all add: indexed_def)

lemma indexed_commands: "map (snd \<circ> snd) (indexed envs cs n cmds) = cmds"
  by (induction cmds arbitrary: n) auto

lemma indexed_set: "(e, cs', c) \<in> set (indexed envs cs n cmds) \<Longrightarrow> cs' = cs \<and> c \<in> set cmds"
  by (induction cmds arbitrary: n) auto

text \<open>Store commands leave the connection of the replay as it is.\<close>

lemma apply_all_exec:
  "\<not> InSubscribeMode cs \<Longrightarrow> \<forall>c\<in>set cmds. cmd_ops c \<noteq> [] \<Longrightarrow>
    apply_all (replay_apply envs) cmds (d, cs, n) =
      ((exec_all (indexed envs cs n cmds) d, cs, n + length cmds), None)"
proof (induction cmds arbitrary: d n)
  case (Cons c cmds)
  then have "c \<noteq> []" by (auto simp: cmd_ops_def)
  moreover obtain d' w where "Execute (envs n) d cs c = Some (d', cs, w, None)"
    using Execute_ops [of cs c "envs n" d] Cons.prems by (auto simp: Let_def case_prod_unfold)
  ultimately show ?case using Cons
    by (simp add: replay_apply_def exec_all_def exec_step_def)
qed (simp add: exec_all_def)

text \<open>A clock for the replay of these commands.\<close>

fun replay_clock :: "(nat \<Rightarrow> env) \<Rightarrow> time \<Rightarrow> nat \<Rightarrow> string list list \<Rightarrow> bool" where
  "replay_clock envs t n [] = True"
| "replay_clock envs t n (c # cmds) =
     (env_ok (envs n) \<and> t \<le> clk (envs n) 0 \<and>
      replay_clock envs (clk (envs n) (length (cmd_ops c))) (Suc n) cmds)"

lemma replay_clock_hist:
  "replay_clock envs t n cmds \<Longrightarrow> \<forall>c\<in>set cmds. ttl_free c \<Longrightarrow> hist_ok t (indexed envs cs n cmds)"
  by (induction cmds arbitrary: t n) auto

lemma New_shows_empty:
  "Store_New c = Some st \<Longrightarrow> d_Store d = st \<Longrightarrow> shows_db t d Map.empty"
  using Store_New_empty [of c st] typed_New [of c st]
  by (auto simp: shows_db_def view_def getLive_def fun_eq_iff)

text \<open>
  A server that ran a history of commands and a server that starts from the log the history
  left show the same data.
\<close>

lemma recovery:
  assumes "Store_New c1 = Some st1" "d_Store d = st1" "d_AOF d = Some []" "hist_ok t xs"
    "Store_New c2 = Some st2" "srv_store s = st2"
    "d_AOF (exec_all xs d) = Some h" "\<forall>c\<in>set h. command_fits c" "replay_clock envs t' 0 h"
  shows "\<exists>s' t''. replayAOF envs (Content (enc_all h)) s = (s', ReplayOk) \<and>
    (\<forall>T\<ge>t''. \<forall>T'\<ge>hist_end t xs. view (srv_store s') T = view (d_Store (exec_all xs d)) T')"
proof -
  have "shows_db t d Map.empty" by (rule New_shows_empty [OF assms(1,2)])
  from exec_all_replay [OF this assms(4,3)] assms(7)
  have h: "\<forall>c\<in>set h. ttl_free c \<and> cmd_ops c \<noteq> []"
    and end1: "shows_db (hist_end t xs) (exec_all xs d) (replay_db h Map.empty)"
    by auto
  let ?d = "\<lparr>d_Store = srv_store s, d_AOF = None, d_Broker = srv_broker s, d_Stats = None, d_AOFI = None\<rparr>"
  let ?ys = "indexed envs (new_conn False) 0 h"
  have "hist_ok t' ?ys" using replay_clock_hist [OF assms(9)] h by simp
  moreover have "\<forall>(e, cs, c)\<in>set ?ys. \<not> InSubscribeMode cs \<and> cmd_ops c \<noteq> []"
    using indexed_set h by fastforce
  moreover have "shows_db t' ?d Map.empty" by (rule New_shows_empty [OF assms(5)]) (simp add: assms(6))
  ultimately have end2: "shows_db (hist_end t' ?ys) (exec_all ?ys ?d) (replay_db h Map.empty)"
    using exec_all_db [of t' ?d Map.empty ?ys] by (simp add: indexed_commands)
  obtain e where "reads_all ReadCommand (enc_all h) h e" and e: "at_end e"
    using reads_enc_all [OF assms(8)] by blast
  from replay_loop_reads [OF this(1), of "replay_apply envs" "(?d, new_conn False, 0)"] e h
  have "replayAOF envs (Content (enc_all h)) s = (s\<lparr>srv_store := d_Store (exec_all ?ys ?d),
      srv_broker := d_Broker (exec_all ?ys ?d)\<rparr>, ReplayOk)"
    by (auto simp: replayAOF_def Replay_def apply_all_exec at_end_def)
  with end1 end2 show ?thesis
    by (intro exI [of _ "s\<lparr>srv_store := d_Store (exec_all ?ys ?d), srv_broker := d_Broker (exec_all ?ys ?d)\<rparr>"]
      exI [of _ "hist_end t' ?ys"]) (auto simp: shows_db_def)
qed

section \<open>A connection\<close>

text \<open>
  One round of the loop of \<^verbatim>\<open>handleConn\<close>. A command that is read counts and is executed; its
  reply is flushed. After \<open>ReadFailed\<close> and \<open>Stop\<close> (an error of \<^verbatim>\<open>Execute\<close>) the loop is left.
\<close>

datatype round =
    Panics
  | ReadFailed
  | Stop deps conn string
  | Ignored string
  | Answered deps conn string string  \<comment> \<open>the reply and the rest of the input\<close>

definition serve_round :: "env \<Rightarrow> deps \<Rightarrow> conn \<Rightarrow> string \<Rightarrow> round" where
  "serve_round e d cs input =
     (case ReadCommand input of
        Inl err \<Rightarrow> if err = MakePanic then Panics else ReadFailed
      | Inr (args, rest) \<Rightarrow>
          if length args = 0 then Ignored rest
          else (case Execute e d cs args of
              None \<Rightarrow> Panics
            | Some (d', cs', w, Some err) \<Rightarrow> Stop d' cs' w
            | Some (d', cs', w, None) \<Rightarrow> Answered d' cs' w rest))"

text \<open>
  The rounds of one connection on its own, over an input that ends; \<open>envs n\<close> are the choices of
  the n-th round. The result: the state, what was written, and whether it panicked.
\<close>

function serve_loop ::
    "(nat \<Rightarrow> env) \<Rightarrow> nat \<Rightarrow> deps \<Rightarrow> conn \<Rightarrow> string \<Rightarrow> deps \<times> conn \<times> string \<times> bool" where
  "serve_loop envs n d cs input =
     (case serve_round (envs n) d cs input of
        Panics \<Rightarrow> (d, cs, [], True)
      | ReadFailed \<Rightarrow> (d, cs, [], False)
      | Stop d' cs' w \<Rightarrow> (d', cs', w, False)
      | Ignored rest \<Rightarrow> serve_loop envs (Suc n) d cs rest
      | Answered d' cs' w rest \<Rightarrow>
          (let (d'', cs'', w', p) = serve_loop envs (Suc n) d' cs' rest in (d'', cs'', w @ w', p)))"
  by pat_completeness auto
termination
  by (relation "measure (\<lambda>(envs, n, d, cs, input). length input)")
    (auto simp: serve_round_def dest!: ReadCommand_length
      split: sum.splits prod.splits if_splits option.splits)

declare serve_loop.simps [simp del]

text \<open>The commands of a pipeline are answered one by one, in order.\<close>

fun answers :: "(nat \<Rightarrow> env) \<Rightarrow> nat \<Rightarrow> deps \<Rightarrow> conn \<Rightarrow> string list list \<Rightarrow> (deps \<times> conn \<times> string list) option" where
  "answers envs n d cs [] = Some (d, cs, [])"
| "answers envs n d cs (c # cmds) =
     (case Execute (envs n) d cs c of
        Some (d', cs', w, None) \<Rightarrow>
          map_option (\<lambda>(d'', cs'', ws). (d'', cs'', w # ws)) (answers envs (Suc n) d' cs' cmds)
      | _ \<Rightarrow> None)"

lemma serve_pipeline:
  assumes "\<forall>c\<in>set cmds. command_fits c \<and> c \<noteq> []" "answers envs n d cs cmds = Some (d', cs', ws)"
  shows "serve_loop envs n d cs (enc_all cmds) = (d', cs', concat ws, False)"
  using assms
proof (induction cmds arbitrary: n d cs d' cs' ws)
  case Nil
  then show ?case
    by (subst serve_loop.simps) (auto simp: serve_round_def ReadCommand_def ReadByte_def)
next
  case (Cons c cmds)
  obtain d1 cs1 w ws' where ex: "Execute (envs n) d cs c = Some (d1, cs1, w, None)"
    and rest: "answers envs (Suc n) d1 cs1 cmds = Some (d', cs', ws')" and ws: "ws = w # ws'"
    using Cons.prems(2) by (auto split: option.splits)
  have "ReadCommand (enc_all (c # cmds)) = Inr (c, enc_all cmds)"
    using ReadCommand_array [of c "enc_all cmds"] Cons.prems(1) by simp
  then have "serve_round (envs n) d cs (enc_all (c # cmds)) = Answered d1 cs1 w (enc_all cmds)"
    using ex Cons.prems(1) by (simp add: serve_round_def)
  with Cons.IH [OF _ rest] Cons.prems(1) show ?case
    by (subst serve_loop.simps) (simp add: ws)
qed

section \<open>Disconnection\<close>

text \<open>The deferred function: every subscription of the connection is dropped.\<close>

fun drop_subs :: "string list \<Rightarrow> deps \<Rightarrow> conn \<Rightarrow> (deps \<times> conn) option" where
  "drop_subs [] d cs = Some (d, cs)"
| "drop_subs (ch # chs) d cs =
     (case map_of (c_Subs cs) ch of
        None \<Rightarrow> drop_subs chs d cs
      | Some sub \<Rightarrow>
          (case Broker_Unsubscribe (d_Broker d) sub of
             None \<Rightarrow> None
           | Some b \<Rightarrow> drop_subs chs (d\<lparr>d_Broker := b\<rparr>) (cs\<lparr>c_Subs := gm_del ch (c_Subs cs)\<rparr>)))"

definition disconnect :: "env \<Rightarrow> deps \<Rightarrow> conn \<Rightarrow> (deps \<times> conn) option" where
  "disconnect e d cs = drop_subs (ord e (gm_keys (c_Subs cs))) d cs"

end
