(* ===== verification/System.thy ===== *)
theory System
  imports Server
begin

text \<open>
  The running server (\<^verbatim>\<open>Run\<close>, \<^verbatim>\<open>sweepLoop\<close> and \<^verbatim>\<open>handleConn\<close> of
  \<^verbatim>\<open>internal/server/server.go\<close>): its start, and the acceptor, the connections with their
  forwarding goroutines, the sweeper and the shutdown as the rules of a step relation around the
  shared store and broker. The results: the invariant of the whole, why it can panic, that
  \<^verbatim>\<open>Run\<close> returns only after everything has ended, that it does so once every client has hung
  up, and that a silent client keeps it from returning.
\<close>

section \<open>State\<close>

text \<open>
  A connection is \<open>Starting\<close> until its goroutine has counted its client, \<open>Checking\<close> at the head
  of its loop, before \<^verbatim>\<open>ctx.Err()\<close>, \<open>Reading\<close> in \<^verbatim>\<open>ReadCommand\<close>, \<open>Leaving\<close> when the loop is
  over, \<open>Closing\<close> when its subscriptions are dropped and it waits for its forwarding goroutines.
  \<open>Publishing m ps n\<close> is a command \<^verbatim>\<open>PUBLISH\<close> that has taken its snapshot of the subscribers, still
  has to send to \<open>ps\<close> and has delivered \<open>n\<close> times.
  \<open>cl_in\<close> holds the bytes that have arrived and are not yet read; \<open>cl_eof\<close>: no more will.
\<close>

datatype status = Rejected | Starting | Checking | Reading | Publishing Message "sub_ptr list" int | Leaving | Closing | Gone

record client =
  cl_status :: status
  cl_in :: string
  cl_eof :: bool
  cl_out :: string
  cl_broken :: bool   \<comment> \<open>the error of the buffered writer\<close>
  cl_hand :: "(sub_ptr \<times> Message) list"   \<comment> \<open>received by a forwarding goroutine, not yet written\<close>
  cl_conn :: conn

text \<open>\<^verbatim>\<open>Run\<close> is in its accept loop, in \<^verbatim>\<open>wg.Wait\<close>, or has returned.\<close>

datatype phase = Accepting | Draining | Returned

record system =
  y_srv :: Server
  y_conns :: "client list"
  y_phase :: phase
  y_cancelled :: bool     \<comment> \<open>the context\<close>
  y_listening :: bool
  y_sweeper :: bool       \<comment> \<open>the goroutine of \<^verbatim>\<open>sweepLoop\<close> is alive\<close>
  y_wg :: int
  y_log_closed :: bool
  y_panicked :: bool

section \<open>Start\<close>

text \<open>
  \<^verbatim>\<open>Run\<close> up to the accept loop, given the file at \<^verbatim>\<open>AOFPath\<close> and whether it can be opened for
  appending and the address listened on. The new log has no commands of its own yet.
\<close>

datatype 'a started = StartFails | StartPanics | Started 'a

definition Run_start :: "(nat \<Rightarrow> env) \<Rightarrow> crash opened \<Rightarrow> bool \<Rightarrow> bool \<Rightarrow> Server \<Rightarrow> system started" where
  "Run_start envs file opens listens s =
     (let serve = (\<lambda>s.
        if listens
        then Started \<lparr>y_srv = s, y_conns = [], y_phase = Accepting, y_cancelled = False, y_listening = True,
               y_sweeper = True, y_wg = 1, y_log_closed = False, y_panicked = False\<rparr>
        else StartFails)
      in if AOFPath (srv_cfg s) = [] then serve s
         else (case replayAOF envs file s of
             (s, ReplayOk) \<Rightarrow> if opens then serve (s\<lparr>srv_aof := Some []\<rparr>) else StartFails
           | (s, ReplayErr OpenFailed) \<Rightarrow> StartFails
           | (s, ReplayErr Crash) \<Rightarrow> StartPanics
           | (s, ReplayPanic) \<Rightarrow> StartPanics))"

section \<open>Steps\<close>

text \<open>What a forwarding goroutine writes for a message.\<close>

definition deliver_bytes :: "Message \<Rightarrow> string" where
  "deliver_bytes m =
     WriteArrayHeader 3 @ WriteBulkString ''message'' @ WriteBulkString (msg_Channel m) @
     WriteBulkString (msg_Payload m)"

definition put_deps :: "deps \<Rightarrow> Server \<Rightarrow> Server" where
  "put_deps d s = s\<lparr>srv_store := d_Store d, srv_aof := d_AOF d, srv_broker := d_Broker d\<rparr>"

text \<open>What becomes of an accepted connection.\<close>

definition admit :: "Server \<Rightarrow> client" where
  "admit s =
     (if MaxClients (srv_cfg s) > 0 \<and> clients s \<ge> MaxClients (srv_cfg s)
      then \<lparr>cl_status = Rejected, cl_in = [], cl_eof = False,
            cl_out = WriteError ''ERR max number of clients reached'', cl_broken = False,
            cl_hand = [], cl_conn = new_conn True\<rparr>
      else \<lparr>cl_status = Starting, cl_in = [], cl_eof = False, cl_out = [], cl_broken = False, cl_hand = [],
            cl_conn = new_conn True\<rparr>)"

definition at :: "system \<Rightarrow> nat \<Rightarrow> status \<Rightarrow> bool" where
  "at y i st \<longleftrightarrow> \<not> y_panicked y \<and> i < length (y_conns y) \<and> cl_status (y_conns y ! i) = st"

definition set_client :: "nat \<Rightarrow> client \<Rightarrow> system \<Rightarrow> system" where
  "set_client i c y = y\<lparr>y_conns := (y_conns y)[i := c]\<rparr>"

definition count_command :: "Server \<Rightarrow> Server" where
  "count_command s = s\<lparr>totalCommands := totalCommands s + 1\<rparr>"

text \<open>
  The round of the i-th connection on the bytes that have arrived; it waits as long as these are
  not a whole command and more may come.
\<close>

definition round_of :: "system \<Rightarrow> nat \<Rightarrow> env \<Rightarrow> time \<Rightarrow> int \<Rightarrow> round" where
  "round_of y i e now aof_size =
     serve_round e (server_deps now aof_size (count_command (y_srv y))) (cl_conn (y_conns y ! i)) (cl_in (y_conns y ! i))"

definition waits :: "client \<Rightarrow> bool" where
  "waits c \<longleftrightarrow> \<not> cl_eof c \<and> (case ReadCommand (cl_in c) of Inl err \<Rightarrow> at_end err | Inr r \<Rightarrow> False)"

text \<open>Whether a command left a closed log alone; an append to it panics (\<open>Log_Append\<close>).\<close>

definition log_use_ok :: "system \<Rightarrow> deps \<Rightarrow> bool" where
  "log_use_ok y d \<longleftrightarrow> (y_log_closed y \<longrightarrow> d_AOF d = srv_aof (y_srv y))"

definition drained :: "broker \<Rightarrow> conn \<Rightarrow> bool" where
  "drained b cs \<longleftrightarrow>
     (\<forall>p\<in>set (c_delivering cs). p < length (heap b) \<and> sub_closed (heap b ! p) \<and> sub_C (heap b ! p) = [])"

definition publishing :: "client \<Rightarrow> bool" where
  "publishing c \<longleftrightarrow> (\<exists>m ps n. cl_status c = Publishing m ps n)"

text \<open>
  Writing: a writer whose error is set writes nothing any more; one that fails may have sent the
  first \<open>k\<close> bytes.
\<close>

definition put_out :: "string \<Rightarrow> client \<Rightarrow> client" where
  "put_out w c = c\<lparr>cl_out := cl_out c @ (if cl_broken c then [] else w)\<rparr>"

definition fail_out :: "nat \<Rightarrow> string \<Rightarrow> client \<Rightarrow> client" where
  "fail_out k w c = (put_out (take k w) c)\<lparr>cl_broken := True\<rparr>"

text \<open>
  The channels an \<^verbatim>\<open>UNSUBSCRIBE\<close> or \<^verbatim>\<open>SUBSCRIBE\<close> has gone through when the writing of a reply fails in
  it and ends its loop.
\<close>

definition gone_through :: "env \<Rightarrow> conn \<Rightarrow> string list \<Rightarrow> string list \<Rightarrow> bool" where
  "gone_through e cs args part \<longleftrightarrow>
     args \<noteq> [] \<and> part \<noteq> [] \<and>
     (let name = ToUpper (args ! 0) in
      name \<in> {''SUBSCRIBE'', ''UNSUBSCRIBE''} \<and> prefix part (drop 1 args) \<or>
      name = ''UNSUBSCRIBE'' \<and> length args = 1 \<and> prefix part (ord e (gm_keys (c_Subs cs))))"

text \<open>
  A command is one step (\<open>answered\<close>, \<open>stopped\<close>), apart from a publication, whose sends come after
  the lock of the broker has been released: it may also be divided (\<open>publish\<close>, \<open>send\<close>,
  \<open>published\<close>). The writing of a reply can fail (\<open>unflushed\<close>, \<open>stop_unflushed\<close>, \<open>cut_short\<close>,
  \<open>publish_unflushed\<close>), after which the connection ends, and so can that of a forwarded message
  (\<open>deliver_fails\<close>), which the connection notices at its next reply. A forwarding goroutine first
  receives a message (\<open>receive\<close>) and then waits for \<^verbatim>\<open>writeMu\<close> to write it (\<open>deliver\<close>). \<open>gone\<close> merges
  the last deferred calls of \<^verbatim>\<open>handleConn\<close>.
\<close>

inductive srv_step :: "system \<Rightarrow> system \<Rightarrow> bool" where
  accept: "\<not> y_panicked y \<Longrightarrow> y_phase y = Accepting \<Longrightarrow> y_listening y \<Longrightarrow>
    srv_step y (y\<lparr>y_conns := y_conns y @ [admit (y_srv y)],
      y_wg := y_wg y + (if cl_status (admit (y_srv y)) = Starting then 1 else 0)\<rparr>)"
| arrive: "\<not> y_panicked y \<Longrightarrow> i < length (y_conns y) \<Longrightarrow> \<not> cl_eof (y_conns y ! i) \<Longrightarrow>
    srv_step y (set_client i ((y_conns y ! i)\<lparr>cl_in := cl_in (y_conns y ! i) @ bytes\<rparr>) y)"
| hang_up: "\<not> y_panicked y \<Longrightarrow> i < length (y_conns y) \<Longrightarrow>
    srv_step y (set_client i ((y_conns y ! i)\<lparr>cl_eof := True\<rparr>) y)"
| start: "at y i Starting \<Longrightarrow>
    srv_step y (set_client i ((y_conns y ! i)\<lparr>cl_status := Checking\<rparr>)
      (y\<lparr>y_srv := (y_srv y)\<lparr>clients := clients (y_srv y) + 1\<rparr>\<rparr>))"
| check_cancelled: "at y i Checking \<Longrightarrow> y_cancelled y \<Longrightarrow>
    srv_step y (set_client i ((y_conns y ! i)\<lparr>cl_status := Leaving\<rparr>) y)"
| check: "at y i Checking \<Longrightarrow> \<not> y_cancelled y \<Longrightarrow>
    srv_step y (set_client i ((y_conns y ! i)\<lparr>cl_status := Reading\<rparr>) y)"
| panics: "at y i Reading \<Longrightarrow> env_ok e \<Longrightarrow> round_of y i e now aof_size = Panics \<Longrightarrow>
    srv_step y (y\<lparr>y_panicked := True\<rparr>)"
| read_failed: "at y i Reading \<Longrightarrow> env_ok e \<Longrightarrow> round_of y i e now aof_size = ReadFailed \<Longrightarrow>
    \<not> waits (y_conns y ! i) \<Longrightarrow>
    srv_step y (set_client i ((y_conns y ! i)\<lparr>cl_status := Leaving\<rparr>) y)"
| ignored: "at y i Reading \<Longrightarrow> env_ok e \<Longrightarrow> round_of y i e now aof_size = Ignored rest \<Longrightarrow>
    srv_step y (set_client i ((y_conns y ! i)\<lparr>cl_status := Checking, cl_in := rest\<rparr>) y)"
| answered: "at y i Reading \<Longrightarrow> env_ok e \<Longrightarrow> round_of y i e now aof_size = Answered d cs w rest \<Longrightarrow>
    log_use_ok y d \<Longrightarrow> \<not> cl_broken (y_conns y ! i) \<Longrightarrow>
    srv_step y (set_client i (put_out w ((y_conns y ! i)\<lparr>cl_status := Checking, cl_in := rest, cl_conn := cs\<rparr>))
      (y\<lparr>y_srv := put_deps d (count_command (y_srv y))\<rparr>))"
| unflushed: "at y i Reading \<Longrightarrow> env_ok e \<Longrightarrow> round_of y i e now aof_size = Answered d cs w rest \<Longrightarrow>
    log_use_ok y d \<Longrightarrow>
    srv_step y (set_client i (fail_out k w ((y_conns y ! i)\<lparr>cl_status := Leaving, cl_in := rest, cl_conn := cs\<rparr>))
      (y\<lparr>y_srv := put_deps d (count_command (y_srv y))\<rparr>))"
| stopped: "at y i Reading \<Longrightarrow> env_ok e \<Longrightarrow> round_of y i e now aof_size = Stop d cs w \<Longrightarrow>
    log_use_ok y d \<Longrightarrow>
    srv_step y (set_client i (put_out w ((y_conns y ! i)\<lparr>cl_status := Leaving, cl_conn := cs\<rparr>))
      (y\<lparr>y_srv := put_deps d (count_command (y_srv y))\<rparr>))"
| stop_unflushed: "at y i Reading \<Longrightarrow> env_ok e \<Longrightarrow> round_of y i e now aof_size = Stop d cs w \<Longrightarrow>
    log_use_ok y d \<Longrightarrow>
    srv_step y (set_client i (fail_out k w ((y_conns y ! i)\<lparr>cl_status := Leaving, cl_conn := cs\<rparr>))
      (y\<lparr>y_srv := put_deps d (count_command (y_srv y))\<rparr>))"
| cut_short: "at y i Reading \<Longrightarrow> env_ok e \<Longrightarrow> ReadCommand (cl_in (y_conns y ! i)) = Inr (args, rest) \<Longrightarrow>
    gone_through e (cl_conn (y_conns y ! i)) args part \<Longrightarrow>
    Execute e (server_deps now aof_size (count_command (y_srv y))) (cl_conn (y_conns y ! i)) (args ! 0 # part) =
      Some (d, cs, w, err) \<Longrightarrow>
    srv_step y (set_client i (fail_out k w ((y_conns y ! i)\<lparr>cl_status := Leaving, cl_in := rest, cl_conn := cs\<rparr>))
      (y\<lparr>y_srv := put_deps d (count_command (y_srv y))\<rparr>))"
| log_panics: "at y i Reading \<Longrightarrow> env_ok e \<Longrightarrow>
    round_of y i e now aof_size = Stop d cs w \<or> round_of y i e now aof_size = Answered d cs w rest \<Longrightarrow>
    \<not> log_use_ok y d \<Longrightarrow> srv_step y (y\<lparr>y_panicked := True\<rparr>)"
| publish: "at y i Reading \<Longrightarrow> ReadCommand (cl_in (y_conns y ! i)) = Inr ([name, channel, payload], rest) \<Longrightarrow>
    ToUpper name = ''PUBLISH'' \<Longrightarrow> \<not> InSubscribeMode (cl_conn (y_conns y ! i)) \<Longrightarrow>
    mset ps = mset (subscribers (srv_broker (y_srv y)) channel) \<Longrightarrow>
    srv_step y (set_client i ((y_conns y ! i)\<lparr>cl_status :=
        Publishing \<lparr>msg_Channel = channel, msg_Payload = payload\<rparr> ps 0, cl_in := rest\<rparr>)
      (y\<lparr>y_srv := count_command (y_srv y)\<rparr>))"
| send: "at y i (Publishing m (p # ps) n) \<Longrightarrow> try_send (srv_broker (y_srv y)) p m = Some (b, sent) \<Longrightarrow>
    srv_step y (set_client i ((y_conns y ! i)\<lparr>cl_status := Publishing m ps (if sent then n + 1 else n)\<rparr>)
      (y\<lparr>y_srv := (y_srv y)\<lparr>srv_broker := b\<rparr>\<rparr>))"
| send_panics: "at y i (Publishing m (p # ps) n) \<Longrightarrow> try_send (srv_broker (y_srv y)) p m = None \<Longrightarrow>
    srv_step y (y\<lparr>y_panicked := True\<rparr>)"
| published: "at y i (Publishing m [] n) \<Longrightarrow> \<not> cl_broken (y_conns y ! i) \<Longrightarrow>
    srv_step y (set_client i (put_out (WriteInteger n) ((y_conns y ! i)\<lparr>cl_status := Checking\<rparr>)) y)"
| publish_unflushed: "at y i (Publishing m [] n) \<Longrightarrow>
    srv_step y (set_client i (fail_out k (WriteInteger n) ((y_conns y ! i)\<lparr>cl_status := Leaving\<rparr>)) y)"
| disconnected: "at y i Leaving \<Longrightarrow> env_ok e \<Longrightarrow>
    disconnect e (server_deps now aof_size (y_srv y)) (cl_conn (y_conns y ! i)) = Some (d, cs) \<Longrightarrow>
    srv_step y (set_client i ((y_conns y ! i)\<lparr>cl_status := Closing, cl_conn := cs\<rparr>)
      (y\<lparr>y_srv := put_deps d (y_srv y)\<rparr>))"
| disconnect_panics: "at y i Leaving \<Longrightarrow> env_ok e \<Longrightarrow>
    disconnect e (server_deps now aof_size (y_srv y)) (cl_conn (y_conns y ! i)) = None \<Longrightarrow>
    srv_step y (y\<lparr>y_panicked := True\<rparr>)"
| receive: "\<not> y_panicked y \<Longrightarrow> i < length (y_conns y) \<Longrightarrow> p \<in> set (c_delivering (cl_conn (y_conns y ! i))) \<Longrightarrow>
    p \<notin> fst ` set (cl_hand (y_conns y ! i)) \<Longrightarrow> chan_recv (srv_broker (y_srv y)) p = Some (b, m) \<Longrightarrow>
    srv_step y (set_client i ((y_conns y ! i)\<lparr>cl_hand := (p, m) # cl_hand (y_conns y ! i)\<rparr>)
      (y\<lparr>y_srv := (y_srv y)\<lparr>srv_broker := b\<rparr>\<rparr>))"
| deliver: "\<not> y_panicked y \<Longrightarrow> i < length (y_conns y) \<Longrightarrow> \<not> publishing (y_conns y ! i) \<Longrightarrow>
    (p, m) \<in> set (cl_hand (y_conns y ! i)) \<Longrightarrow>
    srv_step y (set_client i (put_out (deliver_bytes m)
      ((y_conns y ! i)\<lparr>cl_hand := remove1 (p, m) (cl_hand (y_conns y ! i))\<rparr>)) y)"
| deliver_fails: "\<not> y_panicked y \<Longrightarrow> i < length (y_conns y) \<Longrightarrow> \<not> publishing (y_conns y ! i) \<Longrightarrow>
    (p, m) \<in> set (cl_hand (y_conns y ! i)) \<Longrightarrow>
    srv_step y (set_client i (fail_out k (deliver_bytes m)
      ((y_conns y ! i)\<lparr>cl_hand := remove1 (p, m) (cl_hand (y_conns y ! i))\<rparr>)) y)"
| gone: "at y i Closing \<Longrightarrow> drained (srv_broker (y_srv y)) (cl_conn (y_conns y ! i)) \<Longrightarrow>
    cl_hand (y_conns y ! i) = [] \<Longrightarrow>
    srv_step y (set_client i ((y_conns y ! i)\<lparr>cl_status := Gone\<rparr>)
      (y\<lparr>y_srv := (y_srv y)\<lparr>clients := clients (y_srv y) - 1\<rparr>, y_wg := y_wg y - 1\<rparr>))"
| sweep: "\<not> y_panicked y \<Longrightarrow> y_sweeper y \<Longrightarrow> env_ok e \<Longrightarrow> j < length (shards (srv_store (y_srv y))) \<Longrightarrow>
    srv_step y (y\<lparr>y_srv := (y_srv y)\<lparr>srv_store := sweep_at (ord e) (clk e 0) j (srv_store (y_srv y))\<rparr>\<rparr>)"
| sweeper_ends: "\<not> y_panicked y \<Longrightarrow> y_sweeper y \<Longrightarrow> y_cancelled y \<Longrightarrow>
    srv_step y (y\<lparr>y_sweeper := False, y_wg := y_wg y - 1\<rparr>)"
| cancel: "\<not> y_panicked y \<Longrightarrow> srv_step y (y\<lparr>y_cancelled := True\<rparr>)"
| close_listener: "\<not> y_panicked y \<Longrightarrow> y_cancelled y \<Longrightarrow> srv_step y (y\<lparr>y_listening := False\<rparr>)"
| accept_fails: "\<not> y_panicked y \<Longrightarrow> y_phase y = Accepting \<Longrightarrow> y_cancelled y \<Longrightarrow>
    srv_step y (y\<lparr>y_phase := Draining\<rparr>)"
| returns: "\<not> y_panicked y \<Longrightarrow> y_phase y = Draining \<Longrightarrow> y_wg y = 0 \<Longrightarrow>
    srv_step y (y\<lparr>y_phase := Returned, y_log_closed := True\<rparr>)"

inductive_cases srv_stepE: "srv_step y y'"

section \<open>What a connection leaves alone\<close>

definition ptrs :: "conn \<Rightarrow> sub_ptr set" where
  "ptrs cs = ran (map_of (c_Subs cs))"

text \<open>A forwarding goroutine serves a subscription of its connection or a closed one.\<close>

definition deliver_ok :: "broker \<Rightarrow> conn \<Rightarrow> bool" where
  "deliver_ok b cs \<longleftrightarrow>
     (\<forall>p\<in>set (c_delivering cs). p < length (heap b) \<and> (p \<in> ptrs cs \<or> sub_closed (heap b ! p)))"

text \<open>Closed channels stay closed, and empty ones among them empty.\<close>

definition closed_kept :: "broker \<Rightarrow> broker \<Rightarrow> bool" where
  "closed_kept b b' \<longleftrightarrow> length (heap b) \<le> length (heap b') \<and>
     (\<forall>p<length (heap b). sub_closed (heap b ! p) \<longrightarrow>
        sub_closed (heap b' ! p) \<and> (sub_C (heap b ! p) = [] \<longrightarrow> sub_C (heap b' ! p) = []))"

text \<open>A change of broker and connection that touches no subscription of another connection.\<close>

definition own :: "broker \<Rightarrow> conn \<Rightarrow> broker \<Rightarrow> conn \<Rightarrow> bool" where
  "own b cs b' cs' \<longleftrightarrow>
     closed_kept b b' \<and> (deliver_ok b cs \<longrightarrow> deliver_ok b' cs') \<and>
     (\<forall>p\<in>ptrs cs'. p \<in> ptrs cs \<or> length (heap b) \<le> p) \<and>
     (\<forall>ch p. p < length (heap b) \<and> p \<in> set (subscribers b ch) \<and> p \<notin> ptrs cs \<longrightarrow> p \<in> set (subscribers b' ch))"

lemma closed_kept_refl [simp]: "closed_kept b b"
  by (simp add: closed_kept_def)

lemma closed_kept_trans: "closed_kept b b1 \<Longrightarrow> closed_kept b1 b2 \<Longrightarrow> closed_kept b b2"
  unfolding closed_kept_def by (meson le_trans order_less_le_trans)

lemma closed_keptI:
  assumes "length (heap b) \<le> length (heap b')"
    "\<And>p. p < length (heap b) \<Longrightarrow> sub_closed (heap b ! p) \<Longrightarrow> heap b' ! p = heap b ! p"
  shows "closed_kept b b'"
  using assms by (auto simp: closed_kept_def)

lemma own_refl [simp]: "own b cs b cs"
  by (simp add: own_def)

lemma own_trans:
  assumes "own b cs b1 cs1" "own b1 cs1 b2 cs2" shows "own b cs b2 cs2"
proof -
  have l: "length (heap b) \<le> length (heap b1)" using assms(1) by (simp add: own_def closed_kept_def)
  then have "\<forall>p\<in>ptrs cs2. p \<in> ptrs cs \<or> length (heap b) \<le> p"
    using assms unfolding own_def by (meson le_trans)
  moreover have "p \<in> set (subscribers b2 ch)"
    if "p < length (heap b)" "p \<in> set (subscribers b ch)" "p \<notin> ptrs cs" for ch p
    using assms that l unfolding own_def by (meson not_le order_less_le_trans)
  ultimately show ?thesis using assms closed_kept_trans unfolding own_def by blast
qed

lemma own_other:
  assumes "own b cs b' cs'" "conn_ok b o'" "ptrs o' \<inter> ptrs cs = {}"
  shows "conn_ok b' o' \<and> ptrs o' \<inter> ptrs cs' = {}"
proof -
  have p: "p < length (heap b)" "p \<in> set (subscribers b ch)" "p \<notin> ptrs cs"
    if "map_of (c_Subs o') ch = Some p" for ch p
    using assms(2,3) that by (auto simp: conn_ok_def ptrs_def ran_def)
  have "conn_ok b' o'" using assms(1,2) p unfolding conn_ok_def own_def closed_kept_def
    by (meson order_less_le_trans)
  moreover have "p \<notin> ptrs cs'" if "p \<in> ptrs o'" for p
  proof -
    from that obtain ch where "map_of (c_Subs o') ch = Some p" by (auto simp: ptrs_def ran_def)
    with p assms(1) show ?thesis unfolding own_def by fastforce
  qed
  ultimately show ?thesis by blast
qed

lemma closed_kept_conn:
  assumes "closed_kept b b'"
  shows "deliver_ok b cs \<Longrightarrow> deliver_ok b' cs" "drained b cs \<Longrightarrow> drained b' cs"
  using assms unfolding closed_kept_def deliver_ok_def drained_def by (meson order_less_le_trans)+

lemma Unsubscribe_closed:
  assumes "broker_ok b" "Broker_Unsubscribe b p = Some b'"
  shows "closed_kept b b' \<and>
    (p \<in> set (subscribers b (sub_Channel (heap b ! p))) \<longrightarrow> sub_closed (heap b' ! p))"
  using assms
proof (cases rule: Unsubscribe_cases)
  case 2
  have p: "p < length (heap b)" "\<not> sub_closed (heap b ! p)" using subscribers_ok [OF assms(1) 2(1)] by auto
  have "heap b' ! q = heap b ! q" if "sub_closed (heap b ! q)" for q
    using that p(2) by (cases "q = p") (simp_all add: 2(2))
  moreover have "length (heap b') = length (heap b)" by (simp add: 2(2))
  ultimately have "closed_kept b b'" by (intro closed_keptI) simp_all
  with p show ?thesis by (simp add: 2(2))
qed simp

lemma own_unsubscribe_one:
  assumes "broker_ok (d_Broker d)" "conn_ok (d_Broker d) cs" "unsubscribe_one ch d cs = Some (d', cs')"
  shows "own (d_Broker d) cs (d_Broker d') cs'"
proof (cases "map_of (c_Subs cs) ch")
  case None
  with assms(3) show ?thesis by (simp add: unsubscribe_one_def)
next
  case (Some p)
  then obtain b where b: "Broker_Unsubscribe (d_Broker d) p = Some b"
    "d' = d\<lparr>d_Broker := b\<rparr>" "cs' = cs\<lparr>c_Subs := gm_del ch (c_Subs cs)\<rparr>"
    using assms(3) by (auto simp: unsubscribe_one_def)
  have p: "p \<in> ptrs cs" "p \<in> set (subscribers (d_Broker d) ch)"
    using Some assms(2) by (auto simp: ptrs_def ran_def conn_ok_def)
  have closed: "sub_closed (heap b ! p)"
    using Unsubscribe_closed [OF assms(1) b(1)] subscribers_ok [OF assms(1) p(2)] p(2) by simp
  have kept: "closed_kept (d_Broker d) b" using Unsubscribe_closed [OF assms(1) b(1)] by simp
  have rest: "q \<in> ptrs cs' \<or> q = p" if "q \<in> ptrs cs" for q
    using that Some b(3) by (auto simp: ptrs_def ran_def) (metis option.inject)
  have "deliver_ok (d_Broker d') cs'" if "deliver_ok (d_Broker d) cs"
    using that closed rest kept Unsubscribe_subscribers [OF assms(1) b(1)] b(2,3)
    unfolding deliver_ok_def closed_kept_def by fastforce
  with p b Unsubscribe_subscribers [OF assms(1) b(1)] kept show ?thesis
    by (auto simp: own_def ptrs_def ran_def split: if_splits)
qed

lemma own_unsubscribe_loop:
  "broker_ok (d_Broker d) \<Longrightarrow> conn_ok (d_Broker d) cs \<Longrightarrow> unsubscribe_loop chs d cs = Some (d', cs', w) \<Longrightarrow>
    own (d_Broker d) cs (d_Broker d') cs'"
proof (induction chs arbitrary: d cs w)
  case (Cons ch chs)
  obtain d1 cs1 where 1: "unsubscribe_one ch d cs = Some (d1, cs1)"
    "broker_ok (d_Broker d1)" "conn_ok (d_Broker d1) cs1"
    using unsubscribe_one_ok [OF Cons.prems(1,2)] by blast
  then obtain w' where "unsubscribe_loop chs d1 cs1 = Some (d', cs', w')"
    using Cons.prems(3) by (auto simp: unsubscribe_loop_Cons)
  from Cons.IH [OF 1(2,3) this] own_unsubscribe_one [OF Cons.prems(1,2) 1(1)] show ?case
    using own_trans by blast
qed simp

text \<open>A disconnection is an \<^verbatim>\<open>UNSUBSCRIBE\<close> without replies.\<close>

lemma drop_subs_loop:
  "drop_subs chs d cs = map_option (\<lambda>(d', cs', w). (d', cs')) (unsubscribe_loop chs d cs)"
  by (induction chs arbitrary: d cs)
    (auto simp: unsubscribe_loop_Cons unsubscribe_one_def option.map_comp comp_def case_prod_unfold split: option.splits)

lemma own_subscribe_loop:
  "subscribe_loop chs d cs = (d', cs', w) \<Longrightarrow> own (d_Broker d) cs (d_Broker d') cs'"
proof (induction chs arbitrary: d cs w)
  case (Cons ch chs)
  show ?case
  proof (cases "map_of (c_Subs cs) ch")
    case (Some p)
    with Cons.IH [of d cs w] Cons.prems show ?thesis by simp
  next
    case None
    let ?b = "fst (Broker_Subscribe (d_Broker d) ch)" and ?p = "length (heap (d_Broker d))"
    have p: "snd (Broker_Subscribe (d_Broker d) ch) = ?p"
      by (simp add: Broker_Subscribe_def Let_def)
    define cs1 where "cs1 = (let c = cs\<lparr>c_Subs := gm_put ch ?p (c_Subs cs)\<rparr>
      in if c_Deliver c then c\<lparr>c_delivering := c_delivering c @ [?p]\<rparr> else c)"
    have subs: "c_Subs cs1 = gm_put ch ?p (c_Subs cs)" by (simp add: cs1_def Let_def)
    have ptrs: "ptrs cs1 = insert ?p (ptrs cs)"
      using None by (auto simp: ptrs_def ran_def subs) (metis option.distinct(1))
    have "closed_kept (d_Broker d) ?b"
      by (intro closed_keptI) (simp_all add: heap_grows(1,2))
    moreover have "deliver_ok ?b cs1" if "deliver_ok (d_Broker d) cs"
    proof -
      have "set (c_delivering cs1) \<subseteq> insert ?p (set (c_delivering cs))" by (auto simp: cs1_def Let_def)
      with that show ?thesis unfolding deliver_ok_def ptrs
        by (auto simp: heap_grows(1,2) less_Suc_eq dest!: subsetD)
    qed
    ultimately have "own (d_Broker d) cs ?b cs1"
      using ptrs by (auto simp: own_def subscribers_Subscribe)
    moreover obtain w' where "subscribe_loop chs (d\<lparr>d_Broker := ?b\<rparr>) cs1 = (d', cs', w')"
      using Cons.prems(1) None p by (auto simp: Let_def case_prod_unfold cs1_def prod_eq_iff)
    ultimately show ?thesis using Cons.IH [of "d\<lparr>d_Broker := ?b\<rparr>" cs1 w'] own_trans by auto
  qed
qed simp

lemma own_same_conn:
  assumes "closed_kept b b'" "subs b' = subs b" shows "own b cs b' cs"
  using assms closed_kept_conn(1) [OF assms(1), of cs] by (simp add: own_def subscribers_def)

lemma own_Publish:
  assumes "broker_ok b" "perm_order po" "Broker_Publish po b ch m = Some (b', n)"
  shows "own b cs b' cs"
proof (rule own_same_conn)
  from Publish_result [OF assms(1,2), of ch m] assms(3)
  have r: "subs b' = subs b" "length (heap b') = length (heap b)"
    "\<forall>q. sub_closed (heap b' ! q) = sub_closed (heap b ! q)"
    "\<forall>q<length (heap b). sub_C (heap b' ! q) = sub_C (heap b ! q) @
       (if q \<in> set (subscribers b ch) \<and> length (sub_C (heap b ! q)) < chan_cap
        then [\<lparr>msg_Channel = ch, msg_Payload = m\<rparr>] else [])" by auto
  then show "closed_kept b b'" using subscribers_ok [OF assms(1)] by (auto simp: closed_kept_def)
  show "subs b' = subs b" by (rule r(1))
qed

lemma own_Execute:
  assumes "Execute e d cs args = Some (d', cs', w, err)" "deps_ok d" "conn_ok (d_Broker d) cs" "env_ok e"
  shows "own (d_Broker d) cs (d_Broker d') cs'"
proof (cases "data_handler e d (ToUpper (args ! 0)) args")
  case (Some r)
  then have "d_Broker d' = d_Broker d \<and> cs' = cs"
    using assms(1) data_handler_broker [OF Some]
    by (auto simp: Execute_def Let_def split: if_splits prod.splits)
  then show ?thesis by simp
next
  case None
  have ok: "broker_ok (d_Broker d)" using assms(2) by (simp add: deps_ok_def)
  have sub: "own (d_Broker d) cs (d_Broker d1) cs1" if "cmdSubscribe d cs args = (d1, cs1, w1)" for d1 cs1 w1
    using that own_subscribe_loop by (auto simp: cmdSubscribe_def split: if_splits)
  have unsub: "own (d_Broker d) cs (d_Broker d1) cs1"
    if "cmdUnsubscribe e d cs args = Some (d1, cs1, w1)" for d1 cs1 w1
    using that own_unsubscribe_loop [OF ok assms(3)] by (auto simp: cmdUnsubscribe_def Let_def split: if_splits)
  have pub: "own (d_Broker d) cs (d_Broker d1) cs" if "cmdPublish e d args = Some (d1, w1)" for d1 w1
    using that own_Publish [OF ok] assms(4)
    by (auto simp: cmdPublish_def env_ok_def split: if_splits option.splits)
  from assms(1) None sub unsub pub show ?thesis
    by (auto simp: Execute_def Let_def split: if_splits option.splits prod.splits)
qed

lemma unsubscribe_loop_subs:
  "unsubscribe_loop chs d cs = Some (d', cs', w) \<Longrightarrow>
    map_of (c_Subs cs') = map_of (c_Subs cs) |` (- set chs)"
proof (induction chs arbitrary: d cs w)
  case (Cons ch chs)
  then obtain d1 cs1 w' where 1: "unsubscribe_one ch d cs = Some (d1, cs1)"
    "unsubscribe_loop chs d1 cs1 = Some (d', cs', w')"
    by (auto simp: unsubscribe_loop_Cons split: option.splits)
  have "map_of (c_Subs cs1) = (map_of (c_Subs cs))(ch := None)"
    using 1(1) by (auto simp: unsubscribe_one_def fun_upd_idem_iff split: option.splits)
  with Cons.IH [OF 1(2)] show ?case by (auto simp: restrict_map_def fun_eq_iff)
qed (simp add: restrict_map_def)

lemma disconnect_ok:
  assumes "deps_ok d" "conn_ok (d_Broker d) cs" "env_ok e"
  shows "\<exists>d' cs'. disconnect e d cs = Some (d', cs') \<and> deps_ok d' \<and> c_Subs cs' = [] \<and>
    d_AOF d' = d_AOF d \<and> own (d_Broker d) cs (d_Broker d') cs'"
proof -
  let ?chs = "ord e (gm_keys (c_Subs cs))"
  have ok: "typed (d_Store d)" "broker_ok (d_Broker d)" using assms(1) by (auto simp: deps_ok_def)
  obtain d' cs' w where l: "unsubscribe_loop ?chs d cs = Some (d', cs', w)" "broker_ok (d_Broker d')"
    using unsubscribe_loop_ok [OF ok(2) assms(2)] by blast
  have "set ?chs = dom (map_of (c_Subs cs))" using assms(3) by (simp add: env_ok_def)
  with unsubscribe_loop_subs [OF l(1)] have "map_of (c_Subs cs') = Map.empty"
    by (auto simp: restrict_map_def fun_eq_iff domIff)
  then have "c_Subs cs' = []" by simp
  with l ok unsubscribe_loop_frame [OF l(1)] own_unsubscribe_loop [OF ok(2) assms(2) l(1)] show ?thesis
    by (simp add: disconnect_def drop_subs_loop deps_ok_def)
qed

lemma chan_recv_own:
  assumes "chan_recv b p = Some (b', m)" shows "own b cs b' cs" "conn_ok b' cs = conn_ok b cs"
proof -
  obtain ms where b': "b' = b\<lparr>heap := (heap b)[p := (heap b ! p)\<lparr>sub_C := ms\<rparr>]\<rparr>" "sub_C (heap b ! p) = m # ms"
    using assms by (auto simp: chan_recv_def split: list.splits)
  then have *: "subs b' = subs b" "length (heap b') = length (heap b)" by simp_all
  have "heap b' ! q = (if q = p then (heap b ! p)\<lparr>sub_C := ms\<rparr> else heap b ! q)" if "q < length (heap b)" for q
    using that b'(1) by (cases "q = p") simp_all
  with b'(2) *(2) have "closed_kept b b'" by (simp add: closed_kept_def)
  then show "own b cs b' cs" using *(1) by (rule own_same_conn)
  from * show "conn_ok b' cs = conn_ok b cs" by (rule conn_ok_subs)
qed

text \<open>What a round that runs a command comes from.\<close>

lemma serve_round_Execute:
  assumes "serve_round e d cs input = Stop d' cs' w \<or> serve_round e d cs input = Answered d' cs' w rest"
  shows "\<exists>args err. Execute e d cs args = Some (d', cs', w, err)"
  using assms by (auto simp: serve_round_def split: sum.splits if_splits option.splits prod.splits)

lemma Execute_step:
  assumes "Execute e d cs args = Some (d', cs', w, err)" "deps_ok d" "conn_ok (d_Broker d) cs" "env_ok e"
  shows "typed (d_Store d')" "broker_ok (d_Broker d')" "conn_ok (d_Broker d') cs'"
    "own (d_Broker d) cs (d_Broker d') cs'"
  using Execute_ok [OF assms(2-4), of args] own_Execute [OF assms] assms(1) by (auto simp: deps_ok_def)

section \<open>Invariant\<close>

text \<open>Connections that hold a place in the wait group, and those that are counted.\<close>

definition occupied :: "client \<Rightarrow> bool" where
  "occupied c \<longleftrightarrow> cl_status c \<noteq> Rejected \<and> cl_status c \<noteq> Gone"

definition live :: "client \<Rightarrow> bool" where
  "live c \<longleftrightarrow> cl_status c \<notin> {Rejected, Starting, Gone}"

fun status_targets :: "status \<Rightarrow> sub_ptr list" where
  "status_targets (Publishing m ps n) = ps"
| "status_targets _ = []"

abbreviation targets :: "client \<Rightarrow> sub_ptr list" where
  "targets c \<equiv> status_targets (cl_status c)"

definition client_ok :: "broker \<Rightarrow> client \<Rightarrow> bool" where
  "client_ok b c \<longleftrightarrow>
     conn_ok b (cl_conn c) \<and> deliver_ok b (cl_conn c) \<and>
     (cl_status c \<in> {Rejected, Starting, Closing, Gone} \<longrightarrow> c_Subs (cl_conn c) = []) \<and>
     (cl_status c \<in> {Rejected, Gone} \<longrightarrow> drained b (cl_conn c) \<and> cl_hand c = []) \<and>
     (\<forall>p\<in>set (targets c). p < length (heap b))"

definition sys_good :: "system \<Rightarrow> bool" where
  "sys_good y \<longleftrightarrow>
     typed (srv_store (y_srv y)) \<and> broker_ok (srv_broker (y_srv y)) \<and>
     (\<forall>i<length (y_conns y). client_ok (srv_broker (y_srv y)) (y_conns y ! i)) \<and>
     (\<forall>i<length (y_conns y). \<forall>j<length (y_conns y). i \<noteq> j \<longrightarrow>
        ptrs (cl_conn (y_conns y ! i)) \<inter> ptrs (cl_conn (y_conns y ! j)) = {}) \<and>
     clients (y_srv y) = int (length (filter live (y_conns y))) \<and>
     y_wg y = (if y_sweeper y then 1 else 0) + int (length (filter occupied (y_conns y))) \<and>
     (y_phase y \<noteq> Accepting \<longrightarrow> y_cancelled y) \<and>
     (y_phase y = Returned \<longrightarrow> y_wg y = 0) \<and>
     (y_log_closed y \<longleftrightarrow> y_phase y = Returned)"

text \<open>What \<^verbatim>\<open>Run\<close> starts from.\<close>

definition sys_init :: "system \<Rightarrow> bool" where
  "sys_init y \<longleftrightarrow> typed (srv_store (y_srv y)) \<and> broker_ok (srv_broker (y_srv y)) \<and>
     clients (y_srv y) = 0 \<and> y_conns y = [] \<and> y_phase y = Accepting \<and> \<not> y_cancelled y \<and>
     y_sweeper y \<and> y_wg y = 1 \<and> \<not> y_log_closed y \<and> \<not> y_panicked y"

lemma filter_update:
  "i < length xs \<Longrightarrow> int (length (filter P (xs[i := x]))) =
    int (length (filter P xs)) - (if P (xs ! i) then 1 else 0) + (if P x then 1 else 0)"
proof -
  assume i: "i < length xs"
  then have "length (filter P xs) = length (filter P (take i xs @ xs ! i # drop (Suc i) xs))"
    by (metis id_take_nth_drop)
  with i show ?thesis by (simp add: upd_conv_take_nth_drop)
qed

lemma wg_zero:
  assumes "sys_good y" "y_wg y = 0"
  shows "\<not> y_sweeper y" "i < length (y_conns y) \<Longrightarrow> \<not> occupied (y_conns y ! i)"
proof -
  have *: "(if y_sweeper y then 1 else 0) + int (length (filter occupied (y_conns y))) = 0"
    using assms by (simp add: sys_good_def)
  then show "\<not> y_sweeper y" by (auto split: if_splits)
  have "filter occupied (y_conns y) = []" using * by (auto split: if_splits)
  then show "i < length (y_conns y) \<Longrightarrow> \<not> occupied (y_conns y ! i)"
    by (simp add: filter_empty_conv)
qed

lemma client_ok_kept:
  assumes "closed_kept b b'" "client_ok b c" "conn_ok b' (cl_conn c)" shows "client_ok b' c"
  using assms closed_kept_conn [OF assms(1)] unfolding client_ok_def closed_kept_def
  by (meson order_less_le_trans)

text \<open>The step of one connection, with its effect on the shared broker and store.\<close>

lemma sys_good_update:
  assumes "sys_good y" "i < length (y_conns y)" "typed (srv_store s)" "broker_ok (srv_broker s)"
    "client_ok (srv_broker s) c"
    "own (srv_broker (y_srv y)) (cl_conn (y_conns y ! i)) (srv_broker s) (cl_conn c)"
    "clients s = clients (y_srv y) - (if live (y_conns y ! i) then 1 else 0) + (if live c then 1 else 0)"
    "w = y_wg y - (if occupied (y_conns y ! i) then 1 else 0) + (if occupied c then 1 else 0)"
    "occupied c \<longrightarrow> occupied (y_conns y ! i)"
  shows "sys_good (set_client i c (y\<lparr>y_srv := s, y_wg := w\<rparr>))"
proof -
  let ?cs = "y_conns y" and ?b = "srv_broker (y_srv y)" and ?b' = "srv_broker s"
  have other: "client_ok ?b' (?cs ! j) \<and> ptrs (cl_conn (?cs ! j)) \<inter> ptrs (cl_conn c) = {}"
    if "j < length ?cs" "j \<noteq> i" for j
  proof -
    have "client_ok ?b (?cs ! j)" "ptrs (cl_conn (?cs ! j)) \<inter> ptrs (cl_conn (?cs ! i)) = {}"
      using assms(1,2) that by (auto simp: sys_good_def)
    moreover have "closed_kept ?b ?b'" using assms(6) by (simp add: own_def)
    ultimately show ?thesis using own_other [OF assms(6)] client_ok_kept
      unfolding client_ok_def by blast
  qed
  have nth: "?cs[i := c] ! j = (if j = i then c else ?cs ! j)" if "j < length ?cs" for j
    using that by simp
  have "client_ok ?b' (?cs[i := c] ! j)" if "j < length ?cs" for j
    using other [OF that] assms(5) nth [OF that] by simp
  moreover have "ptrs (cl_conn (?cs[i := c] ! j)) \<inter> ptrs (cl_conn (?cs[i := c] ! k)) = {}"
    if "j < length ?cs" "k < length ?cs" "j \<noteq> k" for j k
  proof -
    have "ptrs (cl_conn (?cs ! j)) \<inter> ptrs (cl_conn (?cs ! k)) = {}"
      using assms(1) that by (simp add: sys_good_def)
    with other [of j] other [of k] that show ?thesis
      by (cases "j = i"; cases "k = i") (simp_all add: nth Int_commute)
  qed
  moreover have "clients s = int (length (filter live (?cs[i := c])))"
    using assms(1,7) filter_update [OF assms(2), of live c] by (simp add: sys_good_def)
  moreover have "w = (if y_sweeper y then 1 else 0) + int (length (filter occupied (?cs[i := c])))"
    using assms(1,8) filter_update [OF assms(2), of occupied c] by (simp add: sys_good_def)
  moreover have "w = 0" if "y_phase y = Returned"
  proof -
    have "y_wg y = 0" using assms(1) that by (simp add: sys_good_def)
    with wg_zero(2) [OF assms(1) _ assms(2)] assms(8,9) show ?thesis by simp
  qed
  ultimately show ?thesis using assms(1,3,4) unfolding sys_good_def set_client_def by simp
qed

text \<open>A step that only moves a connection along.\<close>

lemma sys_good_move:
  assumes "sys_good y" "i < length (y_conns y)" "cl_conn c = cl_conn (y_conns y ! i)"
    "live c = live (y_conns y ! i)" "occupied c = occupied (y_conns y ! i)"
    "cl_status c = cl_status (y_conns y ! i) \<or> cl_status c \<in> {Checking, Reading, Leaving}"
    "cl_hand (y_conns y ! i) = [] \<longrightarrow> cl_hand c = []"
  shows "sys_good (set_client i c y)"
proof -
  have "client_ok (srv_broker (y_srv y)) (y_conns y ! i)" using assms(1,2) by (simp add: sys_good_def)
  then have "client_ok (srv_broker (y_srv y)) c"
    using assms(6)
  proof (elim disjE)
    assume st: "cl_status c = cl_status (y_conns y ! i)"
    assume "client_ok (srv_broker (y_srv y)) (y_conns y ! i)"
    then show ?thesis unfolding client_ok_def st assms(3) using assms(7) by blast
  next
    assume "cl_status c \<in> {Checking, Reading, Leaving}"
    moreover assume "client_ok (srv_broker (y_srv y)) (y_conns y ! i)"
    ultimately show ?thesis unfolding client_ok_def assms(3) by fastforce
  qed
  moreover have "typed (srv_store (y_srv y))" "broker_ok (srv_broker (y_srv y))"
    using assms(1) by (simp_all add: sys_good_def)
  ultimately have "sys_good (set_client i c (y\<lparr>y_srv := y_srv y, y_wg := y_wg y\<rparr>))"
    by (intro sys_good_update [OF assms(1,2)]) (simp_all add: assms(3-5))
  then show ?thesis by simp
qed

lemma sys_good_accept:
  assumes "sys_good y" "y_phase y = Accepting"
  shows "sys_good (y\<lparr>y_conns := y_conns y @ [admit (y_srv y)],
      y_wg := y_wg y + (if cl_status (admit (y_srv y)) = Starting then 1 else 0)\<rparr>)"
proof -
  let ?c = "admit (y_srv y)"
  have c: "ptrs (cl_conn ?c) = {}" "\<not> live ?c" "client_ok b ?c" "occupied ?c \<longleftrightarrow> cl_status ?c = Starting" for b
    by (auto simp: admit_def live_def occupied_def new_conn_def client_ok_def deliver_ok_def drained_def conn_ok_def ptrs_def)
  have "client_ok (srv_broker (y_srv y)) ((y_conns y @ [?c]) ! i)" if "i < Suc (length (y_conns y))" for i
    using assms c(3) that by (auto simp: sys_good_def nth_append less_Suc_eq)
  moreover have "ptrs (cl_conn ((y_conns y @ [?c]) ! i)) \<inter> ptrs (cl_conn ((y_conns y @ [?c]) ! j)) = {}"
    if "i < Suc (length (y_conns y))" "j < Suc (length (y_conns y))" "i \<noteq> j" for i j
    using assms c(1) that unfolding sys_good_def nth_append less_Suc_eq by auto
  ultimately show ?thesis using assms c(2,4) unfolding sys_good_def by simp
qed

lemma server_deps_simps [simp]:
  "d_Store (server_deps now n s) = srv_store s" "d_Broker (server_deps now n s) = srv_broker s"
  "d_AOF (server_deps now n s) = srv_aof s"
  by (simp_all add: server_deps_def)

lemma put_deps_simps [simp]:
  "srv_store (put_deps d s) = d_Store d" "srv_broker (put_deps d s) = d_Broker d"
  "clients (put_deps d s) = clients s" "srv_cfg (put_deps d s) = srv_cfg s"
  by (simp_all add: put_deps_def)

lemma counted_simps [simp]:
  "srv_store (count_command s) = srv_store s" "srv_broker (count_command s) = srv_broker s"
  "srv_aof (count_command s) = srv_aof s" "clients (count_command s) = clients s" "srv_cfg (count_command s) = srv_cfg s"
  by (simp_all add: count_command_def)

lemma set_client_simps [simp]:
  "y_srv (set_client i c y) = y_srv y" "y_conns (set_client i c y) = (y_conns y)[i := c]"
  "y_phase (set_client i c y) = y_phase y" "y_cancelled (set_client i c y) = y_cancelled y"
  "y_panicked (set_client i c y) = y_panicked y" "y_sweeper (set_client i c y) = y_sweeper y"
  "y_log_closed (set_client i c y) = y_log_closed y" "y_wg (set_client i c y) = y_wg y"
  by (simp_all add: set_client_def)

lemma sys_goodD:
  assumes "sys_good y" "i < length (y_conns y)"
  shows "deps_ok (server_deps now n (y_srv y))" "deps_ok (server_deps now n (count_command (y_srv y)))"
    "client_ok (srv_broker (y_srv y)) (y_conns y ! i)"
    "conn_ok (srv_broker (y_srv y)) (cl_conn (y_conns y ! i))"
  using assms by (auto simp: sys_good_def deps_ok_def client_ok_def)

lemma put_out_simps [simp]:
  "cl_status (put_out w c) = cl_status c" "cl_conn (put_out w c) = cl_conn c" "cl_in (put_out w c) = cl_in c"
  "cl_eof (put_out w c) = cl_eof c" "cl_broken (put_out w c) = cl_broken c" "cl_hand (put_out w c) = cl_hand c"
  "cl_out (put_out w c) = cl_out c @ (if cl_broken c then [] else w)"
  by (simp_all add: put_out_def)

lemma fail_out_simps [simp]:
  "cl_status (fail_out k w c) = cl_status c" "cl_conn (fail_out k w c) = cl_conn c" "cl_in (fail_out k w c) = cl_in c"
  "cl_eof (fail_out k w c) = cl_eof c" "cl_broken (fail_out k w c)" "cl_hand (fail_out k w c) = cl_hand c"
  "cl_out (fail_out k w c) = cl_out c @ (if cl_broken c then [] else take k w)"
  by (simp_all add: fail_out_def)

text \<open>A send of a publication.\<close>

lemma try_send_own:
  assumes "try_send b p m = Some (b', sent)" shows "own b cs b' cs" "conn_ok b' cs = conn_ok b cs"
proof -
  note fr = try_send_frame [OF assms]
  have "\<not> sub_closed (heap b ! p)" using assms by (auto simp: try_send_def Let_def split: if_splits)
  then have "closed_kept b b'" using fr(2,5) by (intro closed_keptI) (simp, metis)
  then show "own b cs b' cs" using fr(1) by (rule own_same_conn)
  show "conn_ok b' cs = conn_ok b cs" using fr(1,2) by (rule conn_ok_subs)
qed

text \<open>A command that ran.\<close>

lemma command_good:
  assumes "sys_good y" "at y i Reading" "env_ok e"
    "Execute e (server_deps now n (count_command (y_srv y))) (cl_conn (y_conns y ! i)) args = Some (d, cs, w, err)"
    "cl_conn c = cs" "cl_status c \<in> {Checking, Leaving}"
  shows "sys_good (set_client i c (y\<lparr>y_srv := put_deps d (count_command (y_srv y))\<rparr>))"
proof -
  have i: "i < length (y_conns y)" "cl_status (y_conns y ! i) = Reading" using assms(2) by (auto simp: at_def)
  have ok: "typed (d_Store d)" "broker_ok (d_Broker d)" "conn_ok (d_Broker d) cs"
    "own (srv_broker (y_srv y)) (cl_conn (y_conns y ! i)) (d_Broker d) cs"
    using Execute_step [OF assms(4) sys_goodD(2) [OF assms(1) i(1)]] sys_goodD(4) [OF assms(1) i(1)] assms(3) by simp_all
  have "deliver_ok (srv_broker (y_srv y)) (cl_conn (y_conns y ! i))"
    using sys_goodD(3) [OF assms(1) i(1)] by (simp add: client_ok_def)
  then have "deliver_ok (d_Broker d) cs" using ok(4) by (simp add: own_def)
  then have "client_ok (d_Broker d) c" using ok(3) assms(5,6) by (auto simp: client_ok_def)
  then have "sys_good (set_client i c (y\<lparr>y_srv := put_deps d (count_command (y_srv y)), y_wg := y_wg y\<rparr>))"
    using ok assms(5,6) i by (intro sys_good_update [OF assms(1) i(1)]) (auto simp: live_def occupied_def)
  then show ?thesis by simp
qed

lemma round_good:
  assumes "sys_good y" "at y i Reading" "env_ok e"
    "round_of y i e now n = Stop d cs w \<or> round_of y i e now n = Answered d cs w rest"
    "cl_conn c = cs" "cl_status c \<in> {Checking, Leaving}"
  shows "sys_good (set_client i c (y\<lparr>y_srv := put_deps d (count_command (y_srv y))\<rparr>))"
  using serve_round_Execute assms(4) command_good [OF assms(1-3) _ assms(5,6)] unfolding round_of_def by blast

lemma round_panics_reason:
  assumes "sys_good y" "at y i Reading" "env_ok e" "round_of y i e now n = Panics"
  shows "ReadCommand (cl_in (y_conns y ! i)) = Inl MakePanic"
proof -
  have i: "i < length (y_conns y)" using assms(2) by (simp add: at_def)
  let ?d = "server_deps now n (count_command (y_srv y))" and ?c = "y_conns y ! i"
  have "result_ok (Execute e ?d (cl_conn ?c) args)" for args
    using Execute_ok [OF sys_goodD(2) [OF assms(1) i]] sys_goodD(4) [OF assms(1) i] assms(3) by simp
  then have ex: "Execute e ?d (cl_conn ?c) args \<noteq> None" for args by (metis result_ok.simps(1))
  show ?thesis
  proof (cases "ReadCommand (cl_in ?c)")
    case (Inl err)
    with assms(4) show ?thesis by (simp add: round_of_def serve_round_def split: if_splits)
  next
    case (Inr r)
    with assms(4) ex [of "fst r"] show ?thesis
      by (auto simp: round_of_def serve_round_def split: if_splits option.splits prod.splits)
  qed
qed

lemma disconnect_good:
  assumes "sys_good y" "at y i Leaving" "env_ok e"
  shows "\<exists>d cs. disconnect e (server_deps now n (y_srv y)) (cl_conn (y_conns y ! i)) = Some (d, cs) \<and>
    sys_good (set_client i ((y_conns y ! i)\<lparr>cl_status := Closing, cl_conn := cs\<rparr>)
      (y\<lparr>y_srv := put_deps d (y_srv y)\<rparr>)) \<and> d_AOF d = srv_aof (y_srv y)"
proof -
  let ?c = "y_conns y ! i"
  have i: "i < length (y_conns y)" "cl_status ?c = Leaving" using assms(2) by (auto simp: at_def)
  obtain d cs where d: "disconnect e (server_deps now n (y_srv y)) (cl_conn ?c) = Some (d, cs)"
    "deps_ok d" "c_Subs cs = []" "d_AOF d = srv_aof (y_srv y)"
    "own (srv_broker (y_srv y)) (cl_conn ?c) (d_Broker d) cs"
    using disconnect_ok [OF sys_goodD(1) [OF assms(1) i(1)] _ assms(3), of now n "cl_conn ?c"]
      sys_goodD(4) [OF assms(1) i(1)] by auto
  have "client_ok (d_Broker d) (?c\<lparr>cl_status := Closing, cl_conn := cs\<rparr>)"
    using d(3,5) sys_goodD(3) [OF assms(1) i(1)] by (auto simp: client_ok_def own_def conn_ok_def)
  then have "sys_good (set_client i (?c\<lparr>cl_status := Closing, cl_conn := cs\<rparr>)
      (y\<lparr>y_srv := put_deps d (y_srv y), y_wg := y_wg y\<rparr>))"
    using d(2,5) i by (intro sys_good_update [OF assms(1) i(1)]) (auto simp: live_def occupied_def deps_ok_def)
  with d(1,4) show ?thesis by auto
qed

lemma sys_good_flags [simp]:
  "sys_good (y\<lparr>y_panicked := b\<rparr>) = sys_good y" "sys_good (y\<lparr>y_listening := b\<rparr>) = sys_good y"
  by (cases y, simp only: sys_good_def system.select_convs system.update_convs)+

interpretation srv: transition_invariant sys_init srv_step sys_good
proof
  show "sys_init y \<Longrightarrow> sys_good y" for y
    by (simp add: sys_init_def sys_good_def)
next
  fix y y' assume good: "sys_good y" and "srv_step y y'"
  have st: "typed (srv_store (y_srv y))" "broker_ok (srv_broker (y_srv y))"
    using good by (auto simp: sys_good_def)
  from \<open>srv_step y y'\<close> show "sys_good y'"
  proof cases
    case accept
    then show ?thesis using sys_good_accept [OF good] by simp
  next
    case (arrive i bytes)
    then show ?thesis by (simp add: live_def occupied_def sys_good_move [OF good])
  next
    case (hang_up i)
    then show ?thesis by (simp add: live_def occupied_def sys_good_move [OF good])
  next
    case (start i)
    let ?c = "(y_conns y ! i)\<lparr>cl_status := Checking\<rparr>"
      and ?s = "(y_srv y)\<lparr>clients := clients (y_srv y) + 1\<rparr>"
    have i: "i < length (y_conns y)" "cl_status (y_conns y ! i) = Starting" using start(2) by (auto simp: at_def)
    have "client_ok (srv_broker ?s) ?c" using sys_goodD(3) [OF good i(1)] by (simp add: client_ok_def)
    then have "sys_good (set_client i ?c (y\<lparr>y_srv := ?s, y_wg := y_wg y\<rparr>))"
      using st i by (intro sys_good_update [OF good i(1)]) (simp_all add: live_def occupied_def)
    then show ?thesis by (simp add: start(1))
  next
    case (check_cancelled i)
    then show ?thesis by (auto simp: at_def live_def occupied_def intro!: sys_good_move [OF good])
  next
    case (check i)
    then show ?thesis by (auto simp: at_def live_def occupied_def intro!: sys_good_move [OF good])
  next
    case (panics i e now n)
    then show ?thesis using good by auto
  next
    case (read_failed i e now n)
    then show ?thesis by (auto simp: at_def live_def occupied_def intro!: sys_good_move [OF good])
  next
    case (ignored i e now n rest)
    then show ?thesis by (auto simp: at_def live_def occupied_def intro!: sys_good_move [OF good])
  next
    case (answered i e now n d cs w rest)
    from round_good [OF good answered(2,3), of now n d cs w rest] show ?thesis by (simp add: answered(1,4))
  next
    case (unflushed i e now n d cs w rest k)
    from round_good [OF good unflushed(2,3), of now n d cs w rest] show ?thesis by (simp add: unflushed(1,4))
  next
    case (stopped i e now n d cs w)
    from round_good [OF good stopped(2,3), of now n d cs w "[]"] show ?thesis by (simp add: stopped(1,4))
  next
    case (stop_unflushed i e now n d cs w k)
    from round_good [OF good stop_unflushed(2,3), of now n d cs w "[]"] show ?thesis by (simp add: stop_unflushed(1,4))
  next
    case (cut_short i e args rest part now n d cs w err k)
    from command_good [OF good cut_short(2,3,6)] show ?thesis by (simp add: cut_short(1))
  next
    case (log_panics i e now n d cs w rest)
    then show ?thesis using good by auto
  next
    case (publish i name channel payload rest ps)
    let ?c = "(y_conns y ! i)\<lparr>cl_status := Publishing \<lparr>msg_Channel = channel, msg_Payload = payload\<rparr> ps 0, cl_in := rest\<rparr>"
    have i: "i < length (y_conns y)" "cl_status (y_conns y ! i) = Reading" using publish(2) by (auto simp: at_def)
    have "set ps = set (subscribers (srv_broker (y_srv y)) channel)" using publish(6) by (rule mset_eq_setD)
    then have "client_ok (srv_broker (y_srv y)) ?c"
      using sys_goodD(3) [OF good i(1)] subscribers_ok [OF st(2)] by (auto simp: client_ok_def)
    then have "sys_good (set_client i ?c (y\<lparr>y_srv := count_command (y_srv y), y_wg := y_wg y\<rparr>))"
      using st i by (intro sys_good_update [OF good i(1)]) (simp_all add: live_def occupied_def)
    then show ?thesis by (simp add: publish(1))
  next
    case (send i m p ps n b sent)
    let ?c = "(y_conns y ! i)\<lparr>cl_status := Publishing m ps (if sent then n + 1 else n)\<rparr>"
      and ?s = "(y_srv y)\<lparr>srv_broker := b\<rparr>"
    have i: "i < length (y_conns y)" "cl_status (y_conns y ! i) = Publishing m (p # ps) n"
      using send(2) by (auto simp: at_def)
    note own = try_send_own [OF send(3)] and ok = sys_goodD(3) [OF good i(1)]
    have p: "p < length (heap (srv_broker (y_srv y)))" using ok i(2) by (simp add: client_ok_def)
    have "closed_kept (srv_broker (y_srv y)) b" using own(1) by (simp add: own_def)
    from client_ok_kept [OF this ok] own(2) sys_goodD(4) [OF good i(1)]
    have "client_ok (srv_broker ?s) ?c" using i(2) by (auto simp: client_ok_def)
    then have "sys_good (set_client i ?c (y\<lparr>y_srv := ?s, y_wg := y_wg y\<rparr>))"
      using st own(1) broker_ok_try_send [OF st(2) send(3) p] i
      by (intro sys_good_update [OF good i(1)]) (simp_all add: live_def occupied_def)
    then show ?thesis by (simp add: send(1))
  next
    case (send_panics i m p ps n)
    then show ?thesis using good by auto
  next
    case (published i m n)
    then show ?thesis by (auto simp: at_def live_def occupied_def intro!: sys_good_move [OF good])
  next
    case (publish_unflushed i m n k)
    then show ?thesis by (auto simp: at_def live_def occupied_def intro!: sys_good_move [OF good])
  next
    case (disconnected i e now n d cs)
    then show ?thesis using disconnect_good [OF good disconnected(2,3), of now n] by auto
  next
    case (disconnect_panics i e now n)
    then show ?thesis using good by auto
  next
    case (receive i p b m)
    let ?c = "(y_conns y ! i)\<lparr>cl_hand := (p, m) # cl_hand (y_conns y ! i)\<rparr>" and ?s = "(y_srv y)\<lparr>srv_broker := b\<rparr>"
    note own = chan_recv_own [OF receive(6)] and ok = sys_goodD(3) [OF good receive(3)]
    have kept: "closed_kept (srv_broker (y_srv y)) b" using own(1) by (simp add: own_def)
    have "sub_C (heap (srv_broker (y_srv y)) ! p) \<noteq> []" using receive(6) by (auto simp: chan_recv_def split: list.splits)
    then have "cl_status (y_conns y ! i) \<notin> {Rejected, Gone}"
      using ok receive(4) by (auto simp: client_ok_def drained_def)
    then have "client_ok (srv_broker ?s) ?c"
      using client_ok_kept [OF kept ok] own(2) sys_goodD(4) [OF good receive(3)] by (simp add: client_ok_def)
    then have "sys_good (set_client i ?c (y\<lparr>y_srv := ?s, y_wg := y_wg y\<rparr>))"
      using st own(1) broker_ok_recv [OF st(2) receive(6)]
      by (intro sys_good_update [OF good receive(3)]) (simp_all add: live_def occupied_def)
    then show ?thesis by (simp add: receive(1))
  next
    case (deliver i p m)
    then show ?thesis by (auto simp: live_def occupied_def intro!: sys_good_move [OF good])
  next
    case (deliver_fails i p m k)
    then show ?thesis by (auto simp: live_def occupied_def intro!: sys_good_move [OF good])
  next
    case (gone i)
    let ?c = "(y_conns y ! i)\<lparr>cl_status := Gone\<rparr>"
      and ?s = "(y_srv y)\<lparr>clients := clients (y_srv y) - 1\<rparr>"
    have i: "i < length (y_conns y)" "cl_status (y_conns y ! i) = Closing" using gone(2) by (auto simp: at_def)
    have "client_ok (srv_broker ?s) ?c" using sys_goodD(3) [OF good i(1)] gone(3,4) i(2) by (simp add: client_ok_def)
    then have "sys_good (set_client i ?c (y\<lparr>y_srv := ?s, y_wg := y_wg y - 1\<rparr>))"
      using st i by (intro sys_good_update [OF good i(1)]) (simp_all add: live_def occupied_def)
    then show ?thesis by (simp add: gone(1))
  next
    case (sweep e j)
    then show ?thesis using good typed_sweep_at [of "srv_store (y_srv y)" "ord e" j]
      by (auto simp: sys_good_def env_ok_def)
  next
    case sweeper_ends
    then show ?thesis using good wg_zero(1) [OF good] by (auto simp: sys_good_def)
  next
    case cancel
    then show ?thesis using good by (auto simp: sys_good_def)
  next
    case close_listener
    then show ?thesis using good by auto
  next
    case accept_fails
    then show ?thesis using good by (auto simp: sys_good_def)
  next
    case returns
    then show ?thesis using good by (auto simp: sys_good_def)
  qed
qed

text \<open>
  No connection uses the log after it was closed, and a command run as a whole does not panic. Two
  things bring the process down: a message with an absurd length, in the reader, and a send of a
  publication to a subscriber that has left since the publication took its snapshot.
\<close>

lemma no_log_use_after_return:
  assumes "sys_good y" "at y i Reading" shows "log_use_ok y d"
proof -
  have "occupied (y_conns y ! i)" "i < length (y_conns y)" using assms(2) by (auto simp: at_def occupied_def)
  with wg_zero(2) [OF assms(1)] have "y_wg y \<noteq> 0" by blast
  with assms(1) show ?thesis by (auto simp: sys_good_def log_use_ok_def)
qed

lemma sys_panic_reason:
  assumes "sys_good y" "srv_step y y'" "y_panicked y'"
  shows "\<exists>c\<in>set (y_conns y).
    cl_status c = Reading \<and> ReadCommand (cl_in c) = Inl MakePanic \<or>
    (\<exists>m p ps n. cl_status c = Publishing m (p # ps) n \<and> sub_closed (heap (srv_broker (y_srv y)) ! p))"
  using assms(2)
proof cases
  case (panics i e now n)
  with round_panics_reason [OF assms(1) panics(2-4)] show ?thesis
    by (auto simp: at_def intro!: bexI [of _ "y_conns y ! i"])
next
  case (log_panics i e now n d cs w rest)
  with no_log_use_after_return [OF assms(1) log_panics(2)] show ?thesis by blast
next
  case (send_panics i m p ps n)
  then show ?thesis
    by (auto simp: at_def try_send_def Let_def intro!: bexI [of _ "y_conns y ! i"] split: if_splits)
next
  case (disconnect_panics i e now n)
  with disconnect_good [OF assms(1) disconnect_panics(2,3), of now n] show ?thesis by auto
qed (use assms(3) in \<open>simp_all add: at_def\<close>)
end
