(* ===== verification/Shutdown.thy ===== *)
theory Shutdown
  imports System
begin

text \<open>
  The two ends of a run (\<^verbatim>\<open>internal/server/server.go\<close>): what \<^verbatim>\<open>Run\<close> starts with, whatever is in
  the log, and how it stops.
\<close>

section \<open>Start-up\<close>

lemma reads_all_total: "\<exists>cmds err. reads_all ReadCommand s cmds err"
proof (induction s rule: length_induct)
  case (1 s)
  show ?case
  proof (cases "ReadCommand s")
    case (Inl err)
    then show ?thesis by (meson reads_all.stop)
  next
    case (Inr r)
    then have r: "ReadCommand s = Inr (fst r, snd r)" by simp
    from 1 ReadCommand_length [OF r] obtain cmds err where "reads_all ReadCommand (snd r) cmds err" by blast
    with r show ?thesis by (meson reads_all.more)
  qed
qed

lemma replay_keeps_ok:
  assumes "\<forall>n. env_ok (envs n)"
  shows "deps_ok d \<Longrightarrow> conn_ok (d_Broker d) cs \<Longrightarrow>
    \<exists>d' cs' n'. apply_all (replay_apply envs) cmds (d, cs, n) = ((d', cs', n'), None) \<and> deps_ok d'"
proof (induction cmds arbitrary: d cs n)
  case (Cons c cmds)
  have "result_ok (Execute (envs n) d cs c)" using Cons.prems assms by (intro Execute_ok) simp_all
  then obtain d1 cs1 w err where ex: "Execute (envs n) d cs c = Some (d1, cs1, w, err)"
    "deps_ok d1" "conn_ok (d_Broker d1) cs1"
    by (cases "Execute (envs n) d cs c") auto
  with Cons.IH [of d1 cs1 "Suc n"] Cons.IH [of d cs n] Cons.prems show ?case by (simp add: replay_apply_def)
qed simp

text \<open>A server as \<^verbatim>\<open>New\<close> makes it.\<close>

definition fresh :: "Server \<Rightarrow> bool" where
  "fresh s \<longleftrightarrow> typed (srv_store s) \<and> broker_ok (srv_broker s) \<and> clients s = 0"

lemma Server_New_fresh: "Server_New cfg now = Some s \<Longrightarrow> fresh s"
  using typed_New broker_ok_New
  by (auto simp: Server_New_def Let_def fresh_def split: option.splits if_splits)

lemma replayAOF_result:
  assumes "\<forall>n. env_ok (envs n)" "fresh s"
  shows "\<exists>s' res. replayAOF envs file s = (s', res) \<and> fresh s' \<and>
    res = (case file of
        NotExist \<Rightarrow> ReplayOk
      | OpenError err \<Rightarrow> ReplayErr err
      | Content bytes \<Rightarrow> if \<exists>cmds. reads_all ReadCommand bytes cmds MakePanic then ReplayPanic else ReplayOk)"
proof (cases "file")
  case (Content bytes)
  obtain cmds err where r: "reads_all ReadCommand bytes cmds err" using reads_all_total by blast
  let ?d = "\<lparr>d_Store = srv_store s, d_AOF = None, d_Broker = srv_broker s, d_Stats = None, d_AOFI = None\<rparr>"
  have "deps_ok ?d" "conn_ok (d_Broker ?d) (new_conn False)"
    using assms(2) by (simp_all add: fresh_def deps_ok_def conn_ok_def new_conn_def)
  from replay_keeps_ok [OF assms(1) this, of cmds 0] obtain d' cs' n'
    where a: "apply_all (replay_apply envs) cmds (?d, new_conn False, 0) = ((d', cs', n'), None)" "deps_ok d'"
    by blast
  have "(\<exists>xs. reads_all ReadCommand bytes xs MakePanic) \<longleftrightarrow> err = MakePanic"
    using r reads_all_det by metis
  with a assms(2) Content show ?thesis
    by (simp add: replayAOF_def Replay_def replay_loop_reads [OF r] fresh_def deps_ok_def)
qed (use assms(2) in \<open>auto simp: replayAOF_def Replay_def fresh_def\<close>)

lemma Run_start_result:
  assumes "\<forall>n. env_ok (envs n)" "fresh s" "file \<noteq> OpenError Crash"
  shows "case Run_start envs file opens listens s of
      Started y \<Rightarrow> sys_init y
    | StartFails \<Rightarrow> \<not> listens \<or> AOFPath (srv_cfg s) \<noteq> [] \<and> (file = OpenError OpenFailed \<or> \<not> opens)
    | StartPanics \<Rightarrow> AOFPath (srv_cfg s) \<noteq> [] \<and>
        (\<exists>bytes cmds. file = Content bytes \<and> reads_all ReadCommand bytes cmds MakePanic)"
proof (cases "AOFPath (srv_cfg s) = []")
  case True
  with assms(2) show ?thesis by (simp add: Run_start_def sys_init_def fresh_def)
next
  case False
  obtain s' res where r: "replayAOF envs file s = (s', res)" "fresh s'"
    "res = (case file of
        NotExist \<Rightarrow> ReplayOk
      | OpenError err \<Rightarrow> ReplayErr err
      | Content bytes \<Rightarrow> if \<exists>cmds. reads_all ReadCommand bytes cmds MakePanic then ReplayPanic else ReplayOk)"
    using replayAOF_result [OF assms(1,2)] by blast
  have init: "fresh s' \<Longrightarrow> sys_init \<lparr>y_srv = s'\<lparr>srv_aof := Some []\<rparr>, y_conns = [], y_phase = Accepting,
      y_cancelled = False, y_listening = True, y_sweeper = True, y_wg = 1, y_log_closed = False, y_panicked = False\<rparr>"
    by (simp add: sys_init_def fresh_def)
  show ?thesis
  proof (cases "file")
    case NotExist
    with r False init show ?thesis by (simp add: Run_start_def Let_def)
  next
    case (OpenError err)
    with r False assms(3) show ?thesis by (cases err) (simp_all add: Run_start_def Let_def)
  next
    case (Content bytes)
    with r False init show ?thesis by (auto simp: Run_start_def Let_def)
  qed
qed

section \<open>Shutdown\<close>

text \<open>When \<^verbatim>\<open>Run\<close> has returned, everything it waited for is over.\<close>

lemma returned_quiet:
  assumes "sys_good y" "y_phase y = Returned"
  shows "\<forall>c\<in>set (y_conns y). cl_status c \<in> {Rejected, Gone} \<and> c_Subs (cl_conn c) = [] \<and>
      drained (srv_broker (y_srv y)) (cl_conn c) \<and> cl_hand c = []"
    "\<not> y_sweeper y" "clients (y_srv y) = 0"
proof -
  have wg: "y_wg y = 0" using assms by (simp add: sys_good_def)
  show "\<not> y_sweeper y" by (rule wg_zero(1) [OF assms(1) wg])
  have c: "cl_status c \<in> {Rejected, Gone} \<and> client_ok (srv_broker (y_srv y)) c" if "c \<in> set (y_conns y)" for c
    using that wg_zero(2) [OF assms(1) wg] sys_goodD(3) [OF assms(1)]
    by (auto simp: in_set_conv_nth occupied_def)
  then show "\<forall>c\<in>set (y_conns y). cl_status c \<in> {Rejected, Gone} \<and> c_Subs (cl_conn c) = [] \<and>
      drained (srv_broker (y_srv y)) (cl_conn c) \<and> cl_hand c = []"
    by (auto simp: client_ok_def)
  have "filter live (y_conns y) = []" using c by (fastforce simp: live_def filter_empty_conv)
  with assms(1) show "clients (y_srv y) = 0" by (simp add: sys_good_def)
qed

text \<open>A client that is connected and silent.\<close>

definition silent :: "system \<Rightarrow> nat \<Rightarrow> bool" where
  "silent y i \<longleftrightarrow> i < length (y_conns y) \<and> cl_status (y_conns y ! i) = Reading \<and>
     cl_in (y_conns y ! i) = [] \<and> \<not> cl_eof (y_conns y ! i)"

lemma silent_step:
  assumes "silent y i" "srv_step y y'" "cl_in (y_conns y' ! i) = []" "\<not> cl_eof (y_conns y' ! i)"
  shows "silent y' i"
proof -
  have i: "i < length (y_conns y)" "cl_status (y_conns y ! i) = Reading" "cl_in (y_conns y ! i) = []"
    "\<not> cl_eof (y_conns y ! i)" using assms(1) by (auto simp: silent_def)
  have eof: "ReadCommand [] = Inl EOF" by (simp add: ReadCommand_def ReadByte_def)
  have rd: "round_of y i e now n = ReadFailed" for e now n
    by (simp add: round_of_def serve_round_def i eof)
  have wt: "waits (y_conns y ! i)" by (simp add: waits_def i eof at_end_def)
  have upd: "silent (set_client j c z) i"
    if "y_conns z = y_conns y" "j = i \<Longrightarrow> cl_status c = Reading \<and> cl_in c = [] \<and> \<not> cl_eof c" for j c z
    using that i by (cases "j = i") (simp_all add: silent_def)
  from assms(2) show ?thesis
  proof cases
    case accept
    with i show ?thesis by (simp add: silent_def nth_append)
  next
    case (arrive j bytes)
    with i assms(3) show ?thesis by (auto intro!: upd)
  next
    case (hang_up j)
    with i assms(4) show ?thesis by (auto intro!: upd)
  next
    case (read_failed j e now n)
    with i wt show ?thesis by (auto simp: at_def intro!: upd)
  next
    case (ignored j e now n rest)
    with i rd show ?thesis by (auto simp: at_def intro!: upd)
  next
    case (answered j e now n d cs w rest)
    with i rd show ?thesis by (auto simp: at_def intro!: upd)
  next
    case (unflushed j e now n d cs w rest k)
    with i rd show ?thesis by (auto simp: at_def intro!: upd)
  next
    case (stopped j e now n d cs w)
    with i rd show ?thesis by (auto simp: at_def intro!: upd)
  next
    case (stop_unflushed j e now n d cs w k)
    with i rd show ?thesis by (auto simp: at_def intro!: upd)
  next
    case (cut_short j e args rest part now n d cs w err k)
    with i eof show ?thesis by (auto simp: at_def intro!: upd)
  next
    case (publish j name channel payload rest ps)
    with i eof show ?thesis by (auto simp: at_def intro!: upd)
  next
    case (send j m p ps n b sent)
    with i show ?thesis by (auto simp: at_def intro!: upd)
  next
    case (published j m n)
    with i show ?thesis by (auto simp: at_def intro!: upd)
  next
    case (publish_unflushed j m n k)
    with i show ?thesis by (auto simp: at_def intro!: upd)
  next
    case (receive j p b m)
    with i show ?thesis by (auto intro!: upd)
  next
    case (deliver j p m)
    with i show ?thesis by (auto intro!: upd)
  next
    case (deliver_fails j p m k)
    with i show ?thesis by (auto intro!: upd)
  next
    case (start j)
    with i show ?thesis by (auto simp: at_def intro!: upd)
  next
    case (check_cancelled j)
    with i show ?thesis by (auto simp: at_def intro!: upd)
  next
    case (check j)
    with i show ?thesis by (auto simp: at_def intro!: upd)
  next
    case (disconnected j e now n d cs)
    with i show ?thesis by (auto simp: at_def intro!: upd)
  next
    case (gone j)
    with i show ?thesis by (auto simp: at_def intro!: upd)
  qed (use assms(1) in \<open>simp_all add: silent_def\<close>)
qed

lemma silent_blocks:
  assumes "silent y i"
    "(\<lambda>a b. srv_step a b \<and> cl_in (y_conns b ! i) = [] \<and> \<not> cl_eof (y_conns b ! i))\<^sup>*\<^sup>* y y'"
  shows "silent y' i"
  using assms(2,1) by (induction rule: rtranclp_induct) (auto intro: silent_step)

text \<open>
  The steps that end one connection: they leave every other connection and the acceptor alone.
\<close>

definition only :: "nat \<Rightarrow> system \<Rightarrow> system \<Rightarrow> bool" where
  "only i y y' \<longleftrightarrow> srv_step\<^sup>*\<^sup>* y y' \<and> \<not> y_panicked y' \<and> y_cancelled y' \<and> y_phase y' = y_phase y \<and>
     length (y_conns y') = length (y_conns y) \<and>
     (\<forall>j<length (y_conns y). j \<noteq> i \<longrightarrow> y_conns y' ! j = y_conns y ! j)"

lemma only_trans: "only i y y1 \<Longrightarrow> only i y1 y2 \<Longrightarrow> only i y y2"
  by (auto simp: only_def)

lemma only_step:
  assumes "srv_step y (set_client i c z)" "y_cancelled y" "\<not> y_panicked y" "y_conns z = y_conns y"
    "y_phase z = y_phase y" "y_cancelled z = y_cancelled y" "y_panicked z = y_panicked y"
  shows "only i y (set_client i c z)"
  using assms by (auto simp: only_def)

lemma only_conns:
  assumes "only i y y'" "i < length (y_conns y)" shows "y_conns y' = (y_conns y)[i := y_conns y' ! i]"
  using assms by (intro nth_equalityI) (auto simp: only_def nth_list_update)

lemma only_good: "only i y y' \<Longrightarrow> sys_good y \<Longrightarrow> sys_good y'"
  using srv.good_steps by (auto simp: only_def)

lemma some_env: "\<exists>e. env_ok e"
  by (rule exI [of _ "\<lparr>clk = \<lambda>_. 63000000000000000000, ord = id, sub_ord = id\<rparr>"])
    (simp add: env_ok_def clock_ok_def perm_order_def mono_def maxInt64_def)

lemma hand_delivered:
  assumes "sys_good y" "at y i Closing" "y_cancelled y"
  shows "\<exists>y'. only i y y' \<and> at y' i Closing \<and> cl_hand (y_conns y' ! i) = [] \<and> y_srv y' = y_srv y \<and>
    cl_conn (y_conns y' ! i) = cl_conn (y_conns y ! i)"
  using assms
proof (induction "length (cl_hand (y_conns y ! i))" arbitrary: y)
  case 0
  then show ?case by (intro exI [of _ y]) (auto simp: only_def at_def)
next
  case (Suc k)
  let ?c = "y_conns y ! i"
  obtain p m hs where hand: "cl_hand ?c = (p, m) # hs" using Suc.hyps(2) by (cases "cl_hand ?c") auto
  have i: "\<not> y_panicked y" "i < length (y_conns y)" "cl_status ?c = Closing" using Suc.prems by (auto simp: at_def)
  then have "\<not> publishing ?c" by (simp add: publishing_def)
  let ?y = "set_client i (put_out (deliver_bytes m) (?c\<lparr>cl_hand := remove1 (p, m) (cl_hand ?c)\<rparr>)) y"
  have only: "only i y ?y"
    by (rule only_step [OF srv_step.deliver [OF i(1,2) \<open>\<not> publishing ?c\<close>]]) (use hand i Suc.prems(3) in simp_all)
  have "at ?y i Closing" "y_cancelled ?y" "k = length (cl_hand (y_conns ?y ! i))"
    using i Suc.hyps(2) Suc.prems(3) hand by (simp_all add: at_def)
  with Suc.hyps(1) [of ?y] only_good [OF only Suc.prems(1)] obtain y' where
    "only i ?y y'" "at y' i Closing" "cl_hand (y_conns y' ! i) = []" "y_srv y' = y_srv ?y"
    "cl_conn (y_conns y' ! i) = cl_conn (y_conns ?y ! i)" by blast
  with only_trans [OF only] i(2) show ?case by (intro exI [of _ y']) simp
qed

lemma ends_Closing:
  assumes "sys_good y" "at y i Closing" "y_cancelled y"
  shows "\<exists>y'. only i y y' \<and> cl_status (y_conns y' ! i) = Gone"
  using assms
proof (induction "\<Sum>p\<in>set (c_delivering (cl_conn (y_conns y ! i))). length (sub_C (heap (srv_broker (y_srv y)) ! p))"
    arbitrary: y rule: less_induct)
  case less
  obtain y0 where y0: "only i y y0" "at y0 i Closing" "cl_hand (y_conns y0 ! i) = []" "y_srv y0 = y_srv y"
    "cl_conn (y_conns y0 ! i) = cl_conn (y_conns y ! i)" using hand_delivered [OF less.prems] by blast
  note good = only_good [OF y0(1) less.prems(1)]
  let ?c = "y_conns y0 ! i" and ?b = "srv_broker (y_srv y0)"
  let ?D = "set (c_delivering (cl_conn ?c))"
  have i: "\<not> y_panicked y0" "i < length (y_conns y0)" "cl_status ?c = Closing" "y_cancelled y0"
    using y0(1,2) by (auto simp: at_def only_def)
  show ?case
  proof (cases "drained ?b (cl_conn ?c)")
    case True
    then have "srv_step y0 (set_client i (?c\<lparr>cl_status := Gone\<rparr>)
      (y0\<lparr>y_srv := (y_srv y0)\<lparr>clients := clients (y_srv y0) - 1\<rparr>, y_wg := y_wg y0 - 1\<rparr>))"
      by (rule srv_step.gone [OF y0(2) _ y0(3)])
    from only_trans [OF y0(1) only_step [OF this]] i show ?thesis by (intro exI conjI) (assumption | simp)+
  next
    case False
    have "client_ok ?b ?c" by (rule sys_goodD(3) [OF good i(2)])
    then have closed: "p < length (heap ?b) \<and> sub_closed (heap ?b ! p)" if "p \<in> ?D" for p
      using that i(3) by (auto simp: client_ok_def deliver_ok_def ptrs_def)
    with False obtain p m ms where p: "p \<in> ?D" "sub_C (heap ?b ! p) = m # ms"
      unfolding drained_def by (meson neq_Nil_conv)
    let ?b' = "?b\<lparr>heap := (heap ?b)[p := (heap ?b ! p)\<lparr>sub_C := ms\<rparr>]\<rparr>"
    let ?y = "set_client i (?c\<lparr>cl_hand := (p, m) # cl_hand ?c\<rparr>) (y0\<lparr>y_srv := (y_srv y0)\<lparr>srv_broker := ?b'\<rparr>\<rparr>)"
    have "chan_recv ?b p = Some (?b', m)" using p(2) by (simp add: chan_recv_def)
    then have "only i y0 ?y"
      by (intro only_step srv_step.receive [OF i(1,2) p(1)]) (use y0(3) i(1,4) in simp_all)
    then have only: "only i y ?y" by (rule only_trans [OF y0(1)])
    have len: "length (sub_C (heap ?b' ! q)) = length (sub_C (heap ?b ! q)) - (if q = p then 1 else 0)"
      if "q \<in> ?D" for q
      using closed [OF that] p(2) by (cases "q = p") simp_all
    have "(\<Sum>q\<in>?D. length (sub_C (heap ?b' ! q))) < (\<Sum>q\<in>?D. length (sub_C (heap ?b ! q)))"
    proof (rule sum_strict_mono_ex1)
      show "\<exists>q\<in>?D. length (sub_C (heap ?b' ! q)) < length (sub_C (heap ?b ! q))"
        using p len [OF p(1)] by (intro bexI [of _ p]) simp_all
    qed (use len in simp_all)
    moreover have "at ?y i Closing" "y_cancelled ?y" using i by (simp_all add: at_def)
    ultimately obtain y' where "only i ?y y'" "cl_status (y_conns y' ! i) = Gone"
      using less.hyps [of ?y] only_good [OF only less.prems(1)] i(2) y0(4,5) by auto
    with only_trans [OF only] show ?thesis by blast
  qed
qed

lemma ends_Leaving:
  assumes "sys_good y" "at y i Leaving" "y_cancelled y"
  shows "\<exists>y'. only i y y' \<and> cl_status (y_conns y' ! i) = Gone"
proof -
  obtain e where e: "env_ok e" using some_env by blast
  obtain d cs where d: "disconnect e (server_deps 0 0 (y_srv y)) (cl_conn (y_conns y ! i)) = Some (d, cs)"
    using disconnect_good [OF assms(1,2) e, of 0 0] by blast
  from srv_step.disconnected [OF assms(2) e d] have only: "only i y (set_client i
      ((y_conns y ! i)\<lparr>cl_status := Closing, cl_conn := cs\<rparr>) (y\<lparr>y_srv := put_deps d (y_srv y)\<rparr>))"
    (is "only i y ?y") by (rule only_step) (use assms in \<open>simp_all add: at_def\<close>)
  have "at ?y i Closing" "y_cancelled ?y" using assms by (auto simp: at_def)
  from ends_Closing [OF only_good [OF only assms(1)] this] only_trans [OF only] show ?thesis by blast
qed

lemma ends_Checking:
  assumes "sys_good y" "at y i Checking" "y_cancelled y"
  shows "\<exists>y'. only i y y' \<and> cl_status (y_conns y' ! i) = Gone"
proof -
  have only: "only i y (set_client i ((y_conns y ! i)\<lparr>cl_status := Leaving\<rparr>) y)" (is "only i y ?y")
    by (rule only_step [OF srv_step.check_cancelled [OF assms(2,3)] assms(3)]) (use assms in \<open>simp_all add: at_def\<close>)
  have "at ?y i Leaving" "y_cancelled ?y" using assms by (auto simp: at_def)
  from ends_Leaving [OF only_good [OF only assms(1)] this] only_trans [OF only] show ?thesis by blast
qed

lemma ends_Starting:
  assumes "sys_good y" "at y i Starting" "y_cancelled y"
  shows "\<exists>y'. only i y y' \<and> cl_status (y_conns y' ! i) = Gone"
proof -
  have only: "only i y (set_client i ((y_conns y ! i)\<lparr>cl_status := Checking\<rparr>)
      (y\<lparr>y_srv := (y_srv y)\<lparr>clients := clients (y_srv y) + 1\<rparr>\<rparr>))" (is "only i y ?y")
    by (rule only_step [OF srv_step.start [OF assms(2)] assms(3)]) (use assms in \<open>simp_all add: at_def\<close>)
  have "at ?y i Checking" "y_cancelled ?y" using assms by (auto simp: at_def)
  from ends_Checking [OF only_good [OF only assms(1)] this] only_trans [OF only] show ?thesis by blast
qed

lemma ends_Reading:
  assumes "sys_good y" "at y i Reading" "y_cancelled y" "cl_eof (y_conns y ! i)"
    "ReadCommand (cl_in (y_conns y ! i)) \<noteq> Inl MakePanic"
  shows "\<exists>y'. only i y y' \<and> cl_status (y_conns y' ! i) = Gone"
proof -
  obtain e where e: "env_ok e" using some_env by blast
  note ok = only_good [OF _ assms(1)]
  have use_ok: "log_use_ok y d" for d by (rule no_log_use_after_return [OF assms(1,2)])
  have i: "\<not> y_panicked y" "i < length (y_conns y)" using assms(2) by (auto simp: at_def)
  have "\<exists>c z. only i y (set_client i c z) \<and> y_conns z = y_conns y \<and> cl_status c \<in> {Checking, Leaving}"
  proof (cases "round_of y i e 0 0")
    case Panics
    with round_panics_reason [OF assms(1,2) e] assms(5) show ?thesis by blast
  next
    case ReadFailed
    have "\<not> waits (y_conns y ! i)" using assms(4) by (simp add: waits_def)
    from only_step [OF srv_step.read_failed [OF assms(2) e ReadFailed this] assms(3)] i show ?thesis
      by (intro exI conjI) (assumption | simp)+
  next
    case (Stop d cs w)
    from only_step [OF srv_step.stopped [OF assms(2) e Stop use_ok] assms(3)] i show ?thesis
      by (intro exI conjI) (assumption | simp)+
  next
    case (Ignored rest)
    from only_step [OF srv_step.ignored [OF assms(2) e Ignored] assms(3)] i show ?thesis
      by (intro exI conjI) (assumption | simp)+
  next
    case (Answered d cs w rest)
    show ?thesis
    proof (cases "cl_broken (y_conns y ! i)")
      case True
      from only_step [OF srv_step.unflushed [OF assms(2) e Answered use_ok, of 0] assms(3)] i show ?thesis
        by (intro exI conjI) (assumption | simp)+
    next
      case False
      from only_step [OF srv_step.answered [OF assms(2) e Answered use_ok False] assms(3)] i show ?thesis
        by (intro exI conjI) (assumption | simp)+
    qed
  qed
  then obtain c z where only: "only i y (set_client i c z)" and c: "y_conns z = y_conns y" "cl_status c \<in> {Checking, Leaving}"
    by blast
  let ?y = "set_client i c z"
  have "at ?y i Checking \<or> at ?y i Leaving" "y_cancelled ?y"
    using only c i by (auto simp: at_def only_def)
  with ends_Checking [OF ok [OF only]] ends_Leaving [OF ok [OF only]] only_trans [OF only] show ?thesis by metis
qed

text \<open>Every client has hung up and none has sent a message that makes the reader panic.\<close>

definition hung_up :: "client \<Rightarrow> bool" where
  "hung_up c \<longleftrightarrow> cl_eof c \<and> ReadCommand (cl_in c) \<noteq> Inl MakePanic"

lemma ends:
  assumes "sys_good y" "\<not> y_panicked y" "y_cancelled y" "i < length (y_conns y)" "occupied (y_conns y ! i)"
    "hung_up (y_conns y ! i)" "\<not> publishing (y_conns y ! i)"
  shows "\<exists>y'. only i y y' \<and> cl_status (y_conns y' ! i) = Gone"
proof (cases "cl_status (y_conns y ! i)")
  case Starting
  then show ?thesis using assms by (intro ends_Starting) (simp_all add: at_def)
next
  case Checking
  then show ?thesis using assms by (intro ends_Checking) (simp_all add: at_def)
next
  case Reading
  then show ?thesis using assms by (intro ends_Reading) (simp_all add: at_def hung_up_def)
next
  case Leaving
  then show ?thesis using assms by (intro ends_Leaving) (simp_all add: at_def)
next
  case Closing
  then show ?thesis using assms by (intro ends_Closing) (simp_all add: at_def)
qed (use assms(5,7) in \<open>simp_all add: occupied_def publishing_def\<close>)

lemma all_end:
  assumes "sys_good y" "\<not> y_panicked y" "y_cancelled y" "\<forall>c\<in>set (y_conns y). occupied c \<longrightarrow> hung_up c \<and> \<not> publishing c"
  shows "\<exists>y'. srv_step\<^sup>*\<^sup>* y y' \<and> \<not> y_panicked y' \<and> y_cancelled y' \<and> y_phase y' = y_phase y \<and>
    filter occupied (y_conns y') = []"
  using assms
proof (induction "length (filter occupied (y_conns y))" arbitrary: y rule: less_induct)
  case less
  show ?case
  proof (cases "filter occupied (y_conns y) = []")
    case True
    with less.prems show ?thesis by blast
  next
    case False
    then obtain i where i: "i < length (y_conns y)" "occupied (y_conns y ! i)"
      by (auto simp: filter_empty_conv in_set_conv_nth)
    then obtain y1 where y1: "only i y y1" "cl_status (y_conns y1 ! i) = Gone"
      using ends [OF less.prems(1-3)] less.prems(4) by (metis nth_mem)
    let ?c = "y_conns y1 ! i"
    note conns = only_conns [OF y1(1) i(1)]
    have c: "\<not> occupied ?c" using y1(2) by (simp add: occupied_def)
    have "length (filter occupied (y_conns y1)) < length (filter occupied (y_conns y))"
      using filter_update [OF i(1), of occupied ?c] i(2) c conns by simp
    moreover have "occupied x \<longrightarrow> hung_up x \<and> \<not> publishing x" if "x \<in> set (y_conns y1)" for x
      using that c less.prems(4) set_update_subset_insert [of "y_conns y" i ?c] unfolding conns [symmetric] by blast
    ultimately obtain y' where "srv_step\<^sup>*\<^sup>* y1 y'" "\<not> y_panicked y'" "y_cancelled y'" "y_phase y' = y_phase y1"
      "filter occupied (y_conns y') = []"
      using less.hyps [of y1] only_good [OF y1(1) less.prems(1)] y1(1) by (auto simp: only_def)
    moreover have "srv_step\<^sup>*\<^sup>* y y1" "y_phase y1 = y_phase y" using y1(1) by (auto simp: only_def)
    ultimately show ?thesis by (metis rtranclp_trans)
  qed
qed

text \<open>Publications in flight whose targets are all open, and how they end.\<close>

definition sends_ok :: "broker \<Rightarrow> client \<Rightarrow> bool" where
  "sends_ok b c \<longleftrightarrow> (\<forall>p\<in>set (targets c). \<not> sub_closed (heap b ! p))"

lemma ends_Publishing:
  assumes "sys_good y" "at y i (Publishing m ps n)" "y_cancelled y" "sends_ok (srv_broker (y_srv y)) (y_conns y ! i)"
  shows "\<exists>y'. only i y y' \<and> (\<exists>st w br. st \<in> {Checking, Leaving} \<and>
      y_conns y' ! i = (y_conns y ! i)\<lparr>cl_status := st, cl_out := w, cl_broken := br\<rparr>) \<and>
    (\<forall>q. sub_closed (heap (srv_broker (y_srv y')) ! q) = sub_closed (heap (srv_broker (y_srv y)) ! q))"
  using assms
proof (induction ps arbitrary: y n)
  case Nil
  have i: "\<not> y_panicked y" "i < length (y_conns y)" using Nil.prems(2) by (auto simp: at_def)
  let ?c = "y_conns y ! i"
  show ?case
  proof (cases "cl_broken ?c")
    case True
    let ?y = "set_client i (fail_out 0 (WriteInteger n) (?c\<lparr>cl_status := Leaving\<rparr>)) y"
    have "only i y ?y"
      by (rule only_step [OF srv_step.publish_unflushed [OF Nil.prems(2)]]) (use i Nil.prems in simp_all)
    moreover have "y_conns ?y ! i = ?c\<lparr>cl_status := Leaving, cl_out := cl_out ?c, cl_broken := True\<rparr>"
      using i True by (simp add: fail_out_def put_out_def)
    ultimately show ?thesis by (intro exI [of _ ?y] conjI exI [of _ Leaving] exI) (assumption | simp)+
  next
    case False
    let ?y = "set_client i (put_out (WriteInteger n) (?c\<lparr>cl_status := Checking\<rparr>)) y"
    have "only i y ?y"
      by (rule only_step [OF srv_step.published [OF Nil.prems(2) False]]) (use i Nil.prems in simp_all)
    moreover have "y_conns ?y ! i = ?c\<lparr>cl_status := Checking, cl_out := cl_out ?c @ WriteInteger n, cl_broken := False\<rparr>"
      using i False by (cases ?c) (simp add: put_out_def)
    ultimately show ?thesis by (intro exI [of _ ?y] conjI exI [of _ Checking] exI) (assumption | simp)+
  qed
next
  case (Cons p ps)
  let ?b = "srv_broker (y_srv y)" and ?c = "y_conns y ! i"
  have i: "\<not> y_panicked y" "i < length (y_conns y)" "cl_status ?c = Publishing m (p # ps) n"
    using Cons.prems(2) by (auto simp: at_def)
  have "\<not> sub_closed (heap ?b ! p)" using Cons.prems(4) i(3) by (simp add: sends_ok_def)
  then obtain b sent where b: "try_send ?b p m = Some (b, sent)" using try_send_open by blast
  let ?n = "if sent then n + 1 else n"
  let ?y = "set_client i (?c\<lparr>cl_status := Publishing m ps ?n\<rparr>) (y\<lparr>y_srv := (y_srv y)\<lparr>srv_broker := b\<rparr>\<rparr>)"
  have only: "only i y ?y"
    by (rule only_step [OF srv_step.send [OF Cons.prems(2) b]]) (use i Cons.prems in simp_all)
  have "at ?y i (Publishing m ps ?n)" "y_cancelled ?y" "sends_ok (srv_broker (y_srv ?y)) (y_conns ?y ! i)"
    using i Cons.prems(3,4) try_send_frame(4) [OF b] by (auto simp: at_def sends_ok_def)
  from Cons.IH [OF only_good [OF only Cons.prems(1)] this] obtain y' st w br where y':
    "only i ?y y'" "st \<in> {Checking, Leaving}" "y_conns y' ! i = (y_conns ?y ! i)\<lparr>cl_status := st, cl_out := w, cl_broken := br\<rparr>"
    "\<forall>q. sub_closed (heap (srv_broker (y_srv y')) ! q) = sub_closed (heap (srv_broker (y_srv ?y)) ! q)"
    by blast
  have "y_conns y' ! i = ?c\<lparr>cl_status := st, cl_out := w, cl_broken := br\<rparr>" using y'(3) i(2) by simp
  moreover have "\<forall>q. sub_closed (heap (srv_broker (y_srv y')) ! q) = sub_closed (heap ?b ! q)"
    using y'(4) try_send_frame(4) [OF b] by simp
  ultimately show ?case using only_trans [OF only y'(1)] y'(2) by blast
qed

lemma all_published:
  assumes "sys_good y" "\<not> y_panicked y" "y_cancelled y"
    "\<forall>c\<in>set (y_conns y). occupied c \<longrightarrow> hung_up c" "\<forall>c\<in>set (y_conns y). sends_ok (srv_broker (y_srv y)) c"
  shows "\<exists>y'. srv_step\<^sup>*\<^sup>* y y' \<and> \<not> y_panicked y' \<and> y_cancelled y' \<and> y_phase y' = y_phase y \<and>
    (\<forall>c\<in>set (y_conns y'). occupied c \<longrightarrow> hung_up c \<and> \<not> publishing c)"
  using assms
proof (induction "length (filter publishing (y_conns y))" arbitrary: y rule: less_induct)
  case less
  show ?case
  proof (cases "filter publishing (y_conns y) = []")
    case True
    with less.prems show ?thesis by (intro exI [of _ y]) (auto simp: filter_empty_conv)
  next
    case False
    then obtain i where i: "i < length (y_conns y)" "publishing (y_conns y ! i)"
      by (auto simp: filter_empty_conv in_set_conv_nth)
    let ?c = "y_conns y ! i"
    from i(2) obtain m ps n where st: "cl_status ?c = Publishing m ps n" by (auto simp: publishing_def)
    then obtain y1 st w br where y1: "only i y y1" "y_conns y1 ! i = ?c\<lparr>cl_status := st, cl_out := w, cl_broken := br\<rparr>"
      "\<forall>q. sub_closed (heap (srv_broker (y_srv y1)) ! q) = sub_closed (heap (srv_broker (y_srv y)) ! q)"
      and st1: "st \<in> {Checking, Leaving}"
      using ends_Publishing [OF less.prems(1), of i m ps n] less.prems(2,3,5) i(1) by (auto simp: at_def)
    have c1: "\<not> publishing (y_conns y1 ! i)" "targets (y_conns y1 ! i) = []" "hung_up (y_conns y1 ! i) = hung_up ?c"
      using st1 by (auto simp: y1(2) publishing_def hung_up_def)
    have "occupied ?c" using st by (simp add: occupied_def)
    then have "hung_up ?c" using less.prems(4) i(1) by auto
    have mem: "x = y_conns y1 ! i \<or> x \<in> set (y_conns y)" if "x \<in> set (y_conns y1)" for x
      using that set_update_subset_insert [of "y_conns y" i "y_conns y1 ! i"] only_conns [OF y1(1) i(1)] by auto
    have "length (filter publishing (y_conns y1)) < length (filter publishing (y_conns y))"
      using filter_update [OF i(1), of publishing "y_conns y1 ! i"] i(2) c1(1) only_conns [OF y1(1) i(1)] by simp
    moreover have "\<forall>c\<in>set (y_conns y1). occupied c \<longrightarrow> hung_up c"
      using mem less.prems(4) c1(3) \<open>hung_up ?c\<close> by auto
    moreover have "sends_ok (srv_broker (y_srv y1)) c" if "c \<in> set (y_conns y1)" for c
      using mem [OF that] less.prems(5) c1(2) y1(3) by (auto simp: sends_ok_def)
    ultimately obtain y' where "srv_step\<^sup>*\<^sup>* y1 y'" "\<not> y_panicked y'" "y_cancelled y'" "y_phase y' = y_phase y1"
      "\<forall>c\<in>set (y_conns y'). occupied c \<longrightarrow> hung_up c \<and> \<not> publishing c"
      using less.hyps [of y1] only_good [OF y1(1) less.prems(1)] y1(1) by (auto simp: only_def)
    moreover have "srv_step\<^sup>*\<^sup>* y y1" "y_phase y1 = y_phase y" using y1(1) by (auto simp: only_def)
    ultimately show ?thesis by (metis rtranclp_trans)
  qed
qed

lemma drain_returns:
  assumes "sys_good y" "\<not> y_panicked y" "y_cancelled y" "\<forall>c\<in>set (y_conns y). occupied c \<longrightarrow> hung_up c"
    "\<forall>c\<in>set (y_conns y). sends_ok (srv_broker (y_srv y)) c"
  shows "\<exists>y'. srv_step\<^sup>*\<^sup>* y y' \<and> y_phase y' = Returned \<and> \<not> y_panicked y'"
proof (cases "y_phase y = Returned")
  case True
  with assms(2) show ?thesis by blast
next
  case False
  obtain y0 where y0: "srv_step\<^sup>*\<^sup>* y y0" "\<not> y_panicked y0" "y_cancelled y0" "y_phase y0 = y_phase y"
    "\<forall>c\<in>set (y_conns y0). occupied c \<longrightarrow> hung_up c \<and> \<not> publishing c"
    using all_published [OF assms] by blast
  obtain y1 where "srv_step\<^sup>*\<^sup>* y0 y1" and y1': "\<not> y_panicked y1" "y_cancelled y1" "y_phase y1 = y_phase y0"
    "filter occupied (y_conns y1) = []"
    using all_end [OF srv.good_steps [OF y0(1) assms(1)] y0(2,3,5)] by blast
  with y0(1,4) have y1: "srv_step\<^sup>*\<^sup>* y y1" "\<not> y_panicked y1" "y_cancelled y1" "y_phase y1 = y_phase y"
    "filter occupied (y_conns y1) = []"
    by (auto intro: rtranclp_trans)
  have "\<exists>y2. srv_step\<^sup>*\<^sup>* y1 y2 \<and> \<not> y_panicked y2 \<and> y_phase y2 = Draining \<and>
    y_wg y2 = y_wg y1 \<and> y_sweeper y2 = y_sweeper y1 \<and> y_cancelled y2"
  proof (cases "y_phase y1")
    case Accepting
    from srv_step.accept_fails [OF y1(2) this y1(3)] y1 show ?thesis
      by (intro exI [of _ "y1\<lparr>y_phase := Draining\<rparr>"]) auto
  next
    case Draining
    with y1 show ?thesis by blast
  next
    case Returned
    with False y1(4) show ?thesis by simp
  qed
  then obtain y2 where y2: "srv_step\<^sup>*\<^sup>* y1 y2" "\<not> y_panicked y2" "y_phase y2 = Draining"
    "y_wg y2 = y_wg y1" "y_sweeper y2 = y_sweeper y1" "y_cancelled y2" by blast
  have "y_wg y1 = (if y_sweeper y1 then 1 else 0)"
    using srv.good_steps [OF y1(1) assms(1)] y1(5) by (simp add: sys_good_def)
  have "\<exists>y3. srv_step\<^sup>*\<^sup>* y2 y3 \<and> \<not> y_panicked y3 \<and> y_phase y3 = Draining \<and> y_wg y3 = 0"
  proof (cases "y_sweeper y2")
    case True
    from srv_step.sweeper_ends [OF y2(2) True y2(6)] y2 \<open>y_wg y1 = _\<close> True show ?thesis
      by (intro exI [of _ "y2\<lparr>y_sweeper := False, y_wg := y_wg y2 - 1\<rparr>"]) auto
  next
    case False
    with y2 \<open>y_wg y1 = _\<close> show ?thesis by (intro exI [of _ y2]) simp
  qed
  then obtain y3 where y3: "srv_step\<^sup>*\<^sup>* y2 y3" "\<not> y_panicked y3" "y_phase y3 = Draining" "y_wg y3 = 0" by blast
  have "srv_step y3 (y3\<lparr>y_phase := Returned, y_log_closed := True\<rparr>)"
    by (rule srv_step.returns [OF y3(2-4)])
  with y1(1) y2(1) y3(1,2) show ?thesis
    by (intro exI [of _ "y3\<lparr>y_phase := Returned, y_log_closed := True\<rparr>"])
      (auto intro: rtranclp_trans rtranclp.rtrancl_into_rtrancl)
qed
end
