(* ===== verification/Replies.thy ===== *)
theory Replies
  imports Server
begin

text \<open>
  What a client can make of the bytes the server sends. A reply is an item or an array of items;
  \<open>read_reply\<close> is a reference reader of the protocol. The replies of every command read back as
  whole replies, one per command (one per channel for \<^verbatim>\<open>SUBSCRIBE\<close> and \<^verbatim>\<open>UNSUBSCRIBE\<close>), so
  that a client of a pipeline stays in step with the server.
\<close>

section \<open>Replies\<close>

datatype item =
    SimpleItem string
  | ErrorItem string
  | IntItem int
  | BulkItem string
  | NullItem

datatype reply = One item | Many "item list"

fun enc_item :: "item \<Rightarrow> string" where
  "enc_item (SimpleItem s) = WriteSimpleString s"
| "enc_item (ErrorItem s) = WriteError s"
| "enc_item (IntItem n) = WriteInteger n"
| "enc_item (BulkItem s) = WriteBulkString s"
| "enc_item NullItem = WriteNull"

fun enc_reply :: "reply \<Rightarrow> string" where
  "enc_reply (One i) = enc_item i"
| "enc_reply (Many is) = WriteArrayHeader (int (length is)) @ concat (map enc_item is)"

text \<open>A line must not contain what ends it.\<close>

definition one_line :: "string \<Rightarrow> bool" where
  "one_line s \<longleftrightarrow> CR \<notin> set s \<and> LF \<notin> set s"

fun item_ok :: "item \<Rightarrow> bool" where
  "item_ok (SimpleItem s) = one_line s"
| "item_ok (ErrorItem s) = one_line s"
| "item_ok _ = True"

fun reply_ok :: "reply \<Rightarrow> bool" where
  "reply_ok (One i) = item_ok i"
| "reply_ok (Many is) = (\<forall>i\<in>set is. item_ok i)"

section \<open>A reader of replies\<close>

definition read_dec :: "string \<Rightarrow> int option" where
  "read_dec s =
     (case s of
        [] \<Rightarrow> None
      | c # cs \<Rightarrow>
          if c = CHR ''-'' then map_option (\<lambda>n. - int n) (ParseUint cs) else map_option int (ParseUint s))"

definition read_body :: "int \<Rightarrow> string \<Rightarrow> item reading" where
  "read_body n r =
     (if n < 0 then Inr (NullItem, r)
      else if nat n + 2 \<le> length r then Inr (BulkItem (take (nat n) r), drop (nat n + 2) r)
      else Inl UnexpectedEOF)"

definition read_item :: "string \<Rightarrow> item reading" where
  "read_item s =
     (case ReadByte s of
        Inl e \<Rightarrow> Inl e
      | Inr (c, s1) \<Rightarrow>
          (case readLine s1 of
             Inl e \<Rightarrow> Inl e
           | Inr (line, r) \<Rightarrow>
               if c = CHR ''+'' then Inr (SimpleItem line, r)
               else if c = CHR ''-'' then Inr (ErrorItem line, r)
               else case read_dec line of
                 None \<Rightarrow> Inl NumError
               | Some n \<Rightarrow>
                   if c = CHR '':'' then Inr (IntItem n, r)
                   else if c = CHR ''$'' then read_body n r
                   else Inl (NotBulk c)))"

fun read_items :: "nat \<Rightarrow> string \<Rightarrow> item list reading" where
  "read_items 0 s = Inr ([], s)"
| "read_items (Suc n) s =
     (case read_item s of
        Inl e \<Rightarrow> Inl e
      | Inr (i, r) \<Rightarrow> (case read_items n r of Inl e \<Rightarrow> Inl e | Inr (is, r') \<Rightarrow> Inr (i # is, r')))"

definition read_reply :: "string \<Rightarrow> reply reading" where
  "read_reply s =
     (if s \<noteq> [] \<and> hd s = CHR ''*'' then
        (case readLine (tl s) of
           Inl e \<Rightarrow> Inl e
         | Inr (line, r) \<Rightarrow>
             (case read_dec line of
                None \<Rightarrow> Inl NumError
              | Some n \<Rightarrow> (case read_items (nat n) r of Inl e \<Rightarrow> Inl e | Inr (is, r') \<Rightarrow> Inr (Many is, r'))))
      else (case read_item s of Inl e \<Rightarrow> Inl e | Inr (i, r) \<Rightarrow> Inr (One i, r)))"

lemma read_dec_FormatInt [simp]: "read_dec (FormatInt n) = Some n"
proof (cases "n < 0")
  case True
  then show ?thesis by (simp add: FormatInt_def read_dec_def ParseUint_def dec_val_nat_dec)
next
  case False
  obtain c cs where c: "nat_dec (nat n) = c # cs" by (cases "nat_dec (nat n)") auto
  then have "isDigit c" using nat_dec_digits [of c "nat n"] by simp
  then have "c \<noteq> CHR ''-''" by auto
  with False c dec_val_nat_dec [of "nat n"] show ?thesis
    by (simp add: FormatInt_def read_dec_def ParseUint_def)
qed

lemma torn_text: "one_line line \<Longrightarrow> strict_prefix p (line @ CRLF) \<Longrightarrow> readLine p = Inl EOF"
proof -
  assume l: "one_line line" and "strict_prefix p (line @ CRLF)"
  then obtain q where q: "q \<noteq> []" "line @ CRLF = p @ q" by (auto simp: strict_prefix_def prefix_def)
  then have "prefix p (line @ [CR])" by (cases q rule: rev_cases) (auto simp: CRLF_def prefix_def)
  then have "LF \<notin> set p" using set_mono_prefix [of p "line @ [CR]"] l by (auto simp: one_line_def)
  then show ?thesis by (simp add: readLine_def ReadString_no_delim)
qed

text \<open>An item is a tag, a line, and for a bulk string a body.\<close>

fun item_line :: "item \<Rightarrow> char \<times> string \<times> string" where
  "item_line (SimpleItem s) = (CHR ''+'', s, [])"
| "item_line (ErrorItem s) = (CHR ''-'', s, [])"
| "item_line (IntItem n) = (CHR '':'', FormatInt n, [])"
| "item_line (BulkItem s) = (CHR ''$'', FormatInt (int (length s)), s @ CRLF)"
| "item_line NullItem = (CHR ''$'', FormatInt (-1), [])"

lemma enc_item_line:
  "enc_item i = (case item_line i of (c, l, b) \<Rightarrow> c # l @ CRLF @ b)"
  by (cases i) (simp_all add: WriteSimpleString_def WriteError_def WriteInteger_def WriteBulkString_def
      WriteNull_def FormatInt_small)

lemma item_line_ok: "item_ok i \<Longrightarrow> one_line (fst (snd (item_line i)))"
  by (cases i) (simp_all add: one_line_def)

lemma read_item_enc: "item_ok i \<Longrightarrow> read_item (enc_item i @ r) = Inr (i, r)"
proof -
  assume ok: "item_ok i"
  obtain c l b where i: "item_line i = (c, l, b)" by (cases "item_line i")
  with item_line_ok [OF ok] have "readLine (l @ CRLF @ b @ r) = Inr (l, b @ r)"
    by (intro readLine_line) (simp_all add: one_line_def)
  with i show ?thesis
    by (cases i) (auto simp: read_item_def ReadByte_def enc_item_line read_body_def CRLF_def)
qed

lemma read_item_torn:
  assumes "item_ok i" "strict_prefix p (enc_item i)"
  shows "read_item p \<in> {Inl EOF, Inl UnexpectedEOF}"
proof (cases p)
  case Nil
  then show ?thesis by (simp add: read_item_def ReadByte_def)
next
  case (Cons x p')
  obtain c l b where i: "item_line i = (c, l, b)" by (cases "item_line i")
  then have l: "one_line l" using item_line_ok [OF assms(1)] by simp
  from Cons assms(2) i have "x = c" "strict_prefix p' ((l @ CRLF) @ b)"
    by (auto simp: enc_item_line)
  from this(2) show ?thesis
  proof (cases rule: strict_prefix_append_cases)
    case 1
    then show ?thesis using torn_text [OF l] by (simp add: Cons read_item_def ReadByte_def)
  next
    case (2 q)
    then have "readLine p' = Inr (l, q)" using l readLine_line [of l q] by (simp add: one_line_def)
    moreover have "length q < length b" using 2(2) by (rule prefix_length_less)
    ultimately show ?thesis using i \<open>x = c\<close>
      by (cases i) (auto simp: Cons read_item_def ReadByte_def read_body_def CRLF_def)
  qed
qed

lemma read_items_enc:
  "\<forall>i\<in>set is. item_ok i \<Longrightarrow> read_items (length is) (concat (map enc_item is) @ r) = Inr (is, r)"
  by (induction "is") (simp_all add: read_item_enc)

lemma read_items_torn:
  "\<forall>i\<in>set is. item_ok i \<Longrightarrow> strict_prefix p (concat (map enc_item is)) \<Longrightarrow>
    read_items (length is) p \<in> {Inl EOF, Inl UnexpectedEOF}"
proof (induction "is" arbitrary: p)
  case (Cons i "is")
  then have "strict_prefix p (enc_item i @ concat (map enc_item is))" by simp
  then show ?case
  proof (cases rule: strict_prefix_append_cases)
    case 1
    with Cons.prems read_item_torn [of i p] show ?thesis by auto
  next
    case (2 q)
    with Cons.prems Cons.IH [of q] show ?thesis by (auto simp: read_item_enc)
  qed
qed simp

lemma enc_item_tag: "enc_item i \<noteq> []" "hd (enc_item i) \<noteq> CHR ''*''"
  by (cases i; simp add: enc_item_line)+

lemma header_line: "readLine (FormatInt n @ CRLF @ r) = Inr (FormatInt n, r)"
  by (rule readLine_line) simp_all

lemma read_reply_enc: "reply_ok x \<Longrightarrow> read_reply (enc_reply x @ r) = Inr (x, r)"
proof (cases x)
  case (One i)
  moreover assume "reply_ok x"
  ultimately show ?thesis using enc_item_tag [of i] by (simp add: read_reply_def read_item_enc)
next
  case (Many "is")
  moreover assume "reply_ok x"
  ultimately show ?thesis
    by (simp add: read_reply_def WriteArrayHeader_def header_line read_items_enc)
qed

lemma read_reply_torn:
  assumes "reply_ok x" "strict_prefix p (enc_reply x)"
  shows "read_reply p \<in> {Inl EOF, Inl UnexpectedEOF}"
proof (cases x)
  case (One i)
  have "\<not> (p \<noteq> [] \<and> hd p = CHR ''*'')"
    using assms(2) enc_item_tag [of i] by (cases p; cases "enc_item i") (auto simp: One)
  then have "read_reply p = (case read_item p of Inl e \<Rightarrow> Inl e | Inr (i, r) \<Rightarrow> Inr (One i, r))"
    unfolding read_reply_def by (rule if_not_P)
  with read_item_torn [of i p] assms One show ?thesis by auto
next
  case (Many "is")
  show ?thesis
  proof (cases p)
    case Nil
    then show ?thesis by (simp add: read_reply_def read_item_def ReadByte_def)
  next
    case (Cons c p')
    let ?n = "int (length is)"
    from assms(2) Many Cons have c: "c = CHR ''*''"
      and "strict_prefix p' ((FormatInt ?n @ CRLF) @ concat (map enc_item is))"
      by (auto simp: WriteArrayHeader_def)
    from this(2) show ?thesis
    proof (cases rule: strict_prefix_append_cases)
      case 1
      then show ?thesis using torn_text [of "FormatInt ?n" p'] by (simp add: Cons c read_reply_def one_line_def)
    next
      case (2 q)
      then show ?thesis using read_items_torn [of "is" q] assms(1) Many
        by (auto simp: Cons c read_reply_def header_line)
    qed
  qed
qed

interpretation replies: codec enc_reply read_reply reply_ok at_end
proof
  fix x p assume "reply_ok x" "strict_prefix p (enc_reply x)"
  from read_reply_torn [OF this] show "\<exists>e. read_reply p = Inl e \<and> at_end e" by (auto simp: at_end_def)
qed (auto simp: read_reply_enc at_end_def, simp add: read_reply_def read_item_def ReadByte_def)

section \<open>Every command answers with whole replies\<close>

definition framed :: "nat \<Rightarrow> string \<Rightarrow> bool" where
  "framed n w \<longleftrightarrow> (\<exists>rs. length rs = n \<and> (\<forall>r\<in>set rs. reply_ok r) \<and> w = concat (map enc_reply rs))"

text \<open>A client reads framed bytes as that many replies, and then waits.\<close>

lemma framed_reads:
  "framed n w \<Longrightarrow> \<exists>rs. length rs = n \<and> (\<forall>r\<in>set rs. reply_ok r) \<and> reads_all read_reply w rs EOF"
proof -
  assume "framed n w"
  then obtain rs where rs: "length rs = n" "\<forall>r\<in>set rs. reply_ok r" "w = concat (map enc_reply rs)"
    by (auto simp: framed_def)
  have "reads_all read_reply [] [] EOF"
    by (rule reads_all.stop) (simp add: read_reply_def read_item_def ReadByte_def)
  from replies.reads_encoded [OF rs(2) this] rs show ?thesis by auto
qed

lemma framed_Nil [simp]: "framed 0 []"
  by (simp add: framed_def)

lemma framed_append: "framed m a \<Longrightarrow> framed n b \<Longrightarrow> framed (m + n) (a @ b)"
proof -
  assume "framed m a" "framed n b"
  then obtain xs ys where xs: "length xs = m" "\<forall>r\<in>set xs. reply_ok r" "a = concat (map enc_reply xs)"
    and ys: "length ys = n" "\<forall>r\<in>set ys. reply_ok r" "b = concat (map enc_reply ys)"
    unfolding framed_def by blast
  then show ?thesis unfolding framed_def by (intro exI [of _ "xs @ ys"]) auto
qed

lemma framed_reply: "reply_ok r \<Longrightarrow> framed 1 (enc_reply r)"
  unfolding framed_def by (rule exI [of _ "[r]"]) simp

lemma framed_item: "item_ok i \<Longrightarrow> framed 1 (enc_item i)"
  using framed_reply [of "One i"] by simp

lemma framed_items:
  "\<forall>i\<in>set is. item_ok i \<Longrightarrow> framed 1 (WriteArrayHeader (int (length is)) @ concat (map enc_item is))"
  using framed_reply [of "Many is"] by simp

lemma framed_write [simp]:
  "framed (Suc 0) (WriteInteger n)" "framed (Suc 0) (WriteInteger64 n)" "framed (Suc 0) (WriteBulkString s)"
  "framed (Suc 0) WriteNull" "framed (Suc 0) (WriteStringArray xs)"
  "one_line t \<Longrightarrow> framed (Suc 0) (WriteSimpleString t)" "one_line t \<Longrightarrow> framed (Suc 0) (WriteError t)"
  using framed_item [of "IntItem n"] framed_item [of "BulkItem s"] framed_item [of NullItem]
    framed_item [of "SimpleItem t"] framed_item [of "ErrorItem t"] framed_items [of "map BulkItem xs"]
  by (simp_all add: WriteInteger_def WriteInteger64_def WriteStringArray_def comp_def)

lemma one_line_simps [simp]:
  "one_line []" "one_line (c # s) \<longleftrightarrow> c \<noteq> CR \<and> c \<noteq> LF \<and> one_line s"
  "one_line (a @ b) \<longleftrightarrow> one_line a \<and> one_line b"
  by (auto simp: one_line_def)

lemma one_line_errors [simp]:
  "one_line (error_msg e)" "one_line errSyntax" "one_line not_an_integer" "one_line (Kind_String k)"
  by (cases e; simp add: CR_def LF_def) (cases k; simp add: errSyntax_def not_an_integer_def CR_def LF_def)+

lemma framed_argErr [simp]: "one_line name \<Longrightarrow> framed (Suc 0) (argErr name)"
  by (simp add: argErr_def) (simp add: CR_def LF_def)

lemma framed_nullable:
  assumes "length oks = length vals"
  shows "framed 1 (WriteNullableStringArray vals oks)"
proof -
  let ?is = "map (\<lambda>(v, b). if b then BulkItem v else NullItem) (zip vals oks)"
  have "WriteNullableStringArray vals oks = WriteArrayHeader (int (length ?is)) @ concat (map enc_item ?is)"
    using assms by (auto simp: WriteNullableStringArray_def comp_def case_prod_unfold intro!: arg_cong [of _ _ concat])
  moreover have "\<forall>i\<in>set ?is. item_ok i" by auto
  ultimately show ?thesis using framed_items by metis
qed

lemma mget_loop_length:
  "mget_loop e i ks s = (s', vals, oks) \<Longrightarrow> length vals = length ks \<and> length oks = length ks"
  by (induction ks arbitrary: i s s' vals oks) (fastforce simp: Let_def split: prod.splits)+

text \<open>A name that is repeated in an error is lower-cased, which adds no line end.\<close>

lemma in_go_runes: "r \<in> set (go_runes s) \<Longrightarrow> c \<in> set r \<Longrightarrow> c \<in> set s \<or> c \<in> set runeError"
proof (induction s rule: go_runes.induct)
  case (2 b s)
  have "set (take n (b # s)) \<subseteq> set (b # s)" "set (drop n (b # s)) \<subseteq> set (b # s)" for n
    by (rule set_take_subset, rule set_drop_subset)
  with 2 show ?case by (fastforce simp: Let_def split: if_splits)
qed simp

lemma one_line_lower_rune: "one_line r \<Longrightarrow> one_line (lower_rune r)"
proof -
  have byte: "lower_byte c = CR \<longleftrightarrow> c = CR" "lower_byte c = LF \<longleftrightarrow> c = LF" for c
  proof -
    have "byte_val (lower_byte c) = byte_val c + 32 \<and> 65 \<le> byte_val c" if "in_bytes 65 90 c"
      using that by (simp add: lower_byte_def in_bytes_def of_char_of take_bit_eq_mod)
    moreover have "byte_val CR = 13" "byte_val LF = 10" by (simp_all add: CR_def LF_def)
    ultimately have "in_bytes 65 90 c \<Longrightarrow> lower_byte c \<noteq> CR \<and> lower_byte c \<noteq> LF \<and> c \<noteq> CR \<and> c \<noteq> LF"
      by (auto simp: in_bytes_def)
    then show "lower_byte c = CR \<longleftrightarrow> c = CR" "lower_byte c = LF \<longleftrightarrow> c = LF"
      by (auto simp: lower_byte_def split: if_splits)
  qed
  assume "one_line r"
  then have "one_line (map lower_byte r)"
    unfolding one_line_def set_map image_iff using byte by metis
  moreover have "one_line ''i''" "one_line ''k''" by (simp_all add: CR_def LF_def)
  ultimately show ?thesis by (simp add: lower_rune_def)
qed

lemma one_line_ToLower: "one_line s \<Longrightarrow> one_line (ToLower s)"
proof -
  assume s: "one_line s"
  have "one_line r" if "r \<in> set (go_runes s)" for r
    using that s in_go_runes by (fastforce simp: one_line_def runeError_def CR_def LF_def)
  then show ?thesis using one_line_lower_rune by (fastforce simp: ToLower_def one_line_def)
qed

text \<open>The handlers. \<open>lit\<close> decides that a literal is one line.\<close>

lemmas lit = CR_def LF_def

lemma framed_incr:
  assumes "one_line (ToUpper (args ! 0))" shows "framed 1 (snd (cmdIncrBy e d args fixed byArg))"
proof -
  have "framed 1 w" if "incr_delta args fixed byArg = Inl w" for w
    using that one_line_ToLower [OF assms] by (auto simp: incr_delta_def Let_def split: if_splits option.splits)
  then show ?thesis by (simp add: cmdIncrBy_def Let_def case_prod_unfold split: sum.split)
qed

lemma framed_handlers:
  "framed 1 (snd (cmdSet e d args))" "framed 1 (snd (cmdGet e d args))" "framed 1 (snd (cmdGetSet e d args))"
  "framed 1 (snd (cmdAppend e d args))" "framed 1 (snd (cmdStrLen e d args))"
  "framed 1 (snd (cmdMSet e d args))" "framed 1 (snd (cmdDel e d args))" "framed 1 (snd (cmdExists e d args))"
  "framed 1 (snd (cmdType e d args))" "framed 1 (snd (cmdPersist e d args))" "framed 1 (snd (cmdKeys e d args))"
  by (simp_all add: cmdSet_def cmdGet_def cmdGetSet_def cmdAppend_def cmdStrLen_def cmdMSet_def cmdDel_def
      cmdExists_def cmdType_def cmdPersist_def cmdKeys_def Let_def case_prod_unfold lit
      split: sum.split option.split)

lemma framed_hash_handlers:
  "framed 1 (snd (cmdHSet e d args))" "framed 1 (snd (cmdHGet e d args))" "framed 1 (snd (cmdHDel e d args))"
  "framed 1 (snd (cmdHGetAll e d args))" "framed 1 (snd (cmdHLen e d args))" "framed 1 (snd (cmdHExists e d args))"
  "one_line name \<Longrightarrow> framed 1 (snd (cmdHCollection e d args fn name))"
  by (simp_all add: cmdHSet_def cmdHGet_def cmdHDel_def cmdHGetAll_def cmdHLen_def cmdHExists_def
      cmdHCollection_def Let_def case_prod_unfold lit split: sum.split option.split)

lemma framed_list_handlers:
  "framed 1 (snd (cmdLLen e d args))" "framed 1 (snd (cmdLIndex e d args))" "framed 1 (snd (cmdLRange e d args))"
  "one_line (args ! 0) \<Longrightarrow> framed 1 (snd (cmdPush e d args left))"
  "one_line (args ! 0) \<Longrightarrow> framed 1 (snd (cmdPop e d args left))"
  "one_line (args ! 0) \<Longrightarrow> framed 1 (snd (cmdExpire e d args unit))"
  "one_line (args ! 0) \<Longrightarrow> framed 1 (snd (cmdTTL e d args milli))"
  by (simp_all add: cmdLLen_def cmdLIndex_def cmdLRange_def cmdPush_def cmdPop_def cmdExpire_def cmdTTL_def
      one_line_ToLower Let_def case_prod_unfold lit split: sum.split option.split)

lemma framed_MGet: "framed 1 (snd (cmdMGet e d args))"
proof (cases "length args < 2")
  case True
  then show ?thesis by (simp add: cmdMGet_def lit)
next
  case False
  obtain s vals oks where l: "mget_loop e 0 (drop 1 args) (d_Store d) = (s, vals, oks)"
    by (cases "mget_loop e 0 (drop 1 args) (d_Store d)")
  with False mget_loop_length [OF l] framed_nullable [of oks vals] show ?thesis by (simp add: cmdMGet_def)
qed

lemmas framed_all = framed_incr framed_handlers framed_hash_handlers framed_list_handlers framed_MGet

lemma Some_ifI:
  "(P \<Longrightarrow> Q x) \<Longrightarrow> (\<not> P \<Longrightarrow> \<forall>r. y = Some r \<longrightarrow> Q r) \<Longrightarrow> \<forall>r. (if P then Some x else y) = Some r \<longrightarrow> Q r"
  by simp

lemma framed_data:
  assumes "one_line (args ! 0)" shows "\<forall>r. data_handler e d (ToUpper (args ! 0)) args = Some r \<longrightarrow> framed 1 (snd r)"
proof -
  have names: "one_line ''hkeys''" "one_line ''hvals''" "one_line ''OK''" "one_line ''INCR''" "one_line ''DECR''"
    "one_line ''INCRBY''" "one_line ''DECRBY''" by (simp_all add: lit)
  show ?thesis unfolding data_handler_def
    by (intro Some_ifI) (simp_all only: framed_all assms names snd_conv, simp_all add: lit)
qed

text \<open>\<^verbatim>\<open>SUBSCRIBE\<close> and \<^verbatim>\<open>UNSUBSCRIBE\<close> answer once per channel, the former only for new channels.\<close>

lemma framed_subscribe_reply:
  "framed 1 (writeSubscribeReply kind ch n)" "framed 1 (writeSubscribeReplyNull kind n)"
  using framed_items [of "[BulkItem kind, BulkItem ch, IntItem n]"] framed_items [of "[BulkItem kind, NullItem, IntItem n]"]
  by (simp_all add: writeSubscribeReply_def writeSubscribeReplyNull_def)

lemma framed_subscribe_loop:
  "subscribe_loop chs d cs = (d', cs', w) \<Longrightarrow> \<exists>n\<le>length chs. framed n w"
proof (induction chs d cs arbitrary: d' cs' w rule: subscribe_loop.induct)
  case (1 d cs)
  then show ?case using framed_Nil by auto
next
  case (2 ch chs d cs)
  show ?case
  proof (cases "map_of (c_Subs cs) ch")
    case (Some p)
    with 2 show ?thesis by (auto intro: le_SucI)
  next
    case None
    obtain b sub where b: "Broker_Subscribe (d_Broker d) ch = (b, sub)" by (cases "Broker_Subscribe (d_Broker d) ch")
    define cs1 where "cs1 = (let c = cs\<lparr>c_Subs := gm_put ch sub (c_Subs cs)\<rparr>
      in if c_Deliver c then c\<lparr>c_delivering := c_delivering c @ [sub]\<rparr> else c)"
    obtain d2 cs2 w2 where l: "subscribe_loop chs (d\<lparr>d_Broker := b\<rparr>) cs1 = (d2, cs2, w2)"
      by (cases "subscribe_loop chs (d\<lparr>d_Broker := b\<rparr>) cs1")
    have "\<exists>n\<le>length chs. framed n w2"
      using 2(2) [of "(b, sub)" b sub "cs\<lparr>c_Subs := gm_put ch sub (c_Subs cs)\<rparr>" cs1] None b l by (simp add: cs1_def Let_def)
    then obtain n where n: "n \<le> length chs" "framed n w2" by blast
    have "w = writeSubscribeReply ''subscribe'' ch (int (length (c_Subs cs1))) @ w2"
      using 2(3) None b l by (auto simp: cs1_def Let_def split: if_splits)
    with n framed_append [OF framed_subscribe_reply(1) n(2)] show ?thesis by (intro exI [of _ "1 + n"]) simp
  qed
qed

lemma framed_unsubscribe_loop:
  "unsubscribe_loop chs d cs = Some (d', cs', w) \<Longrightarrow> framed (length chs) w"
proof (induction chs arbitrary: d cs w)
  case (Cons ch chs)
  then obtain d1 cs1 w' where 1: "unsubscribe_loop chs d1 cs1 = Some (d', cs', w')"
    "w = writeSubscribeReply ''unsubscribe'' ch (int (length (c_Subs cs1))) @ w'"
    by (auto simp: unsubscribe_loop_Cons split: option.splits)
  from framed_append [OF framed_subscribe_reply(1) Cons.IH [OF 1(1)]] 1(2) show ?case by simp
qed simp

text \<open>The names whose replies are not one per command.\<close>

definition many_replies :: "string list \<Rightarrow> bool" where
  "many_replies args \<longleftrightarrow> ToUpper (args ! 0) = ''SUBSCRIBE'' \<or> ToUpper (args ! 0) = ''UNSUBSCRIBE''"

lemma framed_Execute:
  assumes "Execute e d cs args = Some (d', cs', w, err)" "args \<noteq> []" "one_line (args ! 0)"
  shows "\<exists>n. framed n w \<and> (\<not> many_replies args \<longrightarrow> n = 1)"
proof -
  let ?n = "ToUpper (args ! 0)"
  have lits: "framed 1 (WriteError ''ERR only (UN)SUBSCRIBE / PING / QUIT allowed in subscribe mode'')"
    "framed 1 (WriteSimpleString ''PONG'')" "framed 1 (argErr ''echo'')" "framed 1 (WriteSimpleString ''OK'')"
    "framed 1 (argErr ''publish'')"
    "framed 1 (WriteError (''ERR unknown command '' @ [CHR 0x27] @ args ! 0 @ [CHR 0x27]))"
    using assms(3) by (simp_all add: lit)
  have info: "framed 1 (cmdInfo e d)" by (simp add: cmdInfo_def)
  consider "framed 1 w" | d1 cs1 where "cmdSubscribe d cs args = (d1, cs1, w)" "?n = ''SUBSCRIBE''"
    | d1 cs1 where "cmdUnsubscribe e d cs args = Some (d1, cs1, w)" "?n = ''UNSUBSCRIBE''"
    | d1 where "cmdPublish e d args = Some (d1, w)"
    using assms(1,2) framed_data [OF assms(3), of e d] lits info
    by (auto simp: Execute_def Let_def split: if_splits option.splits prod.splits)
  then show ?thesis
  proof cases
    case 2
    then have "framed 1 w \<or> (\<exists>n\<le>length (drop 1 args). framed n w)"
      using framed_subscribe_loop [of "drop 1 args" d cs d1 cs1 w]
      by (cases "length args < 2") (auto simp: cmdSubscribe_def lit)
    with 2(2) show ?thesis by (auto simp: many_replies_def)
  next
    case 3
    then have "w = writeSubscribeReplyNull ''unsubscribe'' 0 \<or> (\<exists>chs. unsubscribe_loop chs d cs = Some (d1, cs1, w))"
      by (auto simp: cmdUnsubscribe_def Let_def split: if_splits)
    then have "\<exists>n. framed n w" using framed_unsubscribe_loop framed_subscribe_reply(2) by blast
    with 3(2) show ?thesis by (auto simp: many_replies_def)
  next
    case 4
    then have "framed 1 w" using lits(5) by (auto simp: cmdPublish_def split: if_splits option.splits)
    then show ?thesis by blast
  qed blast
qed

text \<open>A pipeline gets as many replies as it has commands.\<close>

lemma framed_answers:
  "answers envs n d cs cmds = Some (d', cs', ws) \<Longrightarrow>
    \<forall>c\<in>set cmds. c \<noteq> [] \<and> one_line (c ! 0) \<and> \<not> many_replies c \<Longrightarrow> framed (length cmds) (concat ws)"
proof (induction cmds arbitrary: n d cs ws)
  case (Cons c cmds)
  obtain d1 cs1 w ws' where ex: "Execute (envs n) d cs c = Some (d1, cs1, w, None)"
    and rest: "answers envs (Suc n) d1 cs1 cmds = Some (d', cs', ws')" and ws: "ws = w # ws'"
    using Cons.prems(1) by (auto split: option.splits)
  from framed_Execute [OF ex] Cons.prems(2) have "framed 1 w" by auto
  from framed_append [OF this Cons.IH [OF rest]] Cons.prems(2) show ?case by (simp add: ws)
qed simp

text \<open>
  The reply to an unknown command repeats its name as it is: a name with a line end in it adds a
  reply of its own.
\<close>

lemma unknown_name_injects:
  "\<exists>w. Execute e d (new_conn v) [''X'' @ CRLF @ ''+OK''] = Some (d, new_conn v, w, None) \<and>
    reads_all read_reply w [One (ErrorItem (''ERR unknown command '' @ [CHR 0x27] @ ''X'')),
      One (SimpleItem (''OK'' @ [CHR 0x27]))] EOF"
proof -
  let ?name = "''X'' @ CRLF @ ''+OK''"
  let ?w = "WriteError (''ERR unknown command '' @ [CHR 0x27] @ ?name @ [CHR 0x27])"
  let ?rs = "[One (ErrorItem (''ERR unknown command '' @ [CHR 0x27] @ ''X'')), One (SimpleItem (''OK'' @ [CHR 0x27]))]"
  have "ToUpper ?name = ?name"
    by (rule ToUpper_fixed) (simp add: ascii_upper_def in_bytes_def CRLF_def CR_def LF_def)
  then have "Execute e d (new_conn v) [?name] = Some (d, new_conn v, ?w, None)"
    by (simp add: Execute_def Let_def data_handler_def CRLF_def CR_def LF_def)
  moreover have "\<forall>r\<in>set ?rs. reply_ok r" by (simp add: lit)
  from replies.reads_encoded [OF this reads_all.stop, of "[]" EOF]
  have "reads_all read_reply (concat (map enc_reply ?rs)) ?rs EOF"
    by (simp add: read_reply_def read_item_def ReadByte_def)
  then have "reads_all read_reply ?w ?rs EOF" by (simp add: WriteError_def WriteSimpleString_def CRLF_def)
  ultimately show ?thesis by blast
qed
end
