(* ===== verification/Output.thy ===== *)
theory Output
  imports System Replies
begin

text \<open>
  What a client of the running server receives (\<^verbatim>\<open>handleConn\<close> of
  \<^verbatim>\<open>internal/server/server.go\<close>): whole replies and forwarded messages, which never break into each
  other, however the steps of the connections interleave.
\<close>

text \<open>The one condition: the names of the commands that arrive hold no line end.\<close>

definition names_ok :: "system \<Rightarrow> bool" where
  "names_ok y \<longleftrightarrow> (\<forall>c\<in>set (y_conns y). \<forall>args rest.
     ReadCommand (cl_in c) = Inr (args, rest) \<longrightarrow> args = [] \<or> one_line (args ! 0))"

definition named_step :: "system \<Rightarrow> system \<Rightarrow> bool" where
  "named_step y y' \<longleftrightarrow> srv_step y y' \<and> names_ok y"

definition out_ok :: "client \<Rightarrow> bool" where
  "out_ok c \<longleftrightarrow> (\<exists>n w. framed n w \<and> (if cl_broken c then prefix (cl_out c) w else cl_out c = w))"

lemma out_okI: "framed n (cl_out c) \<Longrightarrow> \<not> cl_broken c \<Longrightarrow> out_ok c"
  by (auto simp: out_ok_def)

lemma framed_deliver: "framed 1 (deliver_bytes m)"
  using framed_items [of "[BulkItem ''message'', BulkItem (msg_Channel m), BulkItem (msg_Payload m)]"]
  by (simp add: deliver_bytes_def)

text \<open>A reply that goes out, and one whose writing fails.\<close>

lemma out_ok_put:
  assumes "out_ok c" "framed n w" shows "out_ok (put_out w c)" "out_ok (fail_out k w c)"
proof -
  obtain m v where v: "framed m v" "if cl_broken c then prefix (cl_out c) v else cl_out c = v"
    using assms(1) unfolding out_ok_def by (elim exE conjE)
  have w: "framed (m + n) (v @ w)" using v(1) assms(2) by (rule framed_append)
  have "out_ok (put_out w c) \<and> out_ok (fail_out k w c)"
  proof (cases "cl_broken c")
    case True
    with v show ?thesis by (auto simp: out_ok_def)
  next
    case False
    with v w have f: "framed (m + n) (cl_out c @ w)" by simp
    with False show ?thesis
      by (auto simp: out_ok_def intro!: exI [of _ "m + n"] exI [of _ "cl_out c @ w"] take_is_prefix)
  qed
  then show "out_ok (put_out w c)" "out_ok (fail_out k w c)" by simp_all
qed

lemma out_ok_same: "out_ok c \<Longrightarrow> cl_out c' = cl_out c \<Longrightarrow> cl_broken c' = cl_broken c \<Longrightarrow> out_ok c'"
  by (simp only: out_ok_def)

lemma serve_round_args:
  assumes "serve_round e d cs input = Stop d' cs' w \<or> serve_round e d cs input = Answered d' cs' w rest"
  shows "\<exists>args r err. ReadCommand input = Inr (args, r) \<and> args \<noteq> [] \<and> Execute e d cs args = Some (d', cs', w, err)"
  using assms by (auto simp: serve_round_def split: sum.splits if_splits option.splits prod.splits)

lemma round_framed:
  assumes "names_ok y" "at y i Reading"
    "round_of y i e now n = Stop d cs w \<or> round_of y i e now n = Answered d cs w rest"
  shows "\<exists>k. framed k w"
proof -
  obtain args r err e' d' cs' where "ReadCommand (cl_in (y_conns y ! i)) = Inr (args, r)" "args \<noteq> []"
    "Execute e' d' cs' args = Some (d, cs, w, err)"
    using serve_round_args assms(3) unfolding round_of_def by blast
  moreover have "y_conns y ! i \<in> set (y_conns y)" using assms(2) by (simp add: at_def)
  with calculation(1,2) assms(1) have "one_line (args ! 0)" unfolding names_ok_def by blast
  ultimately show ?thesis using framed_Execute by blast
qed

lemma refused: "framed 1 (WriteError ''ERR max number of clients reached'')"
  by (simp add: lit)

interpretation outp: transition_invariant sys_init named_step "\<lambda>y. \<forall>c\<in>set (y_conns y). out_ok c"
proof
  show "\<forall>c\<in>set (y_conns y). out_ok c" if "sys_init y" for y
    using that by (simp add: sys_init_def)
next
  fix y y' assume all: "\<forall>c\<in>set (y_conns y). out_ok c" and "named_step y y'"
  then have step: "srv_step y y'" and names: "names_ok y" by (auto simp: named_step_def)
  have kept: "\<forall>c\<in>set (y_conns y'). out_ok c"
    if "y' = set_client i c z" "y_conns z = y_conns y" "out_ok c" for i c z
    using that all set_update_subset_insert [of "y_conns y" i c] by auto
  have here: "out_ok c" if "i < length (y_conns y)" "cl_out c = cl_out (y_conns y ! i)"
      "cl_broken c = cl_broken (y_conns y ! i)" for i c
    by (rule out_ok_same [OF bspec [OF all nth_mem [OF that(1)]] that(2,3)])
  have ran: "out_ok (put_out w c)" "out_ok (fail_out k w c)"
    if "at y i Reading" "round_of y i e now n = Stop d cs w \<or> round_of y i e now n = Answered d cs w rest"
      "cl_out c = cl_out (y_conns y ! i)" "cl_broken c = cl_broken (y_conns y ! i)" for i e now n d cs w rest c k
  proof -
    have "\<exists>m. framed m w" by (rule round_framed [OF names that(1,2)])
    moreover have "out_ok c" using that by (intro here [of i]) (simp_all add: at_def)
    ultimately show "out_ok (put_out w c)" "out_ok (fail_out k w c)" by (auto intro: out_ok_put)
  qed
  from step show "\<forall>c\<in>set (y_conns y'). out_ok c"
  proof cases
    case accept
    have "out_ok (admit (y_srv y))"
      unfolding admit_def by (auto intro: out_okI [of 0] out_okI [of 1] simp del: One_nat_def simp: refused)
    with all show ?thesis by (simp add: accept(1))
  next
    case (arrive i bytes)
    then show ?thesis by (intro kept [OF arrive(1)] here [of i]) simp_all
  next
    case (hang_up i)
    then show ?thesis by (intro kept [OF hang_up(1)] here [of i]) simp_all
  next
    case (start i)
    then show ?thesis by (intro kept [OF start(1)] here [of i]) (simp_all add: at_def)
  next
    case (check_cancelled i)
    then show ?thesis by (intro kept [OF check_cancelled(1)] here [of i]) (simp_all add: at_def)
  next
    case (check i)
    then show ?thesis by (intro kept [OF check(1)] here [of i]) (simp_all add: at_def)
  next
    case (read_failed i e now n)
    then show ?thesis by (intro kept [OF read_failed(1)] here [of i]) (simp_all add: at_def)
  next
    case (ignored i e now n rest)
    then show ?thesis by (intro kept [OF ignored(1)] here [of i]) (simp_all add: at_def)
  next
    case (answered i e now n d cs w rest)
    then show ?thesis by (intro kept [OF answered(1)] ran(1) [OF answered(2) disjI2 [OF answered(4)]]) simp_all
  next
    case (unflushed i e now n d cs w rest k)
    then show ?thesis by (intro kept [OF unflushed(1)] ran(2) [OF unflushed(2) disjI2 [OF unflushed(4)]]) simp_all
  next
    case (stopped i e now n d cs w)
    then show ?thesis by (intro kept [OF stopped(1)] ran(1) [OF stopped(2) disjI1 [OF stopped(4)]]) simp_all
  next
    case (stop_unflushed i e now n d cs w k)
    then show ?thesis
      by (intro kept [OF stop_unflushed(1)] ran(2) [OF stop_unflushed(2) disjI1 [OF stop_unflushed(4)]]) simp_all
  next
    case (cut_short i e args rest part now n d cs w err k)
    have "one_line (args ! 0)"
      using names cut_short(2,4,5) by (fastforce simp: names_ok_def at_def gone_through_def)
    then obtain m where "framed m w" using framed_Execute [OF cut_short(6)] by auto
    moreover have "out_ok ((y_conns y ! i)\<lparr>cl_status := Leaving, cl_in := rest, cl_conn := cs\<rparr>)"
      using cut_short(2) by (intro here [of i]) (simp_all add: at_def)
    ultimately show ?thesis by (intro kept [OF cut_short(1)] out_ok_put(2)) simp_all
  next
    case (publish i name channel payload rest ps)
    then show ?thesis by (intro kept [OF publish(1)] here [of i]) (simp_all add: at_def)
  next
    case (send i m p ps n b sent)
    then show ?thesis by (intro kept [OF send(1)] here [of i]) (simp_all add: at_def)
  next
    case (published i m n)
    then show ?thesis
      by (intro kept [OF published(1)] out_ok_put(1) [OF _ framed_write(1)] here [of i]) (simp_all add: at_def)
  next
    case (publish_unflushed i m n k)
    then show ?thesis
      by (intro kept [OF publish_unflushed(1)] out_ok_put(2) [OF _ framed_write(1)] here [of i]) (simp_all add: at_def)
  next
    case (disconnected i e now n d cs)
    then show ?thesis by (intro kept [OF disconnected(1)] here [of i]) (simp_all add: at_def)
  next
    case (receive i p b m)
    then show ?thesis by (intro kept [OF receive(1)] here [of i]) simp_all
  next
    case (deliver i p m)
    then show ?thesis by (intro kept [OF deliver(1)] out_ok_put(1) [OF _ framed_deliver] here [of i]) simp_all
  next
    case (deliver_fails i p m k)
    then show ?thesis by (intro kept [OF deliver_fails(1)] out_ok_put(2) [OF _ framed_deliver] here [of i]) simp_all
  next
    case (gone i)
    then show ?thesis by (intro kept [OF gone(1)] here [of i]) (simp_all add: at_def)
  qed (use all in simp_all)
qed

text \<open>What a client makes of its output.\<close>

lemma out_ok_reads:
  assumes "out_ok c"
  shows "\<exists>rs e. reads_all read_reply (cl_out c) rs e \<and> at_end e \<and> (\<forall>r\<in>set rs. reply_ok r) \<and>
    (\<not> cl_broken c \<longrightarrow> e = EOF)"
proof (cases "cl_broken c")
  case True
  with assms obtain xs where "\<forall>r\<in>set xs. reply_ok r" "prefix (cl_out c) (concat (map enc_reply xs))"
    by (auto simp: out_ok_def framed_def)
  from replies.reads_torn [OF this] this(1) True show ?thesis by (meson in_set_takeD)
next
  case False
  with assms obtain n where "framed n (cl_out c)" by (auto simp: out_ok_def)
  from framed_reads [OF this] show ?thesis by (auto simp: at_end_def)
qed

end
