(* ===== verification/Durable.thy ===== *)
theory Durable
  imports Shutdown Output
begin

text \<open>
  Data without deadlines from one run of the server to the next
  (\<^verbatim>\<open>internal/server/server.go\<close>, \<^verbatim>\<open>internal/aof/aof.go\<close>): the running server, its log and
  the start that follows a shutdown or a crash, put together.
\<close>

section \<open>Stores without deadlines\<close>

definition undated :: "store \<Rightarrow> bool" where
  "undated s \<longleftrightarrow> typed s \<and> (\<forall>k e. sh_lookup s k = Some e \<longrightarrow> expiresAt e = 0)"

lemma undated_typed: "undated s \<Longrightarrow> typed s"
  by (simp add: undated_def)

lemma undated_New: "Store_New c = Some s \<Longrightarrow> undated s"
  by (simp add: undated_def typed_New Store_New_empty)

lemma undated_live:
  "undated s \<Longrightarrow> getLive s k now = Some e \<Longrightarrow> expiresAt e = 0"
  unfolding undated_def getLive_Some by blast

text \<open>The same data at any time.\<close>

lemma undated_view: "undated s \<Longrightarrow> view s T = view s T'"
  by (auto simp: undated_def view_def getLive_def expired_def fun_eq_iff split: option.splits)

lemma undated_FlushDB:
  assumes "undated s" shows "undated (Store_FlushDB s)"
proof -
  have "shardFor s k < length (shards s)" for k
    using assms by (simp add: undated_def shardFor_less typed_ok)
  moreover have "shardFor (Store_FlushDB s) = shardFor s"
    by (simp add: Store_FlushDB_def shardFor_def fun_eq_iff)
  ultimately have "sh_lookup (Store_FlushDB s) k = None" for k
    by (simp add: sh_lookup_def) (simp add: Store_FlushDB_def)
  with assms show ?thesis by (simp add: undated_def typed_FlushDB)
qed

lemma undated_Sweep:
  assumes "undated s" "perm_order po" shows "undated (fst (Store_SweepExpired po s now))"
  using assms typed_Sweep [of s po now] sweep_lookup(2) [of s po now]
  by (auto simp: undated_def typed_ok getLive_Some)

text \<open>Every operation that sets no deadline keeps them away.\<close>

lemma undated_run_op:
  assumes "undated s" "perm_order po" "op_ok op" "permanent_op op"
  shows "undated (fst (run_op po now op s))"
proof -
  let ?s = "fst (run_op po now op s)"
  have ok: "store_ok s" and t: "typed ?s" and live: "\<And>k e. getLive s k now = Some e \<Longrightarrow> expiresAt e = 0"
    using assms typed_run_op [of s po op now] undated_live [OF assms(1)] by (auto simp: undated_def typed_ok)
  have old: "\<And>k e. sh_lookup s k = Some e \<Longrightarrow> expiresAt e = 0" using assms(1) by (simp add: undated_def)
  have "expiresAt e = 0" if "sh_lookup ?s k = Some e" for k e
  proof (cases op)
    case OpFlushDB
    with that undated_FlushDB [OF assms(1)] show ?thesis by (simp add: undated_def)
  next
    case OpSweepExpired
    with that undated_Sweep [OF assms(1,2)] show ?thesis by (auto simp: undated_def)
  qed (use that assms(4) ok in \<open>auto simp: permanent_op_def Store_Set_def Store_SetNX_def Store_SetXX_def Let_def
      Store_Get_def lazyDelete_def Store_Append_def Store_GetSet_def Store_StrLen_def Store_IncrBy_def incr_entry_def
      Store_Del_def Store_Persist_def Store_HSet_def Store_HDel_def Store_LPush_def Store_RPush_def push_with_def
      Store_LPop_def Store_RPop_def Store_pop_def case_prod_unfold
      dest: live old split: option.splits if_splits sum.splits\<close>)
  with t show ?thesis by (simp add: undated_def)
qed

lemma undated_run_list:
  "undated s \<Longrightarrow> env_ok e \<Longrightarrow> \<forall>op\<in>set ops. op_ok op \<and> permanent_op op \<Longrightarrow>
    undated (fst (run_list e i ops s))"
proof (induction ops arbitrary: i s)
  case (Cons op ops)
  have "undated (fst (run_op (ord e) (clk e i) op s))"
    using Cons.prems by (intro undated_run_op) (simp_all add: env_ok_def)
  from Cons.IH [OF this, of "Suc i"] Cons.prems(2,3) show ?case by (simp add: Let_def case_prod_unfold)
qed simp

section \<open>A command\<close>

text \<open>The store holds the data set \<open>db\<close>, for good.\<close>

definition holds_db :: "db \<Rightarrow> store \<Rightarrow> bool" where
  "holds_db db s \<longleftrightarrow> undated s \<and> permanent db \<and> (\<forall>T. view s T = db)"

lemma holds_db_view: "holds_db db s \<Longrightarrow> view s T = db"
  by (simp add: holds_db_def)

lemma holds_db_New: "Store_New c = Some s \<Longrightarrow> holds_db Map.empty s"
  by (simp add: holds_db_def undated_New view_def getLive_def Store_New_empty fun_eq_iff)

lemma holds_db_shows: "holds_db db (d_Store d) \<Longrightarrow> shows_db t d db"
  by (simp add: holds_db_def shows_db_def undated_typed)

lemma shows_db_holds: "shows_db t d db \<Longrightarrow> undated (d_Store d) \<Longrightarrow> holds_db db (d_Store d)"
  unfolding shows_db_def holds_db_def by (metis order_refl undated_view)

lemma undated_Execute:
  assumes "Execute e d cs args = Some (d', cs', w, err)" "undated (d_Store d)" "env_ok e" "ttl_free args"
  shows "undated (d_Store d')"
proof (cases "InSubscribeMode cs \<or> cmd_ops args = []")
  case True
  with Execute_other [OF assms(1)] assms(2) show ?thesis by simp
next
  case False
  have "\<forall>op\<in>set (cmd_ops args). op_ok op \<and> permanent_op op"
    using cmd_ops_ok assms(4) by (auto simp: ttl_free_def)
  from undated_run_list [OF assms(2,3) this, of 0] False assms(1) show ?thesis
    by (auto simp: Execute_ops Let_def case_prod_unfold)
qed

text \<open>A command without deadlines does to the data what its entries in the log stand for.\<close>

lemma Execute_logged:
  assumes "Execute e d cs args = Some (d', cs', w, err)" "holds_db db (d_Store d)" "env_ok e" "ttl_free args"
    "d_AOF d = Some h"
  shows "\<exists>new. d_AOF d' = Some (h @ new) \<and> (\<forall>c\<in>set new. ttl_free c \<and> cmd_ops c \<noteq> []) \<and>
    holds_db (replay_db new db) (d_Store d')"
proof -
  have step: "exec_step (e, cs, args) d = d'" using assms(1) by (simp add: exec_step_def)
  have "undated (d_Store d')"
    using undated_Execute [OF assms(1) _ assms(3,4)] assms(2) by (simp add: holds_db_def)
  with exec_step_replay [OF holds_db_shows [OF assms(2)] assms(3) order_refl assms(4,5), of cs] show ?thesis
    unfolding step using shows_db_holds by blast
qed

section \<open>Start-up\<close>

abbreviation replayable :: "string list \<Rightarrow> bool" where
  "replayable c \<equiv> ttl_free c \<and> cmd_ops c \<noteq> []"

lemma replay_holds:
  assumes "\<forall>n. env_ok (envs n)"
  shows "holds_db db (d_Store d) \<Longrightarrow> \<not> InSubscribeMode cs \<Longrightarrow> \<forall>c\<in>set cmds. replayable c \<Longrightarrow>
    \<exists>d'. apply_all (replay_apply envs) cmds (d, cs, n) = ((d', cs, n + length cmds), None) \<and>
      holds_db (replay_db cmds db) (d_Store d')"
proof (induction cmds arbitrary: d n db)
  case (Cons c cmds)
  have c: "ttl_free c" "cmd_ops c \<noteq> []" "c \<noteq> []" using Cons.prems(3) by (auto simp: cmd_ops_def)
  obtain d1 w where ex: "Execute (envs n) d cs c = Some (d1, cs, w, None)"
    using Execute_ops [OF Cons.prems(2) c(2), of "envs n" d] by (auto simp: Let_def case_prod_unfold)
  have "shows_db (clk (envs n) (length (cmd_ops c))) d1 (fst (spec_ops (cmd_ops c) db))"
    using exec_step_ops(1) [OF holds_db_shows [OF Cons.prems(1)] spec [OF assms] order_refl c(1) Cons.prems(2) c(2), of n]
      ex by (simp add: exec_step_def)
  moreover have "undated (d_Store d1)"
    using undated_Execute [OF ex] Cons.prems(1) assms c(1) by (simp add: holds_db_def)
  ultimately have "holds_db (fst (spec_ops (cmd_ops c) db)) (d_Store d1)" by (rule shows_db_holds)
  from Cons.IH [OF this Cons.prems(2), of "Suc n"] Cons.prems(3) c(3) ex show ?case
    by (simp add: replay_apply_def)
qed simp

lemma Server_New_empty: "Server_New cfg now = Some s \<Longrightarrow> holds_db Map.empty (srv_store s)"
  by (auto simp: Server_New_def Let_def holds_db_New split: option.splits)

lemma Server_New_path: "Server_New cfg now = Some s \<Longrightarrow> AOFPath (srv_cfg s) = AOFPath cfg"
  by (auto simp: Server_New_def Let_def split: option.splits)

text \<open>A new server on a file from which a reader delivers \<open>cmds\<close>, and then at most a torn one.\<close>

lemma start_holds:
  assumes "Server_New cfg now = Some s" "AOFPath cfg \<noteq> []" "\<forall>n. env_ok (envs n)"
    "reads_all ReadCommand file cmds err" "at_end err" "\<forall>c\<in>set cmds. replayable c"
  shows "\<exists>y. Run_start envs (Content file) True True s = Started y \<and> srv_aof (y_srv y) = Some [] \<and>
    holds_db (replay_db cmds Map.empty) (srv_store (y_srv y)) \<and> y_conns y = []"
proof -
  let ?d = "\<lparr>d_Store = srv_store s, d_AOF = None, d_Broker = srv_broker s, d_Stats = None, d_AOFI = None\<rparr>"
  have "holds_db Map.empty (d_Store ?d)" using Server_New_empty [OF assms(1)] by simp
  from replay_holds [OF assms(3) this, of "new_conn False" cmds 0] assms(6)
  obtain d' where d': "apply_all (replay_apply envs) cmds (?d, new_conn False, 0) = ((d', new_conn False, length cmds), None)"
    "holds_db (replay_db cmds Map.empty) (d_Store d')" by auto
  with replay_loop_reads [OF assms(4), of "replay_apply envs" "(?d, new_conn False, 0)"] assms(2,5) Server_New_path [OF assms(1)]
  show ?thesis by (auto simp: Run_start_def replayAOF_def Replay_def at_end_def)
qed

section \<open>The running server\<close>

text \<open>
  \<open>calm_step\<close>: a step while no client has sent a command that sets or asks for a deadline.
\<close>

definition calm :: "system \<Rightarrow> bool" where
  "calm y \<longleftrightarrow>
     list_all (\<lambda>c. case ReadCommand (cl_in c) of Inl err \<Rightarrow> True | Inr (args, rest) \<Rightarrow> ttl_free args) (y_conns y)"

definition calm_step :: "system \<Rightarrow> system \<Rightarrow> bool" where
  "calm_step y y' \<longleftrightarrow> calm y \<and> srv_step y y'"

definition starts_from :: "string list list \<Rightarrow> system \<Rightarrow> bool" where
  "starts_from h0 y \<longleftrightarrow>
     (\<exists>cfg now s envs. Server_New cfg now = Some s \<and> AOFPath cfg \<noteq> [] \<and> (\<forall>n. env_ok (envs n)) \<and>
        (\<forall>c\<in>set h0. command_fits c \<and> replayable c) \<and>
        Run_start envs (Content (enc_all h0)) True True s = Started y)"

text \<open>The store holds what the log, old and new, stands for.\<close>

definition backed :: "string list list \<Rightarrow> system \<Rightarrow> bool" where
  "backed h0 y \<longleftrightarrow>
     (\<exists>h. srv_aof (y_srv y) = Some h \<and> (\<forall>c\<in>set (h0 @ h). replayable c) \<and>
        holds_db (replay_db (h0 @ h) Map.empty) (srv_store (y_srv y)))"

text \<open>What a step may do: append to the log commands that stand for what it does to the data.\<close>

definition mirrors :: "system \<Rightarrow> system \<Rightarrow> bool" where
  "mirrors y y' \<longleftrightarrow>
     (\<forall>h db. srv_aof (y_srv y) = Some h \<and> holds_db db (srv_store (y_srv y)) \<longrightarrow>
        (\<exists>new. srv_aof (y_srv y') = Some (h @ new) \<and> (\<forall>c\<in>set new. replayable c) \<and>
          holds_db (replay_db new db) (srv_store (y_srv y'))))"

lemma mirrors_same:
  "srv_aof (y_srv y') = srv_aof (y_srv y) \<Longrightarrow> srv_store (y_srv y') = srv_store (y_srv y) \<Longrightarrow> mirrors y y'"
  by (auto simp: mirrors_def intro: exI [of _ "[]"])

lemma mirrorsE:
  assumes "mirrors y y'" "srv_aof (y_srv y) = Some h" "holds_db db (srv_store (y_srv y))"
  obtains new where "srv_aof (y_srv y') = Some (h @ new)" "\<forall>c\<in>set new. replayable c"
    "holds_db (replay_db new db) (srv_store (y_srv y'))"
  using assms unfolding mirrors_def by blast

lemma backed_mirrors:
  assumes "backed h0 y" "mirrors y y'" shows "backed h0 y'"
proof -
  obtain h where h: "srv_aof (y_srv y) = Some h" "\<forall>c\<in>set (h0 @ h). replayable c"
    "holds_db (replay_db (h0 @ h) Map.empty) (srv_store (y_srv y))" using assms(1) by (auto simp: backed_def)
  from mirrorsE [OF assms(2) h(1,3)] obtain new where "srv_aof (y_srv y') = Some (h @ new)"
    "\<forall>c\<in>set new. replayable c" "holds_db (replay_db new (replay_db (h0 @ h) Map.empty)) (srv_store (y_srv y'))" .
  with h(2) show ?thesis by (auto simp: backed_def)
qed

lemma disconnect_frame:
  assumes "disconnect e d cs = Some (d', cs')"
  shows "d_Store d' = d_Store d \<and> d_AOF d' = d_AOF d"
proof -
  have "d_Store d' = d_Store d \<and> d_AOF d' = d_AOF d" if "drop_subs chs d cs = Some (d', cs')" for chs
    using that by (induction chs d cs rule: drop_subs.induct) (auto split: option.splits)
  with assms show ?thesis by (simp add: disconnect_def)
qed

lemma mirrors_round:
  assumes "calm y" "at y i Reading" "env_ok e"
    "round_of y i e now n = Stop d cs w \<or> round_of y i e now n = Answered d cs w rest"
    "srv_aof (y_srv y') = d_AOF d" "srv_store (y_srv y') = d_Store d"
  shows "mirrors y y'"
proof -
  let ?d = "server_deps now n (count_command (y_srv y))"
  obtain args r err where a: "ReadCommand (cl_in (y_conns y ! i)) = Inr (args, r)"
    "Execute e ?d (cl_conn (y_conns y ! i)) args = Some (d, cs, w, err)"
    using serve_round_args assms(4) unfolding round_of_def by blast
  have "y_conns y ! i \<in> set (y_conns y)" using assms(2) by (simp add: at_def)
  with assms(1) a(1) have free: "ttl_free args" by (auto simp: calm_def list_all_iff dest!: bspec)
  show ?thesis
    using Execute_logged [OF a(2) _ assms(3) free] by (simp add: mirrors_def assms(5,6))
qed

lemma holds_db_sweep:
  assumes "holds_db db s" "perm_order po" "j < length (shards s)"
  shows "holds_db db (sweep_at po now j s)"
proof -
  let ?s = "sweep_at po now j s"
  have s: "undated s" "typed s" "store_ok s" using assms by (simp_all add: holds_db_def undated_def typed_ok)
  have look: "sh_lookup ?s k = sh_lookup s k" for k
    using sweep_at_lookup(2) [OF s(3) assms(2,3), of now k] s(1)
    by (auto simp: getLive_def undated_def expired_def split: option.splits)
  then have "view ?s T = view s T" for T by (simp add: view_def getLive_def fun_eq_iff)
  with assms(1) typed_sweep_at [OF s(2) assms(2,3)] s(1) look show ?thesis by (simp add: holds_db_def undated_def)
qed

lemma starts_holds:
  assumes "starts_from h0 y"
  shows "srv_aof (y_srv y) = Some []" "holds_db (replay_db h0 Map.empty) (srv_store (y_srv y))"
proof -
  from assms obtain cfg now s envs where s: "Server_New cfg now = Some s" "AOFPath cfg \<noteq> []" "\<forall>n. env_ok (envs n)"
    "\<forall>c\<in>set h0. command_fits c" "\<forall>c\<in>set h0. replayable c"
    "Run_start envs (Content (enc_all h0)) True True s = Started y"
    by (auto simp: starts_from_def)
  obtain err where "reads_all ReadCommand (enc_all h0) h0 err" "at_end err" using reads_enc_all [OF s(4)] by blast
  from start_holds [OF s(1-3) this s(5)] s(6)
  show "srv_aof (y_srv y) = Some []" "holds_db (replay_db h0 Map.empty) (srv_store (y_srv y))" by auto
qed

lemma gone_through_ops: "gone_through e cs args part \<Longrightarrow> cmd_ops (args ! 0 # part) = []"
proof -
  assume "gone_through e cs args part"
  then have "ToUpper (args ! 0) = ''SUBSCRIBE'' \<or> ToUpper (args ! 0) = ''UNSUBSCRIBE''"
    unfolding gone_through_def Let_def by blast
  then show ?thesis by (elim disjE) (simp_all add: cmd_ops_def ops_of_def)
qed

lemma calm_step_mirrors:
  assumes "calm_step y y'" shows "mirrors y y'"
proof -
  from assms have c: "calm y" and "srv_step y y'" by (auto simp: calm_step_def)
  from this(2) show ?thesis
  proof cases
    case (answered i e now n d cs w rest)
    show ?thesis using answered
      by (intro mirrors_round [OF c answered(2,3) disjI2 [OF answered(4)]]) (simp_all add: put_deps_def)
  next
    case (unflushed i e now n d cs w rest k)
    show ?thesis using unflushed
      by (intro mirrors_round [OF c unflushed(2,3) disjI2 [OF unflushed(4)]]) (simp_all add: put_deps_def)
  next
    case (stopped i e now n d cs w)
    show ?thesis using stopped
      by (intro mirrors_round [OF c stopped(2,3) disjI1 [OF stopped(4)]]) (simp_all add: put_deps_def)
  next
    case (stop_unflushed i e now n d cs w k)
    show ?thesis using stop_unflushed
      by (intro mirrors_round [OF c stop_unflushed(2,3) disjI1 [OF stop_unflushed(4)]]) (simp_all add: put_deps_def)
  next
    case (cut_short i e args rest part now n d cs w err k)
    have "cmd_ops (args ! 0 # part) = []" by (rule gone_through_ops [OF cut_short(5)])
    with Execute_other [OF cut_short(6)] show ?thesis
      by (intro mirrors_same) (simp_all add: cut_short(1) put_deps_def)
  next
    case (disconnected i e now n d cs)
    with disconnect_frame [OF disconnected(4)] show ?thesis
      by (intro mirrors_same) (simp_all add: put_deps_def)
  next
    case (sweep e j)
    with holds_db_sweep [OF _ _ sweep(5)] show ?thesis
      by (auto simp: mirrors_def sweep(1) env_ok_def intro: exI [of _ "[]"])
  qed (auto intro: mirrors_same)
qed

interpretation dur: transition_invariant "starts_from h0" calm_step "backed h0"
proof
  show "starts_from h0 y \<Longrightarrow> backed h0 y" for y
    using starts_holds by (fastforce simp: backed_def starts_from_def)
  show "backed h0 y \<Longrightarrow> calm_step y y' \<Longrightarrow> backed h0 y'" for y y'
    using backed_mirrors calm_step_mirrors by blast
qed

section \<open>The next start\<close>

text \<open>
  The log of the run, a crash or a shutdown of its process at any moment, and the start of a new
  server from the file it left.
\<close>

lemma restart:
  assumes "starts_from h0 y0" "calm_step\<^sup>*\<^sup>* y0 y" "srv_aof (y_srv y) = Some (hist l)"
    "log_init l0" "log_step\<^sup>*\<^sup>* l0 l" "base l = enc_all h0" "\<forall>c\<in>set (hist l). command_fits c"
    "Server_New cfg now = Some s" "AOFPath cfg \<noteq> []" "\<forall>n. env_ok (envs n)"
  shows "\<exists>y' k. Run_start envs (Content (wfile (l_w (lg l)))) True True s = Started y' \<and>
    (\<forall>T. view (srv_store (y_srv y')) T = replay_db (take k (hist l)) (view (srv_store (y_srv y0)) T)) \<and>
    (pending (lg l) = [] \<or> l_done (lg l) \<longrightarrow> starts_from (h0 @ hist l) y' \<and>
      (\<forall>T. view (srv_store (y_srv y')) T = view (srv_store (y_srv y)) T))"
proof -
  have good: "log_good l" by (rule aof.good_reachable [OF assms(4,5)])
  from dur.good_reachable [OF assms(1,2)] assms(3)
  have h: "\<forall>c\<in>set (h0 @ hist l). replayable c" "holds_db (replay_db (h0 @ hist l) Map.empty) (srv_store (y_srv y))"
    by (auto simp: backed_def)
  have fits: "\<forall>c\<in>set (h0 @ hist l). command_fits c" using assms(1,7) by (auto simp: starts_from_def)
  from log_good_crash [OF good assms(6) fits]
  obtain k e where k: "reads_all ReadCommand (wfile (l_w (lg l))) (h0 @ take k (hist l)) e" "at_end e" by blast
  have rep: "\<forall>c\<in>set (h0 @ take k (hist l)). replayable c" using h(1) by (auto dest: in_set_takeD)
  obtain y' where y': "Run_start envs (Content (wfile (l_w (lg l)))) True True s = Started y'"
    "holds_db (replay_db (h0 @ take k (hist l)) Map.empty) (srv_store (y_srv y'))"
    using start_holds [OF assms(8-10) k rep] by blast
  have start: "holds_db (replay_db h0 Map.empty) (srv_store (y_srv y0))" by (rule starts_holds(2) [OF assms(1)])
  have "take k (hist l) = hist l \<and> starts_from (h0 @ hist l) y'" if "pending (lg l) = [] \<or> l_done (lg l)"
  proof -
    have "wfile (l_w (lg l)) = enc_all (h0 @ hist l)"
      using that good log_good_drained [OF good] assms(6) by (auto simp: log_good_def Let_def)
    moreover from this have "h0 @ take k (hist l) = h0 @ hist l"
      using reads_enc_all [OF fits] reads_all_det k(1) by metis
    ultimately show ?thesis using assms(8-10) h(1) fits y'(1) unfolding starts_from_def by auto
  qed
  with y' h(2) start show ?thesis
    by (intro exI [of _ y'] exI [of _ k]) (auto simp: holds_db_view)
qed

end
