(* ===== verification/Rewrites.thy ===== *)
theory Rewrites
  imports Durable
begin

text \<open>
  The running server, its log and rewrites of the log together (\<^verbatim>\<open>internal/server/server.go\<close>,
  \<^verbatim>\<open>internal/aof/aof.go\<close>): what \<^verbatim>\<open>Rewrite\<close> keeps of the data, and on what condition.
\<close>

section \<open>The commands of a rewrite\<close>

lemma value_command_replayable:
  assumes "copies (k, e) p" "entry_ok e" "perm_order po"
  shows "replayable (value_command po p)"
proof (cases "e_kind e")
  case KindHash
  with copies_hash [OF assms(1,2) KindHash assms(3)] cmd_ops_HSET [of "gm_range po (snap_Hash p)" k] assms(1) show ?thesis
    by (simp add: copies_def value_command_def ttl_free_def permanent_op_def)
next
  case KindList
  then have "e_list e \<noteq> []" using assms(2) entry_okD(3) by blast
  with KindList assms(1) cmd_ops_RPUSH [of "e_list e" k] show ?thesis
    by (simp add: copies_def value_command_def ttl_free_def permanent_op_def)
qed (use assms in \<open>simp_all add: copies_def value_command_def cmd_ops_SET ttl_free_def permanent_op_def entry_ok_def\<close>)

lemma rewrite_replayable:
  assumes "list_all2 copies kes ps" "\<forall>(k, e)\<in>set kes. entry_ok e \<and> expiresAt e = 0" "perm_order po"
    "c \<in> set (rewrite_commands po ck ps)"
  shows "replayable c"
proof -
  obtain i where i: "i < length ps" "c \<in> set (snapshotCommands po (ck i) (ps ! i))"
    using assms(4) by (auto simp: rewrite_commands_def in_set_enumerate_eq)
  obtain k e where ke: "kes ! i = (k, e)" by fastforce
  have "i < length kes" "copies (k, e) (ps ! i)"
    using list_all2_lengthD [OF assms(1)] list_all2_nthD2 [OF assms(1) i(1)] i(1) ke by simp_all
  moreover from this(1) ke have "entry_ok e" "expiresAt e = 0" using assms(2) nth_mem by fastforce+
  ultimately show ?thesis
    using snapshotCommands_copy [of k e "ps ! i" po "ck i"] value_command_replayable [of k e "ps ! i" po] assms(3) i(2)
    by simp
qed

text \<open>A snapshot of data without deadlines: whenever its commands are written, they rebuild the data.\<close>

definition pictures :: "db \<Rightarrow> Snapshot list \<Rightarrow> bool" where
  "pictures db ps \<longleftrightarrow>
     (\<forall>po ck. perm_order po \<longrightarrow> replay_db (rewrite_commands po ck ps) Map.empty = db \<and>
        (\<forall>c\<in>set (rewrite_commands po ck ps). replayable c))"

lemma SnapshotAll_pictures:
  assumes "holds_db db s" "perm_order po"
  shows "pictures db (Store_SnapshotAll po s now)"
  unfolding pictures_def
proof (intro allI impI)
  fix po' :: "string list \<Rightarrow> string list" and ck assume po': "perm_order po'"
  let ?kes = "live_list po s now" and ?ps = "Store_SnapshotAll po s now"
  have s: "typed s" "undated s" using assms(1) by (simp_all add: holds_db_def undated_def)
  note live = live_list_set [OF typed_ok [OF s(1)] assms(2), where now = now]
  note distinct = live_list_distinct [OF typed_ok [OF s(1)] assms(2), of now]
  have kes: "\<forall>(k, e)\<in>set ?kes. entry_ok e \<and> expiresAt e = 0"
    using live_list_copies(2) [OF s(1) assms(2)] live undated_live [OF s(2)] by fastforce
  have "replay_db (rewrite_commands po' ck ?ps) Map.empty k = db k" for k
  proof -
    have "map_of ?kes k = getLive s k now"
    proof (cases "getLive s k now")
      case (Some e)
      with live distinct show ?thesis by (simp add: map_of_is_SomeI)
    next
      case None
      with live have "(k, e) \<notin> set ?kes" for e by simp
      with None show ?thesis by (metis map_of_SomeD option.exhaust)
    qed
    moreover have "db k = map_option (\<lambda>e. (abs_val e, expiresAt e)) (getLive s k now)"
      using holds_db_view [OF assms(1), of now] by (simp add: view_def fun_eq_iff)
    moreover have "replay_db = replay_at 0" by (simp add: replay_db_def replay_at_def fun_eq_iff)
    ultimately show ?thesis
      using rewrite_copies [OF po' live_list_copies(1) [OF s(1) assms(2)] distinct live_list_copies(2) [OF s(1) assms(2)],
          where k = k and T = 0 and ck = ck] undated_live [OF s(2)]
      by (auto simp: new_deadline_def split: option.splits)
  qed
  with rewrite_replayable [OF live_list_copies(1) [OF s(1) assms(2)] kes po', of _ ck]
  show "replay_db (rewrite_commands po' ck ?ps) Map.empty = db \<and> (\<forall>c\<in>set (rewrite_commands po' ck ?ps). replayable c)"
    by (auto simp: fun_eq_iff)
qed

section \<open>The server, the log and the rewrite\<close>

text \<open>
  The running server with its log; \<open>p_sent\<close> of the entries of its commands have been handed to the
  channel, in their order. \<open>p_snap\<close> is the snapshot of a rewrite under way, with the number of entries
  logged before it was taken. Two ghosts: the commands of the file the log was opened with or
  rewritten to, and whether the last rewrite was exact: whether the entries that it left to be
  written were just those of the commands after its snapshot.
\<close>

record kept =
  p_sys :: system
  p_log :: logsys
  p_sent :: nat
  p_snap :: "(nat \<times> Snapshot list) option"
  p_base :: "string list list"
  p_exact :: bool

definition entries :: "kept \<Rightarrow> string list list" where
  "entries x = (case srv_aof (y_srv (p_sys x)) of None \<Rightarrow> [] | Some h \<Rightarrow> h)"

definition queued :: "kept \<Rightarrow> string list list" where
  "queued x = pending (lg (p_log x)) @ drop (p_sent x) (entries x)"

definition kept_init :: "string list list \<Rightarrow> kept \<Rightarrow> bool" where
  "kept_init h0 x \<longleftrightarrow>
     starts_from h0 (p_sys x) \<and> log_init (p_log x) \<and> base (p_log x) = enc_all h0 \<and> p_sent x = 0 \<and>
     p_snap x = None \<and> p_base x = h0 \<and> p_exact x"

text \<open>
  \<open>runs\<close>: the rounds of the writer goroutine, \<^verbatim>\<open>Size\<close> and \<^verbatim>\<open>Close\<close>, which accept no command and
  replace no file. \<open>snaps\<close> is the call of \<^verbatim>\<open>SnapshotAll\<close>, \<open>swaps\<close> the region of \<^verbatim>\<open>Rewrite\<close> under
  \<^verbatim>\<open>l.mu\<close> with the commands it has written by then.
\<close>

inductive kept_step :: "kept \<Rightarrow> kept \<Rightarrow> bool" where
  serves: "calm_step (p_sys x) y \<Longrightarrow> kept_step x (x\<lparr>p_sys := y\<rparr>)"
| sends: "p_sent x < length (entries x) \<Longrightarrow> Log_Append (lg (p_log x)) (entries x ! p_sent x) = Done l \<Longrightarrow>
    kept_step x (x\<lparr>p_log := (p_log x)\<lparr>lg := l, hist := hist (p_log x) @ [entries x ! p_sent x]\<rparr>,
      p_sent := Suc (p_sent x)\<rparr>)"
| runs: "log_step (p_log x) l \<Longrightarrow> hist l = hist (p_log x) \<Longrightarrow> base l = base (p_log x) \<Longrightarrow>
    kept_step x (x\<lparr>p_log := l\<rparr>)"
| snaps: "perm_order po \<Longrightarrow>
    kept_step x (x\<lparr>p_snap := Some (length (entries x), Store_SnapshotAll po (srv_store (y_srv (p_sys x))) now)\<rparr>)"
| swaps: "p_snap x = Some (n, ps) \<Longrightarrow> perm_order po \<Longrightarrow> cmds = rewrite_commands po ck ps \<Longrightarrow>
    wopen (l_w (lg (p_log x))) \<Longrightarrow> Rewrite None cmds (lg (p_log x)) = (l, None) \<Longrightarrow>
    kept_step x (x\<lparr>p_log := \<lparr>lg = l, base = enc_all cmds, hist = pending (lg (p_log x))\<rparr>, p_snap := None,
      p_base := cmds, p_exact := (queued x = drop n (entries x))\<rparr>)"

inductive_cases kept_stepE: "kept_step x y"

section \<open>The invariant\<close>

definition kept_good :: "string list list \<Rightarrow> kept \<Rightarrow> bool" where
  "kept_good h0 x \<longleftrightarrow>
     backed h0 (p_sys x) \<and> log_good (p_log x) \<and> base (p_log x) = enc_all (p_base x) \<and>
     p_sent x \<le> length (entries x) \<and> suffix (pending (lg (p_log x))) (hist (p_log x)) \<and>
     set (hist (p_log x)) \<subseteq> set (take (p_sent x) (entries x)) \<and> (\<forall>c\<in>set (p_base x). replayable c) \<and>
     (p_exact x \<longrightarrow> replay_db (p_base x @ hist (p_log x) @ drop (p_sent x) (entries x)) Map.empty =
        replay_db (h0 @ entries x) Map.empty) \<and>
     (\<forall>n ps. p_snap x = Some (n, ps) \<longrightarrow> n \<le> length (entries x) \<and>
        pictures (replay_db (h0 @ take n (entries x)) Map.empty) ps)"

lemma backed_entries:
  "backed h0 (p_sys x) \<Longrightarrow> srv_aof (y_srv (p_sys x)) = Some (entries x) \<and>
    (\<forall>c\<in>set (h0 @ entries x). replayable c) \<and> holds_db (replay_db (h0 @ entries x) Map.empty) (srv_store (y_srv (p_sys x)))"
  by (auto simp: backed_def entries_def)

text \<open>The steps of the log that accept nothing take from the queue in its order.\<close>

lemma log_step_suffix:
  assumes "log_step s t" "hist t = hist s" "suffix (pending (lg s)) (hist s)"
  shows "suffix (pending (lg t)) (hist t)"
  using assms(1)
proof cases
  case (append args l)
  with assms(2) show ?thesis by simp
next
  case (receive l)
  with assms(3) show ?thesis
    by (auto simp: writer_receive_def pending_def split: if_splits list.splits)
next
  case (body l)
  with assms(3) show ?thesis
    by (auto simp: writer_body_def Let_def pending_def split: option.splits dest: suffix_ConsD)
next
  case (rewrite cmds l)
  then show ?thesis by (auto simp: Rewrite_def Let_def pending_def)
qed (use assms(3) in \<open>auto simp: writer_exit_def Close_begin_def Close_end_def Log_Size_def Let_def split: if_splits\<close>)

lemma suffix_append_same: "suffix xs ys \<Longrightarrow> suffix (xs @ zs) (ys @ zs)"
  by (auto simp: suffix_def)

interpretation kept: transition_invariant "kept_init h0" kept_step "kept_good h0"
proof
  fix x assume init: "kept_init h0 x"
  then have "backed h0 (p_sys x)" "log_good (p_log x)"
    using dur.good_init aof.good_init by (auto simp: kept_init_def)
  moreover have "srv_aof (y_srv (p_sys x)) = Some []" "\<forall>c\<in>set h0. replayable c"
    using init starts_holds(1) unfolding kept_init_def by (blast, auto simp: starts_from_def)
  moreover have "hist (p_log x) = []" "pending (lg (p_log x)) = []"
    using init by (simp_all add: kept_init_def log_init_def Log_Open_def pending_def)
  ultimately show "kept_good h0 x" using init by (simp add: kept_good_def kept_init_def entries_def)
next
  fix x x' assume good: "kept_good h0 x" and "kept_step x x'"
  note ent = backed_entries [of h0 x]
  have lg: "log_good (p_log x)" using good by (simp add: kept_good_def)
  from \<open>kept_step x x'\<close> show "kept_good h0 x'"
  proof cases
    case (serves y)
    from good have b: "backed h0 (p_sys x)" by (simp add: kept_good_def)
    with ent mirrorsE [OF calm_step_mirrors [OF serves(2)]]
    obtain new where "srv_aof (y_srv y) = Some (entries x @ new)" by metis
    then have new: "entries x' = entries x @ new" by (simp add: serves(1) entries_def)
    have "backed h0 y" by (rule dur.good_step [OF b serves(2)])
    with good show ?thesis unfolding kept_good_def new
      by (auto simp: serves(1) dest: subsetD)
  next
    case (sends l)
    let ?e = "entries x ! p_sent x"
    have e: "entries x' = entries x" by (simp add: sends(1) entries_def)
    have "log_step (p_log x) ((p_log x)\<lparr>lg := l, hist := hist (p_log x) @ [?e]\<rparr>)"
      by (rule log_step.append [OF sends(3)])
    from aof.good_step [OF lg this] have "log_good (p_log x')" by (simp add: sends(1))
    moreover have "pending l = pending (lg (p_log x)) @ [?e]"
      using sends(3) by (auto simp: Log_Append_def split: if_splits)
    moreover have "drop (p_sent x) (entries x) = ?e # drop (Suc (p_sent x)) (entries x)"
      using sends(2) by (simp add: Cons_nth_drop_Suc)
    moreover have "take (Suc (p_sent x)) (entries x) = take (p_sent x) (entries x) @ [?e]"
      using sends(2) by (simp add: take_Suc_conv_app_nth)
    ultimately show ?thesis using good sends(2) suffix_append_same
      unfolding kept_good_def e by (auto simp: sends(1))
  next
    case (runs l)
    with good aof.good_step [OF lg runs(2)] log_step_suffix [OF runs(2,3)] show ?thesis
      by (simp add: kept_good_def entries_def)
  next
    case (snaps po now)
    have e: "entries x' = entries x" by (simp add: snaps(1) entries_def)
    have "pictures (replay_db (h0 @ entries x) Map.empty) (Store_SnapshotAll po (srv_store (y_srv (p_sys x))) now)"
      using good ent snaps(2) by (intro SnapshotAll_pictures) (auto simp: kept_good_def)
    with good show ?thesis unfolding kept_good_def e by (simp add: snaps(1))
  next
    case (swaps n ps po cmds ck l)
    have e: "entries x' = entries x" by (simp add: swaps(1) entries_def)
    have "log_step (p_log x) \<lparr>lg = l, base = enc_all cmds, hist = pending (lg (p_log x))\<rparr>"
      by (rule log_step.rewrite [OF swaps(5,6)])
    from aof.good_step [OF lg this] have "log_good (p_log x')" by (simp add: swaps(1))
    moreover have "pending l = pending (lg (p_log x))" using swaps(6) by (auto simp: Rewrite_def Let_def)
    moreover have "set (pending (lg (p_log x))) \<subseteq> set (take (p_sent x) (entries x))"
      using good set_mono_suffix by (fastforce simp: kept_good_def)
    moreover have pic: "replay_db cmds Map.empty = replay_db (h0 @ take n (entries x)) Map.empty" "\<forall>c\<in>set cmds. replayable c"
      using good swaps(2,3) unfolding swaps(4) by (auto simp: kept_good_def pictures_def)
    moreover have "replay_db (cmds @ drop n (entries x)) Map.empty = replay_db (h0 @ entries x) Map.empty"
      using pic(1) replay_db_simps(3) [of "take n (entries x)" "drop n (entries x)"] by simp
    ultimately show ?thesis using good unfolding kept_good_def e by (auto simp: swaps(1) queued_def)
  qed
qed

section \<open>Restarting\<close>

lemma restart_kept:
  assumes "kept_good h0 x" "\<forall>c\<in>set (p_base x @ hist (p_log x)). command_fits c"
    "Server_New cfg now = Some s" "AOFPath cfg \<noteq> []" "\<forall>n. env_ok (envs n)"
  shows "\<exists>y' k. Run_start envs (Content (wfile (l_w (lg (p_log x))))) True True s = Started y' \<and>
    (\<forall>T. view (srv_store (y_srv y')) T = replay_db (p_base x @ take k (hist (p_log x))) Map.empty) \<and>
    (queued x = [] \<longrightarrow> starts_from (p_base x @ hist (p_log x)) y' \<and>
      (\<forall>T. view (srv_store (y_srv y')) T = replay_db (p_base x @ hist (p_log x)) Map.empty) \<and>
      (p_exact x \<longrightarrow> (\<forall>T. view (srv_store (y_srv y')) T = view (srv_store (y_srv (p_sys x))) T)))"
proof -
  let ?l = "p_log x"
  have good: "log_good ?l" "base ?l = enc_all (p_base x)" and b: "backed h0 (p_sys x)" using assms(1) by (simp_all add: kept_good_def)
  note ent = backed_entries [OF b]
  have rep: "\<forall>c\<in>set (p_base x @ hist ?l). replayable c"
  proof -
    have "set (hist ?l) \<subseteq> set (entries x)" "\<forall>c\<in>set (p_base x). replayable c"
      using assms(1) set_take_subset [of "p_sent x" "entries x"] unfolding kept_good_def by (blast, blast)
    with ent show ?thesis by auto
  qed
  from log_good_crash [OF good assms(2)]
  obtain k e where k: "reads_all ReadCommand (wfile (l_w (lg ?l))) (p_base x @ take k (hist ?l)) e" "at_end e" by blast
  have "\<forall>c\<in>set (p_base x @ take k (hist ?l)). replayable c" using rep by (auto dest: in_set_takeD)
  from start_holds [OF assms(3-5) k this] obtain y' where
    y': "Run_start envs (Content (wfile (l_w (lg ?l)))) True True s = Started y'"
      "holds_db (replay_db (p_base x @ take k (hist ?l)) Map.empty) (srv_store (y_srv y'))" by blast
  have "starts_from (p_base x @ hist ?l) y' \<and> take k (hist ?l) = hist ?l" if "queued x = []"
  proof -
    from that have "wfile (l_w (lg ?l)) = enc_all (p_base x @ hist ?l)"
      using log_good_drained [OF good(1)] good(2) by (simp add: queued_def)
    moreover from this have "p_base x @ take k (hist ?l) = p_base x @ hist ?l"
      using reads_enc_all [OF assms(2)] reads_all_det k(1) by metis
    ultimately show ?thesis using assms rep y'(1) unfolding starts_from_def by auto
  qed
  note drained = this
  have exact: "replay_db (p_base x @ hist ?l) Map.empty = replay_db (h0 @ entries x) Map.empty" if "p_exact x" "queued x = []"
    using that assms(1) unfolding kept_good_def queued_def by simp
  have shown: "view (srv_store (y_srv y')) T = replay_db (p_base x @ take k (hist ?l)) Map.empty"
    "view (srv_store (y_srv (p_sys x))) T = replay_db (h0 @ entries x) Map.empty" for T
    using y'(2) ent by (blast intro: holds_db_view)+
  show ?thesis
  proof (intro exI conjI allI impI)
    show "Run_start envs (Content (wfile (l_w (lg ?l)))) True True s = Started y'" by (rule y'(1))
    show "view (srv_store (y_srv y')) T = replay_db (p_base x @ take k (hist ?l)) Map.empty" for T by (rule shown(1))
    assume q: "queued x = []"
    with drained show "starts_from (p_base x @ hist ?l) y'" by blast
    show "view (srv_store (y_srv y')) T = replay_db (p_base x @ hist ?l) Map.empty" for T
      using shown(1) drained [OF q] by simp
    show "view (srv_store (y_srv y')) T = view (srv_store (y_srv (p_sys x))) T" if "p_exact x" for T
      using shown drained [OF q] exact [OF that q] by simp
  qed
qed

section \<open>Some runs\<close>

lemma kept_serves: "calm_step\<^sup>*\<^sup>* (p_sys x) y \<Longrightarrow> kept_step\<^sup>*\<^sup>* x (x\<lparr>p_sys := y\<rparr>)"
proof (induction rule: rtranclp_induct)
  case (step y z)
  from kept_step.serves [of "x\<lparr>p_sys := y\<rparr>" z] step show ?case by (simp add: rtranclp.rtrancl_into_rtrancl)
qed simp

lemma kept_sends:
  assumes "p_sent x < length (entries x)" "lg (p_log x) = l" "\<not> l_closed l" "l_ch l = []" "entries x ! p_sent x = c"
  shows "kept_step x (x\<lparr>p_log := (p_log x)\<lparr>lg := l\<lparr>l_ch := [c]\<rparr>, hist := hist (p_log x) @ [c]\<rparr>, p_sent := Suc (p_sent x)\<rparr>)"
  using kept_step.sends [of x "l\<lparr>l_ch := [c]\<rparr>"] assms by (simp add: Log_Append_def ch_cap_def)

lemma kept_writes:
  assumes "lg (p_log x) = l" "l_ch l = [c]" "l_cur l = None" "\<not> l_done l"
  shows "kept_step\<^sup>*\<^sup>* x (x\<lparr>p_log := (p_log x)\<lparr>lg := l\<lparr>l_ch := [], l_w := Flush (writeCommand (l_w l) c)\<rparr>\<rparr>\<rparr>)"
proof -
  let ?x = "x\<lparr>p_log := (p_log x)\<lparr>lg := l\<lparr>l_ch := [], l_cur := Some c\<rparr>\<rparr>\<rparr>"
  have "log_step (p_log x) ((p_log x)\<lparr>lg := l\<lparr>l_ch := [], l_cur := Some c\<rparr>\<rparr>)"
    using assms by (intro log_step.receive) (simp add: writer_receive_def)
  then have "kept_step x ?x" by (intro kept_step.runs) simp_all
  moreover have "log_step (p_log ?x) ((p_log ?x)\<lparr>lg := l\<lparr>l_ch := [], l_cur := None, l_w := Flush (writeCommand (l_w l) c)\<rparr>\<rparr>)"
    by (intro log_step.body) (simp add: writer_body_def)
  then have "kept_step ?x (?x\<lparr>p_log := (p_log ?x)\<lparr>lg := l\<lparr>l_ch := [], l_cur := None, l_w := Flush (writeCommand (l_w l) c)\<rparr>\<rparr>\<rparr>)"
    by (intro kept_step.runs) simp_all
  moreover have "l\<lparr>l_ch := [], l_cur := None, l_w := w\<rparr> = l\<lparr>l_ch := [], l_w := w\<rparr>" for w
    using assms(3) by (cases l) simp
  ultimately show ?thesis by (simp add: converse_rtranclp_into_rtranclp)
qed

lemma kept_swaps:
  assumes "p_snap x = Some (n, ps)" "perm_order po" "lg (p_log x) = l" "wopen (l_w l)"
  shows "kept_step x (x\<lparr>p_log := \<lparr>lg = l\<lparr>l_w := NewFileWriter (enc_all (rewrite_commands po ck ps))\<rparr>,
      base = enc_all (rewrite_commands po ck ps), hist = pending l\<rparr>, p_snap := None,
      p_base := rewrite_commands po ck ps, p_exact := (queued x = drop n (entries x))\<rparr>)"
  using kept_step.swaps [OF assms(1,2) refl, of ck] assms(3,4) by (simp add: Rewrite_def tmp_file_content)

end
