(* ===== verification/Walks.thy ===== *)
theory Walks
  imports Command_Reads
begin

text \<open>
  The operations of \<^verbatim>\<open>internal/store/store.go\<close> that visit the shards one after the other, each under
  the lock of that shard alone (\<^verbatim>\<open>KEYS\<close>, \<^verbatim>\<open>DBSIZE\<close>, \<^verbatim>\<open>FLUSHDB\<close>, \<^verbatim>\<open>SnapshotAll\<close>): one visit, and the whole
  as its visits.
  Between two of them other goroutines may run.
\<close>

definition keys_at :: "(string list \<Rightarrow> string list) \<Rightarrow> time \<Rightarrow> string \<Rightarrow> nat \<Rightarrow> store \<Rightarrow> string list" where
  "keys_at po now pat i s =
     map fst (filter (\<lambda>(k, e). \<not> expired e now \<and> globMatch pat k) (gm_range po (shards s ! i)))"

definition size_at :: "time \<Rightarrow> nat \<Rightarrow> store \<Rightarrow> int" where
  "size_at now i s = int (length (filter (\<lambda>(k, e). \<not> expired e now) (shards s ! i)))"

definition snap_at :: "(string list \<Rightarrow> string list) \<Rightarrow> time \<Rightarrow> nat \<Rightarrow> store \<Rightarrow> Snapshot list" where
  "snap_at po now i s =
     map (\<lambda>(k, e). snapshot_entry po k e) (filter (\<lambda>(k, e). \<not> expired e now) (gm_range po (shards s ! i)))"

definition clear_at :: "nat \<Rightarrow> store \<Rightarrow> store" where
  "clear_at i s = s\<lparr>shards := (shards s)[i := []]\<rparr>"

lemma Keys_visits: "Store_Keys po s now pat = concat (map (\<lambda>i. keys_at po now pat i s) [0..<length (shards s)])"
proof -
  have "shards s = map ((!) (shards s)) [0..<length (shards s)]" by (simp add: map_nth)
  then have "Store_Keys po s now pat = concat (map (\<lambda>sh. map fst (filter (\<lambda>(k, e). \<not> expired e now \<and> globMatch pat k)
       (gm_range po sh))) (map ((!) (shards s)) [0..<length (shards s)]))" by (simp only: Store_Keys_def)
  then show ?thesis by (simp add: keys_at_def comp_def)
qed

lemma SnapshotAll_visits:
  "Store_SnapshotAll po s now = concat (map (\<lambda>i. snap_at po now i s) [0..<length (shards s)])"
proof -
  have "shards s = map ((!) (shards s)) [0..<length (shards s)]" by (simp add: map_nth)
  then have "Store_SnapshotAll po s now = concat (map (\<lambda>sh. map (\<lambda>(k, e). snapshot_entry po k e)
       (filter (\<lambda>(k, e). \<not> expired e now) (gm_range po sh))) (map ((!) (shards s)) [0..<length (shards s)]))"
    by (simp only: Store_SnapshotAll_def)
  then show ?thesis by (simp add: snap_at_def comp_def)
qed

lemma DBSize_visits: "Store_DBSize s now = sum_list (map (\<lambda>i. size_at now i s) [0..<length (shards s)])"
  by (simp add: Store_DBSize_def size_at_def sum_list_sum_nth atLeast0LessThan)

lemma FlushDB_visits: "Store_FlushDB s = fold clear_at [0..<length (shards s)] s"
proof -
  have "fold clear_at [0..<n] s = s\<lparr>shards := replicate n [] @ drop n (shards s)\<rparr>" if "n \<le> length (shards s)" for n
    using that
  proof (induction n)
    case (Suc n)
    then have "drop n (shards s) = shards s ! n # drop (Suc n) (shards s)" by (simp add: Cons_nth_drop_Suc)
    with Suc show ?case by (simp add: clear_at_def list_update_append replicate_append_same [symmetric])
  qed simp
  from this [of "length (shards s)"] show ?thesis by (simp add: Store_FlushDB_def map_replicate_const)
qed

section \<open>One visit\<close>

lemma frame_at [simp]:
  "mask (clear_at i s) = mask s" "length (shards (clear_at i s)) = length (shards s)" "shardFor (clear_at i s) = shardFor s"
  "mask (sweep_at po now i s) = mask s" "length (shards (sweep_at po now i s)) = length (shards s)"
  "shardFor (sweep_at po now i s) = shardFor s"
  by (simp_all add: clear_at_def sweep_at_def shardFor_def fun_eq_iff)

lemma clear_at_lookup:
  assumes "store_ok s" "i < length (shards s)"
  shows "store_ok (clear_at i s)" "sh_lookup (clear_at i s) k = (if shardFor s k = i then None else sh_lookup s k)"
proof -
  show "store_ok (clear_at i s)" unfolding clear_at_def by (rule store_ok_update [OF assms(1)]) simp_all
  show "sh_lookup (clear_at i s) k = (if shardFor s k = i then None else sh_lookup s k)"
    using shardFor_less [OF assms(1), of k] assms(2) by (simp add: sh_lookup_def) (simp add: clear_at_def)
qed

lemma view_clear_at:
  assumes "store_ok s" "i < length (shards s)"
  shows "view (clear_at i s) T = (\<lambda>k. if shardFor s k = i then None else view s T k)"
  by (auto simp: view_def getLive_def clear_at_lookup(2) [OF assms] fun_eq_iff)

lemma typed_clear_at [invs]: "typed s \<Longrightarrow> i < length (shards s) \<Longrightarrow> typed (clear_at i s)"
  by (auto simp: typed_def clear_at_lookup split: if_splits)

lemma in_shard:
  assumes "store_ok s" "i < length (shards s)"
  shows "(\<exists>e. (k, e) \<in> set (shards s ! i) \<and> \<not> expired e now) \<longleftrightarrow> shardFor s k = i \<and> view s now k \<noteq> None"
proof -
  have i: "gm_wf (shards s ! i)" "\<forall>k\<in>dom (map_of (shards s ! i)). shardFor s k = i"
    using assms by (auto simp: store_ok_def)
  have "(\<exists>e. (k, e) \<in> set (shards s ! i) \<and> \<not> expired e now) \<longleftrightarrow>
    shardFor s k = i \<and> (\<exists>e. map_of (shards s ! i) k = Some e \<and> \<not> expired e now)"
    using gm_in_set [OF i(1)] i(2) by blast
  then show ?thesis by (auto simp: view_def getLive_def sh_lookup_def split: option.splits)
qed

text \<open>A visit lists, or counts, the live keys of its shard.\<close>

definition live_in :: "store \<Rightarrow> time \<Rightarrow> nat \<Rightarrow> string set" where
  "live_in s now i = {k. shardFor s k = i \<and> view s now k \<noteq> None}"

lemma live_at:
  assumes "store_ok s" "i < length (shards s)" "perm_order po"
  shows "set (filter (\<lambda>(k, e). \<not> expired e now) (gm_range po (shards s ! i))) =
      {(k, e). shardFor s k = i \<and> getLive s k now = Some e}"
    "distinct (map fst (filter (\<lambda>(k, e). \<not> expired e now) (gm_range po (shards s ! i))))"
proof -
  have i: "gm_wf (shards s ! i)" "\<forall>k\<in>dom (map_of (shards s ! i)). shardFor s k = i"
    using assms by (auto simp: store_ok_def)
  have "(k, e) \<in> set (shards s ! i) \<longleftrightarrow> shardFor s k = i \<and> sh_lookup s k = Some e" for k e
    using gm_in_set [OF i(1), of k e] i(2) by (cases "shardFor s k = i") (auto simp: sh_lookup_def)
  with gm_range_set [OF assms(3) i(1)]
  show "set (filter (\<lambda>(k, e). \<not> expired e now) (gm_range po (shards s ! i))) =
      {(k, e). shardFor s k = i \<and> getLive s k now = Some e}"
    by (auto simp: getLive_Some)
  show "distinct (map fst (filter (\<lambda>(k, e). \<not> expired e now) (gm_range po (shards s ! i))))"
    using gm_range_wf [OF assms(3) i(1)] by (simp add: gm_wf_def distinct_map_filter)
qed

lemma keys_at_set:
  assumes "store_ok s" "perm_order po" "i < length (shards s)"
  shows "set (keys_at po now pat i s) = {k \<in> live_in s now i. denotes (parse_glob pat) k}"
    "distinct (keys_at po now pat i s)"
proof -
  have wf: "gm_wf (shards s ! i)" using assms by (auto simp: store_ok_def)
  have "k \<in> set (keys_at po now pat i s) \<longleftrightarrow>
      (\<exists>e. (k, e) \<in> set (shards s ! i) \<and> \<not> expired e now) \<and> globMatch pat k" for k
    using gm_range_set [OF assms(2) wf] by (auto simp: keys_at_def image_iff)
  then show "set (keys_at po now pat i s) = {k \<in> live_in s now i. denotes (parse_glob pat) k}"
    unfolding in_shard [OF assms(1,3)] globMatch_def matchHere_denotes live_in_def by blast
  show "distinct (keys_at po now pat i s)"
    using gm_range_wf [OF assms(2) wf] by (simp add: keys_at_def gm_wf_def distinct_map_filter)
qed

lemma size_at_card:
  assumes "store_ok s" "i < length (shards s)"
  shows "size_at now i s = int (card (live_in s now i))" "finite (live_in s now i)"
proof -
  have wf: "gm_wf (shards s ! i)" using assms by (auto simp: store_ok_def)
  have "{k. \<exists>e. map_of (shards s ! i) k = Some e \<and> \<not> expired e now} = live_in s now i"
    unfolding live_in_def in_shard [OF assms, symmetric] using gm_in_set [OF wf] by blast
  with length_filter_card [OF wf, of "\<lambda>(k, e). \<not> expired e now"] rev_finite_subset [OF finite_dom_map_of, of "live_in s now i" "shards s ! i"]
  show "size_at now i s = int (card (live_in s now i))" "finite (live_in s now i)"
    by (auto simp: size_at_def)
qed

section \<open>The frame of the operations\<close>

lemma run_op_frame [simp]:
  "mask (fst (run_op po now op s)) = mask s" "length (shards (fst (run_op po now op s))) = length (shards s)"
  "mask (lazyDelete s k now) = mask s" "length (shards (lazyDelete s k now)) = length (shards s)"
proof -
  show l: "mask (lazyDelete s k now) = mask s" "length (shards (lazyDelete s k now)) = length (shards s)" for k now s
    by (simp_all add: lazyDelete_def split: option.splits)
  have "mask (fst (run_op po now op s)) = mask s \<and> length (shards (fst (run_op po now op s))) = length (shards s)"
    by (cases op) (auto simp: l Store_Set_def Store_SetNX_def Store_SetXX_def Let_def
      Store_Get_def Store_Append_def Store_GetSet_def Store_StrLen_def Store_IncrBy_def
      Store_Del_def Store_Expire_def Store_Persist_def Store_HSet_def Store_HDel_def Store_LPush_def Store_RPush_def push_with_def
      Store_LPop_def Store_RPop_def Store_pop_def Store_FlushDB_def Store_SweepExpired_def case_prod_unfold
      split: option.splits sum.splits)
  then show "mask (fst (run_op po now op s)) = mask s" "length (shards (fst (run_op po now op s))) = length (shards s)"
    by simp_all
qed

lemma shardFor_frame: "mask s' = mask s \<Longrightarrow> shardFor s' = shardFor s"
  by (simp add: shardFor_def fun_eq_iff)

end
