(* ===== verification/Interleaving.thy ===== *)
theory Interleaving
  imports Server Walks
begin

text \<open>
  Commands of several connections at once (\<^verbatim>\<open>command.Execute\<close> called by the goroutines of
  \<^verbatim>\<open>internal/server/server.go\<close>). What another goroutine cannot divide is one lock region of
  \<^verbatim>\<open>internal/store/store.go\<close> or one append to the log; everything between them can be. Left
  alone, a command here does what \<open>Execute\<close> says; together, the lock regions of all commands behave as
  if they took effect one at a time.
\<close>

section \<open>The two halves of Get\<close>

text \<open>The region under the first lock, with whether the region under the second is to follow.\<close>

definition Get_read :: "store \<Rightarrow> time \<Rightarrow> string \<Rightarrow> (store_error + string option) \<times> bool" where
  "Get_read s now key =
     (case sh_lookup s key of
        None \<Rightarrow> (Inr None, False)
      | Some e \<Rightarrow>
          if expired e now then (Inr None, True)
          else if e_kind e \<noteq> KindString then (Inl ErrWrongType, False)
          else (Inr (Some (e_str e)), False))"

lemma Get_halves:
  "Store_Get s now key =
    (if snd (Get_read s now key) then lazyDelete s key now else s, fst (Get_read s now key))"
  by (simp add: Store_Get_def Get_read_def split: option.split)

text \<open>A late second half does not show, whatever has become of the store by then.\<close>

lemma late_lazyDelete:
  assumes "typed s" "now \<le> T"
  shows "typed (lazyDelete s key now)" "view (lazyDelete s key now) T = view s T"
proof -
  show "typed (lazyDelete s key now)" using typed_Get [OF assms(1), of now key] by (simp add: Store_Get_live)
  show "view (lazyDelete s key now) T = view s T"
    using view_age [OF assms(2)] view_lazyDelete [OF typed_ok [OF assms(1)], of key now] by metis
qed

section \<open>Lock regions\<close>

text \<open>
  What one goroutine does without letting go of a lock: an operation on one key, or the clearing of
  one shard by \<^verbatim>\<open>FLUSHDB\<close>. \<^verbatim>\<open>KEYS\<close>, \<^verbatim>\<open>DBSIZE\<close> and \<^verbatim>\<open>SnapshotAll\<close>, which visit every shard too, follow below.
\<close>

datatype region =
    Op store_op
  | Clear nat

text \<open>
  The regions of a command on \<open>n\<close> shards; \<open>delay\<close> is the time between the two clock readings of
  \<^verbatim>\<open>TTL\<close>. Empty, when the command does not touch the store or visits every shard to read it.
\<close>

definition regions :: "nat \<Rightarrow> duration \<Rightarrow> string list \<Rightarrow> region list" where
  "regions n delay args =
     (if cmd_ops args = [OpFlushDB] then map Clear [0..<n]
      else if cmd_ops args = [OpDBSize] then []
      else if cmd_ops args \<noteq> [] then map Op (cmd_ops args)
      else case read_at delay args of
          None \<Rightarrow> []
        | Some op \<Rightarrow> if op = OpKeys (args ! 1) then [] else [Op op])"

definition op_step ::
    "(string list \<Rightarrow> string list) \<Rightarrow> time \<Rightarrow> store_op \<Rightarrow> store \<Rightarrow> store \<times> result \<times> (string \<times> time) option" where
  "op_step po now op s =
     (case op of
        OpGet k \<Rightarrow>
          (s, result_of RStr (fst (Get_read s now k)), if snd (Get_read s now k) then Some (k, now) else None)
      | _ \<Rightarrow> (fst (run_op po now op s), snd (run_op po now op s), None))"

definition region_step ::
    "(string list \<Rightarrow> string list) \<Rightarrow> time \<Rightarrow> region \<Rightarrow> store \<Rightarrow> store \<times> result \<times> (string \<times> time) option" where
  "region_step po now rg s =
     (case rg of Op op \<Rightarrow> op_step po now op s | Clear i \<Rightarrow> (clear_at i s, RNone, None))"

section \<open>Threads\<close>

text \<open>
  A command on its way: its regions, those still to do, the results so far, the second half of a
  \<^verbatim>\<open>Get\<close> and the entries for the log that are due before the next region.
\<close>

record thread =
  th_args :: "string list"
  th_all :: "region list"
  th_ops :: "region list"
  th_res :: "result list"
  th_clean :: "(string \<times> time) option"
  th_log :: "string list list"

definition new_thread :: "nat \<Rightarrow> duration \<Rightarrow> string list \<Rightarrow> thread" where
  "new_thread n delay args =
     \<lparr>th_args = args, th_all = regions n delay args, th_ops = regions n delay args, th_res = [],
      th_clean = None, th_log = []\<rparr>"

definition finished :: "thread \<Rightarrow> bool" where
  "finished t \<longleftrightarrow> th_ops t = [] \<and> th_clean t = None \<and> th_log t = []"

text \<open>The replies the results stand for: one, or any order of what is listed.\<close>

definition th_reply :: "thread \<Rightarrow> string set" where
  "th_reply t =
     (if cmd_ops (th_args t) = [] then tells (ttl_unit (th_args t)) (hd (th_res t))
      else {reply_of (th_args t) (th_res t)})"

text \<open>\<^verbatim>\<open>MSET\<close> logs each pair after its operation, the others after their last one.\<close>

definition is_mset :: "string list \<Rightarrow> bool" where
  "is_mset args \<longleftrightarrow> ToUpper (args ! 0) = ''MSET''"

definition pair_entry :: "region \<Rightarrow> string list" where
  "pair_entry rg = (case rg of Op op \<Rightarrow> plain_set op | Clear i \<Rightarrow> [])"

definition entries_after :: "string list \<Rightarrow> region \<Rightarrow> region list \<Rightarrow> result list \<Rightarrow> string list list" where
  "entries_after args rg left res =
     (if is_mset args then [pair_entry rg] else if left = [] then logged args res else [])"

text \<open>
  \<^verbatim>\<open>KEYS\<close> with its pattern, \<^verbatim>\<open>DBSIZE\<close>, or \<^verbatim>\<open>SnapshotAll\<close>: the reading of the clock at its begin, what
  it has gathered, and as ghosts the number of regions done before it began, and the moments of its
  visits: the number of regions done by then, the time, and the store.
\<close>

datatype walk_kind = Lists string | Counts | Snapshots

record walk =
  w_kind :: walk_kind
  w_now :: time
  w_keys :: "string list"
  w_total :: int
  w_snaps :: "Snapshot list"
  w_from :: nat
  w_seen :: "(nat \<times> time \<times> store) list"

definition new_walk :: "walk_kind \<Rightarrow> time \<Rightarrow> nat \<Rightarrow> walk" where
  "new_walk kind now n =
     \<lparr>w_kind = kind, w_now = now, w_keys = [], w_total = 0, w_snaps = [], w_from = n, w_seen = []\<rparr>"

definition visit :: "(string list \<Rightarrow> string list) \<Rightarrow> store \<Rightarrow> walk \<Rightarrow> walk" where
  "visit po s w =
     (let i = length (w_seen w)
      in case w_kind w of
           Lists pat \<Rightarrow> w\<lparr>w_keys := w_keys w @ keys_at po (w_now w) pat i s\<rparr>
         | Counts \<Rightarrow> w\<lparr>w_total := w_total w + size_at (w_now w) i s\<rparr>
         | Snapshots \<Rightarrow> w\<lparr>w_snaps := w_snaps w @ snap_at po (w_now w) i s\<rparr>)"

section \<open>Steps\<close>

text \<open>
  The shared store and log, the time last read, the threads and the walks, and as a ghost the
  regions done so far, with their thread and reading of the clock.
\<close>

record conc =
  k_store :: store
  k_now :: time
  k_log :: "string list list"
  k_threads :: "thread list"
  k_walks :: "walk list"
  k_hist :: "(nat \<times> time \<times> region) list"

definition conc_start :: "store \<Rightarrow> time \<Rightarrow> string list list \<Rightarrow> conc" where
  "conc_start s now h =
     \<lparr>k_store = s, k_now = now, k_log = h, k_threads = [], k_walks = [], k_hist = []\<rparr>"

abbreviation begun :: "conc \<Rightarrow> duration \<Rightarrow> string list \<Rightarrow> thread" where
  "begun y delay args \<equiv> new_thread (length (shards (k_store y))) delay args"

inductive conc_step :: "conc \<Rightarrow> conc \<Rightarrow> bool" where
  begins: "th_all (begun y delay args) \<noteq> [] \<Longrightarrow>
    conc_step y (y\<lparr>k_threads := k_threads y @ [begun y delay args]\<rparr>)"
| does: "i < length (k_threads y) \<Longrightarrow> k_threads y ! i = t \<Longrightarrow> th_ops t = rg # rgs \<Longrightarrow>
    th_clean t = None \<Longrightarrow> th_log t = [] \<Longrightarrow> k_now y \<le> now \<Longrightarrow> clock_ok now \<Longrightarrow> perm_order po \<Longrightarrow>
    region_step po now rg (k_store y) = (s, r, clean) \<Longrightarrow>
    conc_step y (y\<lparr>k_store := s, k_now := now, k_hist := k_hist y @ [(i, now, rg)],
      k_threads := (k_threads y)[i := t\<lparr>th_ops := rgs, th_res := th_res t @ [r], th_clean := clean,
        th_log := entries_after (th_args t) rg rgs (th_res t @ [r])\<rparr>]\<rparr>)"
| cleans: "i < length (k_threads y) \<Longrightarrow> k_threads y ! i = t \<Longrightarrow> th_clean t = Some (key, now) \<Longrightarrow>
    conc_step y (y\<lparr>k_store := lazyDelete (k_store y) key now, k_threads := (k_threads y)[i := t\<lparr>th_clean := None\<rparr>]\<rparr>)"
| appends: "i < length (k_threads y) \<Longrightarrow> k_threads y ! i = t \<Longrightarrow> th_log t = c # cs \<Longrightarrow> th_clean t = None \<Longrightarrow>
    conc_step y (y\<lparr>k_log := k_log y @ [c], k_threads := (k_threads y)[i := t\<lparr>th_log := cs\<rparr>]\<rparr>)"
| ticks: "k_now y \<le> now \<Longrightarrow> clock_ok now \<Longrightarrow> conc_step y (y\<lparr>k_now := now\<rparr>)"
| sweeps: "now \<le> k_now y \<Longrightarrow> perm_order po \<Longrightarrow> j < length (shards (k_store y)) \<Longrightarrow>
    conc_step y (y\<lparr>k_store := sweep_at po now j (k_store y)\<rparr>)"
| walk_begins: "k_now y \<le> now \<Longrightarrow> clock_ok now \<Longrightarrow>
    conc_step y (y\<lparr>k_now := now, k_walks := k_walks y @ [new_walk kind now (length (k_hist y))]\<rparr>)"
| walk_visits: "i < length (k_walks y) \<Longrightarrow> k_walks y ! i = w \<Longrightarrow> length (w_seen w) < length (shards (k_store y)) \<Longrightarrow>
    perm_order po \<Longrightarrow>
    conc_step y (y\<lparr>k_walks := (k_walks y)[i := (visit po (k_store y) w)
      \<lparr>w_seen := w_seen w @ [(length (k_hist y), k_now y, k_store y)]\<rparr>]\<rparr>)"

inductive_cases conc_stepE: "conc_step y y'"

section \<open>One command alone\<close>

lemma op_step_other:
  "\<forall>k. op \<noteq> OpGet k \<Longrightarrow> op_step po now op s = (fst (run_op po now op s), snd (run_op po now op s), None)"
  by (cases op) (simp_all add: op_step_def)

lemma op_step_run:
  "op_step po now op s = (s', r, clean) \<Longrightarrow>
    run_op po now op s = ((case clean of None \<Rightarrow> s' | Some (k, t) \<Rightarrow> lazyDelete s' k t), r)"
proof (cases "\<exists>k. op = OpGet k")
  case True
  then show "op_step po now op s = (s', r, clean) \<Longrightarrow> ?thesis"
    by (auto simp: op_step_def Get_halves split: if_splits)
next
  case False
  then show "op_step po now op s = (s', r, clean) \<Longrightarrow> ?thesis"
    using op_step_other [of op po now s] by (auto simp: prod_eq_iff)
qed

text \<open>A whole region, and the regions of a command one after the other.\<close>

definition run_region :: "(string list \<Rightarrow> string list) \<Rightarrow> time \<Rightarrow> region \<Rightarrow> store \<Rightarrow> store \<times> result" where
  "run_region po now rg s = (case rg of Op op \<Rightarrow> run_op po now op s | Clear i \<Rightarrow> (clear_at i s, RNone))"

lemma region_step_run:
  "region_step po now rg s = (s', r, clean) \<Longrightarrow>
    run_region po now rg s = ((case clean of None \<Rightarrow> s' | Some (k, t) \<Rightarrow> lazyDelete s' k t), r)"
  using op_step_run by (auto simp: region_step_def run_region_def split: region.splits)

fun run_regions :: "env \<Rightarrow> nat \<Rightarrow> region list \<Rightarrow> store \<Rightarrow> store \<times> result list" where
  "run_regions e i [] s = (s, [])"
| "run_regions e i (rg # rgs) s =
     (let (s', r) = run_region (ord e) (clk e i) rg s; (s'', rs) = run_regions e (Suc i) rgs s'
      in (s'', r # rs))"

lemma run_regions_ops: "run_regions e i (map Op ops) s = run_list e i ops s"
  by (induction ops arbitrary: i s) (simp_all add: run_region_def Let_def case_prod_unfold)

lemma run_regions_clear:
  "run_regions e i (map Clear js) s = (fold clear_at js s, replicate (length js) RNone)"
  by (induction js arbitrary: i s) (simp_all add: run_region_def)

text \<open>The entries that running the rest of a command adds to the log.\<close>

definition rest_log :: "string list \<Rightarrow> region list \<Rightarrow> result list \<Rightarrow> string list list" where
  "rest_log args rgs res =
     (if is_mset args then map pair_entry rgs else if rgs = [] then [] else logged args res)"

lemma appends_all:
  "i < length (k_threads y) \<Longrightarrow> k_threads y ! i = t \<Longrightarrow> th_clean t = None \<Longrightarrow>
    conc_step\<^sup>*\<^sup>* y (y\<lparr>k_log := k_log y @ th_log t, k_threads := (k_threads y)[i := t\<lparr>th_log := []\<rparr>]\<rparr>)"
proof (induction "th_log t" arbitrary: y t)
  case Nil
  have same: "t\<lparr>th_log := []\<rparr> = t" using Nil.hyps by (cases t) simp
  have "(k_threads y)[i := t\<lparr>th_log := []\<rparr>] = k_threads y" unfolding same using Nil.prems by auto
  then show ?case by (simp add: Nil.hyps [symmetric])
next
  case (Cons c cs)
  let ?y = "y\<lparr>k_log := k_log y @ [c], k_threads := (k_threads y)[i := t\<lparr>th_log := cs\<rparr>]\<rparr>"
  have step: "conc_step y ?y" using Cons.hyps(2) Cons.prems by (intro conc_step.appends) simp_all
  have "conc_step\<^sup>*\<^sup>* ?y (?y\<lparr>k_log := k_log ?y @ cs, k_threads := (k_threads ?y)[i := t\<lparr>th_log := []\<rparr>]\<rparr>)"
    using Cons.hyps(1) [of "t\<lparr>th_log := cs\<rparr>" ?y] Cons.prems by simp
  with step show ?case using Cons.hyps(2) [symmetric]
    by (simp add: converse_rtranclp_into_rtranclp)
qed

lemma one_op:
  assumes "i < length (k_threads y)" "k_threads y ! i = t" "th_ops t = rg # rgs" "th_clean t = None"
    "th_log t = []" "k_now y \<le> now" "clock_ok now" "perm_order po" "run_region po now rg (k_store y) = (s, r)"
  shows "\<exists>y'. conc_step\<^sup>*\<^sup>* y y' \<and> k_store y' = s \<and> k_now y' = now \<and>
    k_log y' = k_log y @ entries_after (th_args t) rg rgs (th_res t @ [r]) \<and>
    k_threads y' = (k_threads y)[i := t\<lparr>th_ops := rgs, th_res := th_res t @ [r]\<rparr>]"
proof -
  obtain s1 r1 clean where st: "region_step po now rg (k_store y) = (s1, r1, clean)" by (metis prod_cases3)
  from region_step_run [OF st] assms(9) have r: "r1 = r" "s = (case clean of None \<Rightarrow> s1 | Some (k, t) \<Rightarrow> lazyDelete s1 k t)"
    by auto
  let ?e = "entries_after (th_args t) rg rgs (th_res t @ [r])"
  let ?t = "t\<lparr>th_ops := rgs, th_res := th_res t @ [r], th_clean := clean, th_log := ?e\<rparr>"
  let ?y1 = "y\<lparr>k_store := s1, k_now := now, k_hist := k_hist y @ [(i, now, rg)], k_threads := (k_threads y)[i := ?t]\<rparr>"
  have 1: "conc_step y ?y1" using conc_step.does [OF assms(1-8) st] by (simp add: r(1))
  let ?y2 = "?y1\<lparr>k_store := s, k_threads := (k_threads y)[i := ?t\<lparr>th_clean := None\<rparr>]\<rparr>"
  have 2: "conc_step\<^sup>*\<^sup>* ?y1 ?y2"
  proof (cases clean)
    case None
    then have "?y2 = ?y1" using r(2) by (cases y; cases t) simp
    then show ?thesis by simp
  next
    case (Some kt)
    then obtain k t0 where kt: "clean = Some (k, t0)" by (cases kt) auto
    have "conc_step ?y1 ?y2"
      using conc_step.cleans [of i ?y1 ?t k t0] assms(1) kt r(2) by simp
    then show ?thesis by blast
  qed
  from appends_all [of i ?y2 "?t\<lparr>th_clean := None\<rparr>"] assms(1)
  have 3: "conc_step\<^sup>*\<^sup>* ?y2 (?y2\<lparr>k_log := k_log y @ ?e, k_threads := (k_threads y)[i := ?t\<lparr>th_clean := None, th_log := []\<rparr>]\<rparr>)"
    by simp
  have "?t\<lparr>th_clean := None, th_log := []\<rparr> = t\<lparr>th_ops := rgs, th_res := th_res t @ [r]\<rparr>"
    using assms(4,5) by (cases t) simp
  with 1 2 3 show ?thesis
    by (intro exI [of _ "?y2\<lparr>k_log := k_log y @ ?e, k_threads := (k_threads y)[i := ?t\<lparr>th_clean := None, th_log := []\<rparr>]\<rparr>"])
      (auto intro: converse_rtranclp_into_rtranclp rtranclp_trans)
qed

lemma runs_alone:
  assumes "i < length (k_threads y)" "k_threads y ! i = t" "th_clean t = None" "th_log t = []"
    "k_now y \<le> clk e n" "env_ok e"
  shows "\<exists>y'. conc_step\<^sup>*\<^sup>* y y' \<and> k_store y' = fst (run_regions e n (th_ops t) (k_store y)) \<and>
    k_log y' = k_log y @ rest_log (th_args t) (th_ops t) (th_res t @ snd (run_regions e n (th_ops t) (k_store y))) \<and>
    k_threads y' = (k_threads y)[i :=
      t\<lparr>th_ops := [], th_res := th_res t @ snd (run_regions e n (th_ops t) (k_store y))\<rparr>]"
  using assms
proof (induction "th_ops t" arbitrary: y t n)
  case Nil
  have same: "t\<lparr>th_ops := [], th_res := th_res t\<rparr> = t" using Nil.hyps by (cases t) simp
  have "(k_threads y)[i := t\<lparr>th_ops := [], th_res := th_res t\<rparr>] = k_threads y"
    unfolding same using Nil.prems by auto
  then show ?case by (intro exI [of _ y]) (simp add: rest_log_def Nil.hyps [symmetric])
next
  case (Cons rg rgs)
  obtain s r where sr: "run_region (ord e) (clk e n) rg (k_store y) = (s, r)" by fastforce
  note rgs = Cons.hyps(2) [symmetric]
  obtain y1 where y1: "conc_step\<^sup>*\<^sup>* y y1" "k_store y1 = s" "k_now y1 = clk e n"
    "k_log y1 = k_log y @ entries_after (th_args t) rg rgs (th_res t @ [r])"
    "k_threads y1 = (k_threads y)[i := t\<lparr>th_ops := rgs, th_res := th_res t @ [r]\<rparr>]"
    using one_op [OF Cons.prems(1,2) rgs Cons.prems(3,4,5) env_ok_clock [OF Cons.prems(6)] _ sr] Cons.prems(6)
    by (auto simp: env_ok_def)
  let ?t = "t\<lparr>th_ops := rgs, th_res := th_res t @ [r]\<rparr>"
  have "k_now y1 \<le> clk e (Suc n)" using Cons.prems(6) y1(3) by (simp add: env_ok_def monoD)
  from Cons.hyps(1) [of ?t y1 "Suc n"] this Cons.prems y1(5)
  obtain y2 where y2: "conc_step\<^sup>*\<^sup>* y1 y2" "k_store y2 = fst (run_regions e (Suc n) rgs s)"
    "k_log y2 = k_log y1 @ rest_log (th_args t) rgs (th_res t @ r # snd (run_regions e (Suc n) rgs s))"
    "k_threads y2 = (k_threads y)[i := t\<lparr>th_ops := [], th_res := th_res t @ r # snd (run_regions e (Suc n) rgs s)\<rparr>]"
    by (auto simp: y1(2))
  have "rest_log (th_args t) (rg # rgs) (th_res t @ r # snd (run_regions e (Suc n) rgs s)) =
    entries_after (th_args t) rg rgs (th_res t @ [r]) @ rest_log (th_args t) rgs (th_res t @ r # snd (run_regions e (Suc n) rgs s))"
    by (simp add: rest_log_def entries_after_def)
  with y2 y1(1,4) rgs sr show ?case
    by (intro exI [of _ y2]) (auto intro: rtranclp_trans simp: Let_def case_prod_unfold)
qed

lemma logged_mset: "is_mset args \<Longrightarrow> logged args rs = map plain_set (cmd_ops args)"
  by (simp add: logged_def logged_for_def is_mset_def)

lemma pair_entry_ops [simp]: "pair_entry (Op op) = plain_set op" "pair_entry \<circ> Op = plain_set"
  by (simp_all add: pair_entry_def fun_eq_iff)

lemma log_all_AOF: "d_AOF d = Some h \<Longrightarrow> d_AOF (log_all cmds d) = Some (h @ cmds)"
  by (induction cmds arbitrary: d h) auto

text \<open>The regions of a command in a row do what the command does.\<close>

lemma MSET_regions: "is_mset args \<Longrightarrow> regions n delay args = map Op (cmd_ops args)"
proof -
  assume mset: "is_mset args"
  then obtain kvs where "cmd_ops args = map (\<lambda>(k, v). OpSet k v 0) kvs"
    using MSET_cmd_ops by (auto simp: is_mset_def)
  with mset show ?thesis by (cases kvs) (auto simp: regions_def read_at_def is_mset_def Let_def)
qed

lemma FLUSHDB_name: "cmd_ops args = [OpFlushDB] \<Longrightarrow> ToUpper (args ! 0) = ''FLUSHDB''"
proof -
  assume "cmd_ops args = [OpFlushDB]"
  then have ops: "ops_of (ToUpper (args ! 0)) args = [OpFlushDB]" by (simp add: cmd_ops_def split: if_splits)
  then have "ToUpper (args ! 0) \<in> set op_commands" using ops_of_other by fastforce
  with ops show ?thesis unfolding op_commands_def list.set insert_iff empty_iff
    by (elim disjE FalseE)
      (auto simp: ops_of_def Let_def guarded_def with_int_def set_op_def map_eq_Cons_conv
        split: if_splits option.splits prod.splits)
qed

lemma regions_cases:
  assumes "regions n delay args \<noteq> []"
  obtains (flush) "cmd_ops args = [OpFlushDB]" "regions n delay args = map Clear [0..<n]" "0 < n" "\<not> is_mset args"
  | (ops) "cmd_ops args \<noteq> []" "regions n delay args = map Op (cmd_ops args)"
  | (read) op where "cmd_ops args = []" "read_at delay args = Some op" "regions n delay args = [Op op]" "\<not> is_mset args"
proof (cases "cmd_ops args = [OpFlushDB]")
  case True
  with assms FLUSHDB_name [OF True] show ?thesis by (intro flush) (auto simp: regions_def is_mset_def)
next
  case False
  show ?thesis
  proof (cases "cmd_ops args = []")
    case True
    with assms obtain op where op: "read_at delay args = Some op" "regions n delay args = [Op op]"
      by (auto simp: regions_def split: option.splits if_splits)
    then have "\<not> is_mset args" by (auto simp: read_at_def is_mset_def Let_def split: if_splits)
    with True op show ?thesis by (intro read)
  next
    case ne: False
    with False assms show ?thesis by (intro ops) (auto simp: regions_def split: if_splits)
  qed
qed

lemma Execute_regions:
  assumes "Execute e d cs args = Some (d', cs', w, err)" "regions n delay args \<noteq> []"
    "\<not> InSubscribeMode cs" "env_ok e" "typed (d_Store d)" "d_AOF d = Some h" "n = length (shards (d_Store d))" "delay = clk e 1 - clk e 0"
    "run_regions e 0 (regions n delay args) (d_Store d) = (s, rs)"
  shows "d_Store d' = s \<and> d_AOF d' = Some (h @ rest_log args (regions n delay args) rs) \<and>
    w \<in> (if cmd_ops args = [] then tells (ttl_unit args) (hd rs) else {reply_of args rs})"
  using assms(2)
proof (cases rule: regions_cases)
  case flush
  have "cmd_ops args \<noteq> []" using flush(1) by simp
  from Execute_ops [OF assms(3) this, of e d] assms(1) flush(1)
  have ex: "d' = log_all (logged args [RNone]) (d\<lparr>d_Store := Store_FlushDB (d_Store d)\<rparr>)" "w = reply_of args [RNone]"
    by (auto simp: case_prod_unfold Let_def)
  from assms(9) have run: "s = Store_FlushDB (d_Store d)" "rs = replicate n RNone"
    unfolding flush(2) run_regions_clear FlushDB_visits by (simp_all add: assms(7))
  obtain k where "n = Suc k" using flush(3) by (cases n) auto
  then have "logged args rs = logged args [RNone]" "reply_of args rs = reply_of args [RNone]"
    using FLUSHDB_name [OF flush(1)]
    by (simp_all add: logged_def logged_for_def run(2) flush(1) reply_of_def reply_for_def log_entry_def)
  with ex run(1) flush assms(6) show ?thesis by (simp add: log_all_AOF rest_log_def log_all_frame)
next
  case ops
  have "run_list e 0 (cmd_ops args) (d_Store d) = (s, rs)" using assms(9) by (simp add: ops(2) run_regions_ops)
  with Execute_ops [OF assms(3) ops(1), of e d] assms(1)
  have ex: "d' = log_all (logged args rs) (d\<lparr>d_Store := s\<rparr>)" "w = reply_of args rs"
    by (auto simp: case_prod_unfold Let_def)
  moreover have "rest_log args (map Op (cmd_ops args)) rs = logged args rs"
    using ops(1) by (simp add: rest_log_def logged_mset)
  ultimately show ?thesis using ops assms(6) by (simp add: log_all_AOF log_all_frame)
next
  case (read op)
  then have op: "read_op e args = Some op" by (simp only: read_op_def assms(8))
  from reads_answered [OF assms(5,4,3) op] assms(1)
  have ex: "d' = d" "w \<in> tells (ttl_unit args) (snd (spec_op (clk e 0) op (view (d_Store d) (clk e 0))))" by auto
  have "op_ok op" using op by (auto simp: read_op_def read_at_def Let_def split: if_splits)
  with spec_run_op [OF assms(5), of "clk e 0" "ord e" op] assms(4)
  have "snd (spec_op (clk e 0) op (view (d_Store d) (clk e 0))) = snd (run_op (ord e) (clk e 0) op (d_Store d))"
    by (simp add: env_ok_def)
  moreover have "run_op (ord e) (clk e 0) op (d_Store d) = (s, hd rs) \<and> rs = [hd rs]"
    using assms(9) by (auto simp: read(3) run_region_def case_prod_unfold Let_def)
  moreover have "fst (run_op (ord e) (clk e 0) op (d_Store d)) = d_Store d"
    using op by (auto simp: read_op_def read_at_def Let_def split: if_splits)
  moreover have "rest_log args [Op op] rs = []"
    using read(1,4) by (simp add: rest_log_def logged_def logged_for_def is_mset_def)
  ultimately show ?thesis using ex read(1,3) assms(6) by simp
qed

lemma alone_is_Execute:
  assumes "Execute e d cs args = Some (d', cs', w, err)" "regions (length (shards (d_Store d))) (clk e 1 - clk e 0) args \<noteq> []"
    "\<not> InSubscribeMode cs" "env_ok e" "typed (d_Store d)" "d_AOF d = Some (k_log y)" "k_store y = d_Store d"
    "k_now y \<le> clk e 0"
  shows "\<exists>y' t. conc_step\<^sup>*\<^sup>* y y' \<and> k_store y' = d_Store d' \<and> d_AOF d' = Some (k_log y') \<and>
    k_threads y' = k_threads y @ [t] \<and> finished t \<and> th_args t = args \<and> w \<in> th_reply t"
proof -
  let ?t = "begun y (clk e 1 - clk e 0) args" and ?i = "length (k_threads y)"
  let ?y = "y\<lparr>k_threads := k_threads y @ [?t]\<rparr>" and ?rgs = "th_all ?t"
  obtain s rs where run: "run_regions e 0 ?rgs (d_Store d) = (s, rs)" by fastforce
  have rgs: "?rgs = regions (length (shards (d_Store d))) (clk e 1 - clk e 0) args"
    by (simp add: new_thread_def assms(7))
  note ex = Execute_regions [OF assms(1-6) refl refl run [unfolded rgs]]
  have "conc_step y ?y" by (rule conc_step.begins) (use assms(2) in \<open>simp only: rgs not_False_eq_True\<close>)
  moreover obtain y' where y': "conc_step\<^sup>*\<^sup>* ?y y'" "k_store y' = s" "k_log y' = k_log y @ rest_log args ?rgs rs"
    "k_threads y' = k_threads y @ [?t\<lparr>th_ops := [], th_res := rs\<rparr>]"
    using runs_alone [of ?i ?y ?t e 0] assms(4,7,8) run by (auto simp: new_thread_def)
  ultimately show ?thesis using ex
    by (intro exI [of _ y'] exI [of _ "?t\<lparr>th_ops := [], th_res := rs\<rparr>"])
      (auto simp: rgs assms(7) finished_def th_reply_def new_thread_def intro: converse_rtranclp_into_rtranclp)
qed

section \<open>All commands together\<close>

text \<open>
  The regions done so far, one at a time, on the flat data set; \<open>sel\<close> tells the shard of a key.
\<close>

definition spec_region :: "(string \<Rightarrow> nat) \<Rightarrow> time \<Rightarrow> region \<Rightarrow> db \<Rightarrow> db \<times> result" where
  "spec_region sel now rg db =
     (case rg of
        Op op \<Rightarrow> spec_op now op db
      | Clear i \<Rightarrow> (\<lambda>k. if sel k = i then None else db k, RNone))"

definition lin_op :: "(string \<Rightarrow> nat) \<Rightarrow> nat \<times> time \<times> region \<Rightarrow> db \<Rightarrow> db \<times> nat \<times> result" where
  "lin_op sel x db =
     (let (i, now, rg) = x; (db', r) = spec_region sel now rg (age now db) in (db', (i, r)))"

definition lin_run :: "(string \<Rightarrow> nat) \<Rightarrow> (nat \<times> time \<times> region) list \<Rightarrow> db \<Rightarrow> db \<times> (nat \<times> result) list" where
  "lin_run sel h db = run_ops (lin_op sel) h db"

definition of_thread :: "nat \<Rightarrow> (nat \<times> 'a) list \<Rightarrow> 'a list" where
  "of_thread i xs = map snd (filter (\<lambda>x. fst x = i) xs)"

lemma of_thread_simps [simp]:
  "of_thread i [] = []" "of_thread i (xs @ ys) = of_thread i xs @ of_thread i ys"
  "of_thread i (x # xs) = (if fst x = i then [snd x] else []) @ of_thread i xs"
  by (simp_all add: of_thread_def)

lemma of_thread_none: "\<forall>x\<in>set xs. fst x \<noteq> i \<Longrightarrow> of_thread i xs = []"
  by (simp add: of_thread_def filter_empty_conv)

lemma run_ops_snoc:
  "run_ops f (xs @ [x]) s = (let (s', rs) = run_ops f xs s; (s'', r) = f x s' in (s'', rs @ [r]))"
  by (induction xs arbitrary: s) (simp_all add: Let_def case_prod_unfold)

lemma lin_run_snoc:
  "lin_run sel (h @ [(i, now, rg)]) db =
    (let (db', rs) = lin_run sel h db; (db'', r) = spec_region sel now rg (age now db') in (db'', rs @ [(i, r)]))"
  by (simp add: lin_run_def run_ops_snoc lin_op_def Let_def case_prod_unfold)

lemma lin_run_threads: "map fst (snd (lin_run sel h db)) = map fst h"
  unfolding lin_run_def by (induction h arbitrary: db) (simp_all add: Let_def case_prod_unfold lin_op_def)

text \<open>The number of shards and the mask never change.\<close>

definition same_shards :: "store \<Rightarrow> store \<Rightarrow> bool" where
  "same_shards s0 s \<longleftrightarrow> mask s = mask s0 \<and> length (shards s) = length (shards s0)"

lemma same_shards_select: "same_shards s0 s \<Longrightarrow> shardFor s = shardFor s0"
  unfolding same_shards_def by (rule shardFor_frame) (rule conjunct1)

definition thread_good :: "store \<Rightarrow> conc \<Rightarrow> db \<Rightarrow> nat \<Rightarrow> bool" where
  "thread_good s0 y db i \<longleftrightarrow>
     (let t = k_threads y ! i in
      th_res t = of_thread i (snd (lin_run (shardFor s0) (k_hist y) db)) \<and>
      map snd (of_thread i (k_hist y)) @ th_ops t = th_all t \<and>
      (\<exists>delay. th_all t = regions (length (shards s0)) delay (th_args t)) \<and>
      (\<forall>k now. th_clean t = Some (k, now) \<longrightarrow> now \<le> k_now y))"

definition conc_good :: "store \<Rightarrow> db \<Rightarrow> conc \<Rightarrow> bool" where
  "conc_good s0 db y \<longleftrightarrow>
     typed (k_store y) \<and> same_shards s0 (k_store y) \<and> clock_ok (k_now y) \<and>
     view (k_store y) (k_now y) = age (k_now y) (fst (lin_run (shardFor s0) (k_hist y) db)) \<and>
     (\<forall>x\<in>set (k_hist y). fst x < length (k_threads y)) \<and>
     (\<forall>i<length (k_threads y). thread_good s0 y db i)"

definition conc_init :: "store \<Rightarrow> db \<Rightarrow> conc \<Rightarrow> bool" where
  "conc_init s0 db y \<longleftrightarrow> (\<exists>now. y = conc_start s0 now [] \<and> typed s0 \<and> clock_ok now \<and> db = view s0 now)"

definition region_ok :: "nat \<Rightarrow> region \<Rightarrow> bool" where
  "region_ok n rg = (case rg of Op op \<Rightarrow> op_ok op | Clear i \<Rightarrow> i < n)"

lemma regions_ok: "rg \<in> set (regions n delay args) \<Longrightarrow> region_ok n rg"
proof -
  assume rg: "rg \<in> set (regions n delay args)"
  then have "regions n delay args \<noteq> []" by auto
  then show "region_ok n rg"
  proof (cases rule: regions_cases)
    case (read op)
    then have "op_ok op" by (auto simp: read_at_def Let_def split: if_splits)
    with rg read show ?thesis by (simp add: region_ok_def)
  qed (use rg cmd_ops_ok in \<open>auto simp: region_ok_def\<close>)
qed

lemma op_step_result:
  assumes "typed s" "clock_ok now" "perm_order po" "op_ok op" "op_step po now op s = (s', r, clean)"
  shows "typed s' \<and> spec_op now op (view s now) = (view s' now, r) \<and> (\<forall>k t. clean = Some (k, t) \<longrightarrow> t = now)"
proof -
  from spec_run_op [OF assms(1-4)] op_step_run [OF assms(5)]
  have spec: "spec_op now op (view s now) = (view (case clean of None \<Rightarrow> s' | Some (k, t) \<Rightarrow> lazyDelete s' k t) now, r)"
    by simp
  have "typed s' \<and> (clean \<noteq> None \<longrightarrow> s' = s \<and> (\<exists>k. clean = Some (k, now)))"
  proof (cases "\<exists>k. op = OpGet k")
    case True
    with assms(1,5) show ?thesis by (auto simp: op_step_def split: if_splits)
  next
    case False
    then show ?thesis using op_step_other [of op po now s] assms(5) typed_run_op [OF assms(1,3,4), of now] by auto
  qed
  then show ?thesis using spec late_lazyDelete(2) [OF assms(1) order_refl] by (auto split: option.splits)
qed

lemma op_step_frame: "op_step po now op s = (s', r, clean) \<Longrightarrow> same_shards s0 s \<Longrightarrow> same_shards s0 s'"
  using op_step_other [of op po now s] by (cases "\<exists>k. op = OpGet k") (auto simp: op_step_def same_shards_def)

lemma region_step_result:
  assumes "typed s" "same_shards s0 s" "clock_ok now" "perm_order po" "region_ok (length (shards s0)) rg"
    "region_step po now rg s = (s', r, clean)"
  shows "typed s'" "same_shards s0 s'" "spec_region (shardFor s0) now rg (view s now) = (view s' now, r)"
    "\<forall>k t. clean = Some (k, t) \<longrightarrow> t = now"
proof -
  have "typed s' \<and> same_shards s0 s' \<and> spec_region (shardFor s0) now rg (view s now) = (view s' now, r) \<and>
    (\<forall>k t. clean = Some (k, t) \<longrightarrow> t = now)"
  proof (cases rg)
    case (Op op)
    with assms(5,6) op_step_result [OF assms(1,3,4), of op] op_step_frame [OF _ assms(2)] show ?thesis
      by (simp add: region_step_def spec_region_def region_ok_def)
  next
    case (Clear i)
    with assms(2,5) have i: "i < length (shards s)" by (simp add: region_ok_def same_shards_def)
    have "s' = clear_at i s" "r = RNone" "clean = None" using assms(6) Clear by (simp_all add: region_step_def)
    with Clear view_clear_at [OF typed_ok [OF assms(1)] i] typed_clear_at [OF assms(1) i] assms(2)
      same_shards_select [OF assms(2)]
    show ?thesis by (simp add: spec_region_def same_shards_def)
  qed
  then show "typed s'" "same_shards s0 s'" "spec_region (shardFor s0) now rg (view s now) = (view s' now, r)"
    "\<forall>k t. clean = Some (k, t) \<longrightarrow> t = now" by simp_all
qed

lemma thread_good_other:
  assumes "thread_good s0 y db j" "j \<noteq> i" "k_hist y' = k_hist y @ h" "\<forall>x\<in>set h. fst x = i"
    "k_threads y' ! j = k_threads y ! j" "k_now y \<le> k_now y'"
    "snd (lin_run (shardFor s0) (k_hist y') db) = snd (lin_run (shardFor s0) (k_hist y) db) @ rs" "map fst rs = map fst h"
  shows "thread_good s0 y' db j"
proof -
  have h: "of_thread j h = []" using assms(2,4) by (intro of_thread_none) auto
  have "fst ` set rs = fst ` set h" using assms(8) by (metis set_map)
  then have "of_thread j rs = []" using assms(2,4) by (intro of_thread_none) force
  with h assms(1,3,5,6,7) show ?thesis by (auto simp: thread_good_def Let_def)
qed

interpretation conc: transition_invariant "conc_init s0 db" conc_step "conc_good s0 db"
proof
  show "conc_init s0 db y \<Longrightarrow> conc_good s0 db y" for y
    using view_age [OF order_refl] by (auto simp: conc_init_def conc_good_def conc_start_def lin_run_def same_shards_def)
next
  fix y y' assume good: "conc_good s0 db y" and "conc_step y y'"
  have typed: "typed (k_store y)" and same_s: "same_shards s0 (k_store y)" and clock: "clock_ok (k_now y)"
    and v: "view (k_store y) (k_now y) = age (k_now y) (fst (lin_run (shardFor s0) (k_hist y) db))"
    and hist: "\<forall>x\<in>set (k_hist y). fst x < length (k_threads y)"
    and th: "\<And>i. i < length (k_threads y) \<Longrightarrow> thread_good s0 y db i"
    using good by (auto simp: conc_good_def)
  have later: "view (k_store y) T = age T (fst (lin_run (shardFor s0) (k_hist y) db))" if "k_now y \<le> T" for T
    using view_age [OF that] age_age [OF that] v by simp
  have same: "thread_good s0 y1 db j"
    if "thread_good s0 y db j" "k_hist y1 = k_hist y" "k_now y \<le> k_now y1"
      "th_args (k_threads y1 ! j) = th_args (k_threads y ! j)" "th_all (k_threads y1 ! j) = th_all (k_threads y ! j)"
      "th_ops (k_threads y1 ! j) = th_ops (k_threads y ! j)"
      "th_res (k_threads y1 ! j) = th_res (k_threads y ! j)"
      "th_clean (k_threads y1 ! j) = None \<or> th_clean (k_threads y1 ! j) = th_clean (k_threads y ! j)" for y1 j
    using that by (auto simp: thread_good_def Let_def)
  from \<open>conc_step y y'\<close> show "conc_good s0 db y'"
  proof cases
    case (begins delay args)
    have "fst x < Suc (length (k_threads y))" if "x \<in> set (k_hist y)" for x
      using hist that by (simp add: less_SucI)
    moreover have "thread_good s0 y' db j" if "j < Suc (length (k_threads y))" for j
    proof (cases "j < length (k_threads y)")
      case True
      from same [OF th [OF True], of y'] True show ?thesis by (simp add: begins(1) nth_append)
    next
      case False
      with that have j: "j = length (k_threads y)" by simp
      have "of_thread j (k_hist y) = []" using hist j by (intro of_thread_none) auto
      moreover have "of_thread j (snd (lin_run (shardFor s0) (k_hist y) db)) = []"
      proof (rule of_thread_none)
        have "fst ` set (snd (lin_run (shardFor s0) (k_hist y) db)) = fst ` set (k_hist y)"
          using lin_run_threads by (metis set_map)
        then show "\<forall>x\<in>set (snd (lin_run (shardFor s0) (k_hist y) db)). fst x \<noteq> j" using hist j by force
      qed
      ultimately show ?thesis using same_s
        by (auto simp: j begins(1) thread_good_def new_thread_def same_shards_def)
    qed
    ultimately show ?thesis using typed same_s clock v by (simp add: begins(1) conc_good_def)
  next
    case (does i t rg rgs now po s r clean)
    have i: "thread_good s0 y db i" by (rule th [OF does(2)])
    have "rg \<in> set (th_all t)"
      using i does(3,4) by (auto simp: thread_good_def Let_def dest!: arg_cong [of "_ @ _" _ set])
    then have "region_ok (length (shards s0)) rg" using i does(3) regions_ok by (auto simp: thread_good_def Let_def)
    note res = region_step_result [OF typed same_s does(8,9) this does(10)]
    have run: "lin_run (shardFor s0) (k_hist y @ [(i, now, rg)]) db = (view s now, snd (lin_run (shardFor s0) (k_hist y) db) @ [(i, r)])"
      using res(3) later [OF does(7)] by (simp add: lin_run_snoc case_prod_unfold Let_def)
    have "thread_good s0 y' db j" if "j < length (k_threads y)" for j
    proof (cases "j = i")
      case True
      with i does(2-4) res(4) show ?thesis by (auto simp: does(1) thread_good_def Let_def run)
    next
      case False
      show ?thesis
        by (rule thread_good_other [OF th [OF that] False, where h = "[(i, now, rg)]" and rs = "[(i, r)]"])
          (use False does(7) in \<open>simp_all add: does(1) run\<close>)
    qed
    then show ?thesis using res(1,2) does(2,8) hist view_age [OF order_refl, of s now]
      by (simp add: conc_good_def does(1) run)
  next
    case (cleans i t key now)
    have now: "now \<le> k_now y" using th [OF cleans(2)] cleans(3,4) by (auto simp: thread_good_def Let_def)
    have "thread_good s0 y' db j" if "j < length (k_threads y)" for j
      using same [OF th [OF that], of y'] cleans(2,3) by (cases "j = i") (simp_all add: cleans(1))
    then show ?thesis using late_lazyDelete [OF typed now] same_s v hist clock
      by (simp add: conc_good_def cleans(1) same_shards_def)
  next
    case (appends i t c cs)
    have "thread_good s0 y' db j" if "j < length (k_threads y)" for j
      using same [OF th [OF that], of y'] appends(2,3) by (cases "j = i") (simp_all add: appends(1))
    then show ?thesis using typed same_s v hist clock by (simp add: conc_good_def appends(1))
  next
    case (ticks now)
    have "thread_good s0 y' db j" if "j < length (k_threads y)" for j
      using same [OF th [OF that], of y'] ticks(2) by (simp add: ticks(1))
    with later [OF ticks(2)] hist ticks(3) typed same_s show ?thesis by (simp add: conc_good_def ticks(1))
  next
    case (sweeps now po i)
    have "thread_good s0 y' db j" if "j < length (k_threads y)" for j
      using same [OF th [OF that], of y'] by (simp add: sweeps(1))
    with view_sweep_at [OF typed_ok [OF typed] sweeps(3,4,2)] v hist clock typed_sweep_at [OF typed sweeps(3,4)] same_s
    show ?thesis by (simp add: conc_good_def sweeps(1) same_shards_def)
  next
    case (walk_begins now kind)
    have "thread_good s0 y' db j" if "j < length (k_threads y)" for j
      using same [OF th [OF that], of y'] walk_begins(2) by (simp add: walk_begins(1))
    with later [OF walk_begins(2)] hist walk_begins(3) typed same_s show ?thesis
      by (simp add: conc_good_def walk_begins(1))
  next
    case (walk_visits i w po)
    have "thread_good s0 y' db j" if "j < length (k_threads y)" for j
      using same [OF th [OF that], of y'] by (simp add: walk_visits(1))
    with typed same_s v hist clock show ?thesis by (simp add: conc_good_def walk_visits(1))
  qed
qed

text \<open>The order of the operations only grows: each takes effect between the two ends of its command.\<close>

lemma hist_grows: "conc_step\<^sup>*\<^sup>* y y' \<Longrightarrow> prefix (k_hist y) (k_hist y')"
  by (induction rule: rtranclp_induct) (auto elim!: conc_stepE intro: prefix_order.trans)

section \<open>The log\<close>

definition due :: "thread \<Rightarrow> string list list" where
  "due t =
     (if is_mset (th_args t) then map pair_entry (take (length (th_res t)) (th_all t))
      else if th_ops t = [] then logged (th_args t) (th_res t) else [])"

definition in_order :: "thread \<Rightarrow> bool" where
  "in_order t \<longleftrightarrow> drop (length (th_res t)) (th_all t) = th_ops t \<and>
     (is_mset (th_args t) \<longrightarrow> th_all t = map Op (cmd_ops (th_args t)))"

definition log_balance :: "conc \<Rightarrow> bool" where
  "log_balance y \<longleftrightarrow>
     mset (k_log y) + sum_list (map (\<lambda>t. mset (th_log t)) (k_threads y)) =
       sum_list (map (\<lambda>t. mset (due t)) (k_threads y)) \<and>
     (\<forall>t\<in>set (k_threads y). in_order t)"

lemma drop_Cons_split:
  assumes "drop n xs = x # ys" shows "take (Suc n) xs = take n xs @ [x]" "drop (Suc n) xs = ys"
proof -
  have n: "n < length xs" using assms by (metis drop_eq_Nil list.distinct(1) not_le)
  from Cons_nth_drop_Suc [OF n] assms show "drop (Suc n) xs = ys" "take (Suc n) xs = take n xs @ [x]"
    by (simp_all add: take_Suc_conv_app_nth [OF n])
qed

lemma sum_list_change:
  fixes f :: "'a \<Rightarrow> 'b multiset"
  assumes "i < length xs"
  shows "sum_list (map f (xs[i := x])) + f (xs ! i) = sum_list (map f xs) + f x"
proof -
  have "sum_list (map f xs) = sum_list (map f (take i xs)) + (f (xs ! i) + sum_list (map f (drop (Suc i) xs)))"
    using assms by (metis Cons_nth_drop_Suc append_take_drop_id list.map(2) map_append sum_list.Cons sum_list.append)
  then show ?thesis using assms by (simp add: upd_conv_take_nth_drop union_ac)
qed

lemma balance_arith:
  fixes a :: "'b multiset"
  assumes "S' + l = S + l'" "D' + d = D + d'" "a + S = D" "a' + l' + d = a + l + d'"
  shows "a' + S' = D'"
proof (rule multiset_eqI)
  fix x
  have "count (S' + l) x = count (S + l') x" "count (D' + d) x = count (D + d') x" "count (a + S) x = count D x"
    "count (a' + l' + d) x = count (a + l + d') x" using assms by simp_all
  then show "count (a' + S') x = count D' x" by simp
qed

lemma log_balance_step:
  assumes "log_balance y" "i < length (k_threads y)" "k_threads y' = (k_threads y)[i := t]"
    "mset (k_log y') + mset (th_log t) + mset (due (k_threads y ! i)) =
      mset (k_log y) + mset (th_log (k_threads y ! i)) + mset (due t)"
    "in_order t"
  shows "log_balance y'"
proof -
  let ?ts = "k_threads y" and ?ts' = "k_threads y'"
  let ?L = "\<lambda>t. mset (th_log t)" and ?D = "\<lambda>t. mset (due t)"
  have L: "sum_list (map ?L ?ts') + ?L (?ts ! i) = sum_list (map ?L ?ts) + ?L t"
    and D: "sum_list (map ?D ?ts') + ?D (?ts ! i) = sum_list (map ?D ?ts) + ?D t"
    unfolding assms(3) by (rule sum_list_change [OF assms(2)])+
  have bal: "mset (k_log y) + sum_list (map ?L ?ts) = sum_list (map ?D ?ts)"
    using assms(1) by (simp add: log_balance_def)
  have "mset (k_log y') + sum_list (map ?L ?ts') = sum_list (map ?D ?ts')"
    by (rule balance_arith [OF L D bal assms(4)])
  moreover have "x = t \<or> x \<in> set ?ts" if "x \<in> set ?ts'" for x
    using that set_update_subset_insert [of ?ts i t] unfolding assms(3) by blast
  ultimately show ?thesis using assms(1,5) by (auto simp: log_balance_def)
qed

interpretation klog: transition_invariant "\<lambda>y. \<exists>s now. y = conc_start s now []" conc_step log_balance
proof
  show "\<exists>s now. y = conc_start s now [] \<Longrightarrow> log_balance y" for y
    by (auto simp: conc_start_def log_balance_def)
next
  fix y y' assume good: "log_balance y" and "conc_step y y'"
  from \<open>conc_step y y'\<close> show "log_balance y'"
  proof cases
    case (begins delay args)
    then have "due (begun y delay args) = []" by (simp add: due_def new_thread_def)
    with good show ?thesis by (simp add: log_balance_def begins(1)) (simp add: in_order_def new_thread_def MSET_regions)
  next
    case (does i t rg rgs now po s r clean)
    let ?t = "t\<lparr>th_ops := rgs, th_res := th_res t @ [r], th_clean := clean,
        th_log := entries_after (th_args t) rg rgs (th_res t @ [r])\<rparr>"
    have t: "in_order t" using good does(2,3) unfolding log_balance_def by (metis nth_mem)
    with does(4) have "drop (length (th_res t)) (th_all t) = rg # rgs" by (simp add: in_order_def)
    then have d: "take (Suc (length (th_res t))) (th_all t) = take (length (th_res t)) (th_all t) @ [rg]"
      "drop (Suc (length (th_res t))) (th_all t) = rgs"
      by (rule drop_Cons_split)+
    then have "mset (due t) + mset (th_log ?t) = mset (due ?t)"
      using does(4) by (simp add: due_def entries_after_def)
    then show ?thesis
      by (intro log_balance_step [OF good does(2), of y' ?t]) (use t in \<open>simp_all add: does(1,3,6) d(2) union_ac in_order_def\<close>)
  next
    case (cleans i t key now)
    have "in_order t"
      using good cleans(2,3) unfolding log_balance_def by (metis nth_mem)
    then show ?thesis
      by (intro log_balance_step [OF good cleans(2), of y' "t\<lparr>th_clean := None\<rparr>"]) (simp_all add: cleans(1,3) due_def in_order_def)
  next
    case (appends i t c cs)
    have "in_order t"
      using good appends(2,3) unfolding log_balance_def by (metis nth_mem)
    then show ?thesis
      by (intro log_balance_step [OF good appends(2), of y' "t\<lparr>th_log := cs\<rparr>"])
        (simp_all add: appends(1,3,4) due_def in_order_def)
  qed (use good in \<open>simp_all add: log_balance_def\<close>)
qed

text \<open>When all commands are finished, the log holds the entries of each, once, and nothing else.\<close>

lemma log_complete:
  assumes "log_balance y" "\<forall>t\<in>set (k_threads y). finished t"
  shows "mset (k_log y) = sum_list (map (\<lambda>t. mset (logged (th_args t) (th_res t))) (k_threads y))"
proof -
  have "mset (due t) = mset (logged (th_args t) (th_res t))" "th_log t = []" if "t \<in> set (k_threads y)" for t
  proof -
    have t: "th_ops t = []" "th_log t = []" "drop (length (th_res t)) (th_all t) = th_ops t"
      "is_mset (th_args t) \<longrightarrow> th_all t = map Op (cmd_ops (th_args t))"
      using assms that by (auto simp: finished_def log_balance_def in_order_def)
    then show "th_log t = []" "mset (due t) = mset (logged (th_args t) (th_res t))"
      by (auto simp: due_def logged_mset multiset.map_comp)
  qed
  then have "sum_list (map (\<lambda>t. mset (th_log t)) (k_threads y)) = {#}"
    "map (\<lambda>t. mset (due t)) (k_threads y) = map (\<lambda>t. mset (logged (th_args t) (th_res t))) (k_threads y)"
    by (simp_all cong: map_cong)
  with assms(1) show ?thesis by (simp add: log_balance_def)
qed

end
