(* ===== verification/Listings.thy ===== *)
theory Listings
  imports Interleaving Compaction
begin

text \<open>
  \<^verbatim>\<open>KEYS\<close>, \<^verbatim>\<open>DBSIZE\<close> and the snapshot for a rewrite beside other commands: each shard is listed, counted
  or copied as it is at the visit, in a state that the order of the regions explains, but the visits
  are at different points of that order.
\<close>

section \<open>What a walk has seen\<close>

text \<open>The keys it met: those not expired at its reading of the clock, each in its shard's visit.\<close>

definition met :: "store \<Rightarrow> walk \<Rightarrow> string set" where
  "met s0 w =
     {k. shardFor s0 k < length (w_seen w) \<and>
       (case w_seen w ! shardFor s0 k of (p, T, s) \<Rightarrow> view s (w_now w) k \<noteq> None)}"

text \<open>And the entries they had.\<close>

definition taken :: "store \<Rightarrow> walk \<Rightarrow> (string \<times> entry) set" where
  "taken s0 w =
     {(k, e). shardFor s0 k < length (w_seen w) \<and>
       (case w_seen w ! shardFor s0 k of (p, T, s) \<Rightarrow> getLive s k (w_now w) = Some e)}"

text \<open>What it has gathered from them.\<close>

definition gathered :: "store \<Rightarrow> walk \<Rightarrow> bool" where
  "gathered s0 w \<longleftrightarrow> finite (met s0 w) \<and>
     (case w_kind w of
        Lists pat \<Rightarrow> distinct (w_keys w) \<and> set (w_keys w) = {k \<in> met s0 w. denotes (parse_glob pat) k}
      | Counts \<Rightarrow> w_total w = int (card (met s0 w))
      | Snapshots \<Rightarrow> (\<exists>kes. list_all2 copies kes (w_snaps w) \<and> distinct (map fst kes) \<and>
          (\<forall>(k, e)\<in>set kes. entry_ok e) \<and> set kes = taken s0 w))"

text \<open>A moment of the run: a store that stands for the data after the first \<open>p\<close> regions.\<close>

definition moment :: "store \<Rightarrow> db \<Rightarrow> conc \<Rightarrow> nat \<times> time \<times> store \<Rightarrow> bool" where
  "moment s0 db y x \<longleftrightarrow>
     (case x of (p, T, s) \<Rightarrow>
        p \<le> length (k_hist y) \<and> T \<le> k_now y \<and> typed s \<and> same_shards s0 s \<and>
        view s T = age T (fst (lin_run (shardFor s0) (take p (k_hist y)) db)))"

definition walk_good :: "store \<Rightarrow> db \<Rightarrow> conc \<Rightarrow> walk \<Rightarrow> bool" where
  "walk_good s0 db y w \<longleftrightarrow>
     length (w_seen w) \<le> length (shards s0) \<and> w_now w \<le> k_now y \<and> w_from w \<le> length (k_hist y) \<and>
     sorted (w_from w # map fst (w_seen w)) \<and> sorted (w_now w # map (\<lambda>x. fst (snd x)) (w_seen w)) \<and>
     (\<forall>x\<in>set (w_seen w). moment s0 db y x) \<and> gathered s0 w"

definition list_good :: "store \<Rightarrow> db \<Rightarrow> conc \<Rightarrow> bool" where
  "list_good s0 db y \<longleftrightarrow> conc_good s0 db y \<and> (\<forall>w\<in>set (k_walks y). walk_good s0 db y w)"

lemma moment_later:
  "moment s0 db y x \<Longrightarrow> prefix (k_hist y) (k_hist y') \<Longrightarrow> k_now y \<le> k_now y' \<Longrightarrow> moment s0 db y' x"
  by (auto simp: moment_def prefix_def split: prod.splits)

lemma walk_good_later:
  assumes "walk_good s0 db y w" "prefix (k_hist y) (k_hist y')" "k_now y \<le> k_now y'"
  shows "walk_good s0 db y' w"
  using assms moment_later [OF _ assms(2,3)] prefix_length_le [OF assms(2)] by (auto simp: walk_good_def)

lemma met_visit:
  assumes "w' = v\<lparr>w_seen := w_seen w @ [(p, T, s)]\<rparr>" "w_now v = w_now w" "same_shards s0 s"
  shows "met s0 w' = met s0 w \<union> live_in s (w_now w) (length (w_seen w))"
    "met s0 w \<inter> live_in s (w_now w) (length (w_seen w)) = {}"
    "taken s0 w' = taken s0 w \<union> {(k, e). shardFor s k = length (w_seen w) \<and> getLive s k (w_now w) = Some e}"
  using same_shards_select [OF assms(3)] unfolding assms(1)
  by (auto simp: met_def taken_def live_in_def assms(2) nth_append less_Suc_eq)

lemma gathered_visit:
  assumes "gathered s0 w" "typed s" "same_shards s0 s" "length (w_seen w) < length (shards s)" "perm_order po"
  shows "gathered s0 ((visit po s w)\<lparr>w_seen := w_seen w @ [(p, T, s)]\<rparr>)" (is "gathered s0 ?w")
proof -
  let ?i = "length (w_seen w)"
  have now: "w_now (visit po s w) = w_now w" "w_kind (visit po s w) = w_kind w"
    by (simp_all add: visit_def Let_def split: walk_kind.split)
  note met = met_visit [where p = p and T = T, OF refl now(1) assms(3)]
  note ok = typed_ok [OF assms(2)]
  note size = size_at_card [OF ok assms(4), of "w_now w"]
  have fin: "finite (met s0 w)" using assms(1) by (simp add: gathered_def)
  show ?thesis
  proof (cases "w_kind w")
    case Counts
    have "card (met s0 ?w) = card (met s0 w) + card (live_in s (w_now w) ?i)"
      unfolding met(1) by (rule card_Un_disjoint [OF fin size(2) met(2)])
    with Counts assms(1) fin size now(2) met(1) show ?thesis by (simp add: gathered_def visit_def Let_def)
  next
    case (Lists pat)
    note keys = keys_at_set [OF ok assms(5,4), of "w_now w" pat]
    from Lists assms(1) have w: "distinct (w_keys w)" "set (w_keys w) = {k \<in> met s0 w. denotes (parse_glob pat) k}"
      by (simp_all add: gathered_def)
    have "w_keys ?w = w_keys w @ keys_at po (w_now w) pat ?i s" using Lists by (simp add: visit_def Let_def)
    with w keys met have "distinct (w_keys ?w)" "set (w_keys ?w) = {k \<in> met s0 ?w. denotes (parse_glob pat) k}"
      by auto
    with Lists fin size(2) now(2) met(1) show ?thesis by (simp add: gathered_def)
  next
    case Snapshots
    let ?new = "filter (\<lambda>(k, e). \<not> expired e (w_now w)) (gm_range po (shards s ! ?i))"
    note live = live_at [OF ok assms(4,5), of "w_now w"]
    obtain kes where kes: "list_all2 copies kes (w_snaps w)" "distinct (map fst kes)" "\<forall>(k, e)\<in>set kes. entry_ok e"
      "set kes = taken s0 w" using Snapshots assms(1) by (auto simp: gathered_def)
    have new: "\<forall>(k, e)\<in>set ?new. entry_ok e" unfolding live(1) using getLive_entry_ok [OF assms(2)] by blast
    then have "list_all2 copies ?new (snap_at po (w_now w) ?i s)"
      by (auto simp: snap_at_def list_all2_map2 list_all2_same copies_entry [OF _ assms(5)])
    with kes(1) have "list_all2 copies (kes @ ?new) (w_snaps ?w)"
      using Snapshots by (simp add: visit_def Let_def list_all2_appendI)
    moreover have "fst ` taken s0 w \<inter> fst ` set ?new = {}"
      unfolding live(1) taken_def using same_shards_select [OF assms(3)] by auto
    with kes(2,4) live(2) have "distinct (map fst (kes @ ?new))" by simp
    moreover have "set (kes @ ?new) = taken s0 ?w" using kes(4) live(1) met(3) by simp
    moreover have "\<forall>(k, e)\<in>set (kes @ ?new). entry_ok e" using kes(3) new by auto
    ultimately have "\<exists>kes. list_all2 copies kes (w_snaps ?w) \<and> distinct (map fst kes) \<and>
      (\<forall>(k, e)\<in>set kes. entry_ok e) \<and> set kes = taken s0 ?w" by blast
    with Snapshots fin size(2) now(2) met(1) show ?thesis by (simp add: gathered_def)
  qed
qed

lemma hist_clock_step: "conc_step y y' \<Longrightarrow> prefix (k_hist y) (k_hist y') \<and> k_now y \<le> k_now y'"
  by (auto elim!: conc_stepE)

interpretation lists: transition_invariant "conc_init s0 db" conc_step "list_good s0 db"
proof
  show "conc_init s0 db y \<Longrightarrow> list_good s0 db y" for y
    using conc.good_init by (auto simp: list_good_def conc_init_def conc_start_def)
next
  fix y y' assume good: "list_good s0 db y" and step: "conc_step y y'"
  then have c: "conc_good s0 db y" and c': "conc_good s0 db y'"
    using conc.good_step by (auto simp: list_good_def)
  note grows = hist_clock_step [OF step]
  have kept: "walk_good s0 db y' w" if "w \<in> set (k_walks y)" for w
    using good that walk_good_later grows by (auto simp: list_good_def)
  from step have "\<forall>w\<in>set (k_walks y'). walk_good s0 db y' w"
  proof cases
    case (walk_begins now kind)
    have "met s0 (new_walk kind now n) = {}" "taken s0 (new_walk kind now n) = {}" for kind n
      by (simp_all add: met_def taken_def new_walk_def)
    then have "walk_good s0 db y' (new_walk kind now (length (k_hist y)))"
      by (cases kind) (simp_all add: walk_begins(1) walk_good_def gathered_def, simp_all add: new_walk_def)
    with kept show ?thesis by (simp add: walk_begins(1))
  next
    case (walk_visits i w po)
    let ?w = "(visit po (k_store y) w)\<lparr>w_seen := w_seen w @ [(length (k_hist y), k_now y, k_store y)]\<rparr>"
    have w: "walk_good s0 db y w" using good walk_visits(2,3) by (auto simp: list_good_def)
    have s: "typed (k_store y)" "same_shards s0 (k_store y)" using c by (simp_all add: conc_good_def)
    have same: "w_now (visit po (k_store y) w) = w_now w" "w_from (visit po (k_store y) w) = w_from w"
      by (simp_all add: visit_def Let_def split: walk_kind.split)
    have "gathered s0 ?w" using w by (intro gathered_visit s walk_visits(4,5)) (simp add: walk_good_def)
    moreover have "moment s0 db y (length (k_hist y), k_now y, k_store y)"
      using c by (simp add: moment_def conc_good_def)
    moreover have "p \<le> length (k_hist y) \<and> T \<le> k_now y" if "(p, T, s) \<in> set (w_seen w)" for p T s
      using w that by (auto simp: walk_good_def moment_def)
    ultimately have "walk_good s0 db y ?w"
      using w walk_visits(4) s(2) by (fastforce simp: walk_good_def same sorted_append same_shards_def)
    then have "walk_good s0 db y' ?w" using walk_good_later grows by blast
    moreover have "x \<in> set (k_walks y) \<or> x = ?w" if "x \<in> set (k_walks y')" for x
      using that set_update_subset_insert [of "k_walks y" i ?w] by (auto simp: walk_visits(1))
    ultimately show ?thesis using kept by blast
  qed (use kept in simp_all)
  with c' show "list_good s0 db y'" by (simp add: list_good_def)
qed

section \<open>A finished walk\<close>

lemma walk_result:
  assumes "walk_good s0 db y w" "store_ok s0" "length (w_seen w) = length (shards s0)"
  shows "met s0 w = {k. view (snd (snd (w_seen w ! shardFor s0 k))) (w_now w) k \<noteq> None}"
    "(\<forall>(p, T, s)\<in>set (w_seen w). age T (fst (lin_run (shardFor s0) (take p (k_hist y)) db)) k \<noteq> None) \<Longrightarrow> k \<in> met s0 w"
proof -
  have len: "shardFor s0 k < length (w_seen w)" for k using shardFor_less [OF assms(2)] assms(3) by simp
  then show met: "met s0 w = {k. view (snd (snd (w_seen w ! shardFor s0 k))) (w_now w) k \<noteq> None}"
    by (simp add: met_def case_prod_unfold)
  obtain p T s where x: "w_seen w ! shardFor s0 k = (p, T, s)" by (metis prod_cases3)
  then have in_seen: "(p, T, s) \<in> set (w_seen w)" using nth_mem [OF len] by metis
  with assms(1) have "w_now w \<le> T" "view s T = age T (fst (lin_run (shardFor s0) (take p (k_hist y)) db))"
    by (auto simp: walk_good_def moment_def)
  moreover assume "\<forall>(p, T, s)\<in>set (w_seen w). age T (fst (lin_run (shardFor s0) (take p (k_hist y)) db)) k \<noteq> None"
  ultimately have "view s T k \<noteq> None" "w_now w \<le> T" using in_seen by auto
  then have "view s (w_now w) k \<noteq> None" by (auto simp: view_age age_def split: option.splits)
  then show "k \<in> met s0 w" by (simp add: met x)
qed

text \<open>
  The commands of a rewrite with a snapshot taken beside other commands rebuild each key as it was
  when its shard was visited.
\<close>

lemma rewrite_walk:
  assumes "walk_good s0 db y w" "store_ok s0" "length (w_seen w) = length (shards s0)" "w_kind w = Snapshots"
    "perm_order po"
  shows "case view (snd (snd (w_seen w ! shardFor s0 k))) (w_now w) k of
      None \<Rightarrow> replay_at T (rewrite_commands po ck (w_snaps w)) Map.empty k = None
    | Some (v, t) \<Rightarrow> \<exists>i. replay_at T (rewrite_commands po ck (w_snaps w)) Map.empty k =
        Some (v, new_deadline T (ck i) t)"
proof -
  obtain kes where kes: "list_all2 copies kes (w_snaps w)" "distinct (map fst kes)" "\<forall>(k, e)\<in>set kes. entry_ok e"
    "set kes = taken s0 w" using assms(1,4) by (auto simp: walk_good_def gathered_def)
  have len: "shardFor s0 k < length (w_seen w)" using shardFor_less [OF assms(2)] assms(3) by simp
  have "map_of kes k = Some e \<longleftrightarrow> getLive (snd (snd (w_seen w ! shardFor s0 k))) k (w_now w) = Some e" for e
    using kes(2,4) len by (auto simp: map_of_eq_Some_iff taken_def case_prod_unfold)
  then have "map_of kes k = getLive (snd (snd (w_seen w ! shardFor s0 k))) k (w_now w)"
    by (metis option.exhaust)
  with rewrite_copies [OF assms(5) kes(1-3), where k = k and T = T and ck = ck] show ?thesis
    by (simp add: view_def split: option.splits)
qed

text \<open>A walk that nothing interrupts is the whole operation.\<close>

lemma visits_alone:
  assumes "k_now y \<le> now" "clock_ok now" "perm_order po" "m \<le> length (shards (k_store y))"
  shows "\<exists>y' w. conc_step\<^sup>*\<^sup>* y y' \<and> k_walks y' = k_walks y @ [w] \<and> k_store y' = k_store y \<and>
    length (w_seen w) = m \<and> w_kind w = kind \<and> w_now w = now \<and>
    (\<forall>p. kind = Lists p \<longrightarrow> w_keys w = concat (map (\<lambda>j. keys_at po now p j (k_store y)) [0..<m])) \<and>
    (kind = Counts \<longrightarrow> w_total w = sum_list (map (\<lambda>j. size_at now j (k_store y)) [0..<m])) \<and>
    (kind = Snapshots \<longrightarrow> w_snaps w = concat (map (\<lambda>j. snap_at po now j (k_store y)) [0..<m]))"
  using assms(4)
proof (induction m)
  case 0
  let ?w = "new_walk kind now (length (k_hist y))"
  have "conc_step y (y\<lparr>k_now := now, k_walks := k_walks y @ [?w]\<rparr>)"
    by (rule conc_step.walk_begins [OF assms(1,2)])
  then show ?case
    by (intro exI [of _ "y\<lparr>k_now := now, k_walks := k_walks y @ [?w]\<rparr>"] exI [of _ ?w])
      (auto simp: new_walk_def)
next
  case (Suc m)
  then obtain y1 w where y1: "conc_step\<^sup>*\<^sup>* y y1" "k_walks y1 = k_walks y @ [w]" "k_store y1 = k_store y"
    "length (w_seen w) = m" "w_kind w = kind" "w_now w = now"
    "\<forall>p. kind = Lists p \<longrightarrow> w_keys w = concat (map (\<lambda>j. keys_at po now p j (k_store y)) [0..<m])"
    "kind = Counts \<longrightarrow> w_total w = sum_list (map (\<lambda>j. size_at now j (k_store y)) [0..<m])"
    "kind = Snapshots \<longrightarrow> w_snaps w = concat (map (\<lambda>j. snap_at po now j (k_store y)) [0..<m])"
    by auto
  let ?w = "(visit po (k_store y1) w)\<lparr>w_seen := w_seen w @ [(length (k_hist y1), k_now y1, k_store y1)]\<rparr>"
  have "conc_step y1 (y1\<lparr>k_walks := (k_walks y1)[length (k_walks y) := ?w]\<rparr>)"
    using y1(2-4) Suc.prems by (intro conc_step.walk_visits assms(3)) simp_all
  let ?y = "y1\<lparr>k_walks := (k_walks y1)[length (k_walks y) := ?w]\<rparr>"
  show ?case
  proof (intro exI conjI allI impI)
    show "conc_step\<^sup>*\<^sup>* y ?y" using y1(1) \<open>conc_step y1 ?y\<close> by (rule rtranclp.rtrancl_into_rtrancl)
    show "k_walks ?y = k_walks y @ [?w]" by (simp add: y1(2))
    show "k_store ?y = k_store y" by (simp add: y1(3))
    show "length (w_seen ?w) = Suc m" by (simp add: y1(4))
    show "w_kind ?w = kind" "w_now ?w = now" by (simp_all add: y1(5,6) visit_def Let_def split: walk_kind.split)
    show "w_keys ?w = concat (map (\<lambda>j. keys_at po now p j (k_store y)) [0..<Suc m])" if "kind = Lists p" for p
      using that y1(7) by (simp add: visit_def Let_def y1(3-6))
    show "w_total ?w = sum_list (map (\<lambda>j. size_at now j (k_store y)) [0..<Suc m])" if "kind = Counts"
      using that y1(8) by (simp add: visit_def Let_def y1(3-6))
    show "w_snaps ?w = concat (map (\<lambda>j. snap_at po now j (k_store y)) [0..<Suc m])" if "kind = Snapshots"
      using that y1(9) by (simp add: visit_def Let_def y1(3-6))
  qed
qed

lemma walk_alone:
  assumes "k_now y \<le> now" "clock_ok now" "perm_order po"
  shows "\<exists>y' w. conc_step\<^sup>*\<^sup>* y y' \<and> k_walks y' = k_walks y @ [w] \<and> k_store y' = k_store y \<and>
    length (w_seen w) = length (shards (k_store y)) \<and> w_kind w = kind \<and>
    (\<forall>p. kind = Lists p \<longrightarrow> w_keys w = Store_Keys po (k_store y) now p) \<and>
    (kind = Counts \<longrightarrow> w_total w = Store_DBSize (k_store y) now) \<and>
    (kind = Snapshots \<longrightarrow> w_snaps w = Store_SnapshotAll po (k_store y) now)"
proof -
  from visits_alone [OF assms order_refl, of kind] obtain y' w where
    "conc_step\<^sup>*\<^sup>* y y'" "k_walks y' = k_walks y @ [w]" "k_store y' = k_store y"
    "length (w_seen w) = length (shards (k_store y))" "w_kind w = kind"
    "\<forall>p. kind = Lists p \<longrightarrow> w_keys w = Store_Keys po (k_store y) now p"
    "kind = Counts \<longrightarrow> w_total w = Store_DBSize (k_store y) now"
    "kind = Snapshots \<longrightarrow> w_snaps w = Store_SnapshotAll po (k_store y) now"
    unfolding Keys_visits DBSize_visits SnapshotAll_visits by (elim exE conjE)
  then show ?thesis by (intro exI conjI)
qed

end
