(* ===== verification/Races.thy ===== *)
theory Races
  imports Listings System
begin

text \<open>
  What the interleaving of connections can spoil: the order of the log, since a handler changes
  the store and appends to the log under different locks; a command over several keys, which is
  not atomic; and the process itself, when a subscriber leaves while a publication that has taken
  its snapshot (\<^verbatim>\<open>internal/pubsub/pubsub.go\<close>) still has to send to it.
\<close>

section \<open>The order of the log\<close>

lemma ToUpper_names [simp]:
  "ToUpper ''SET'' = ''SET''" "ToUpper ''MSET'' = ''MSET''" "ToUpper ''MGET'' = ''MGET''"
  by (rule ToUpper_fixed, simp add: ascii_upper_def in_bytes_def)+

lemma SET_thread:
  "regions n delay [''SET'', k, v] = [Op (OpSet k v 0)]"
  "new_thread n delay [''SET'', k, v] =
    \<lparr>th_args = [''SET'', k, v], th_all = [Op (OpSet k v 0)], th_ops = [Op (OpSet k v 0)], th_res = [],
     th_clean = None, th_log = []\<rparr>"
  "entries_after [''SET'', k, v] (Op (OpSet k v 0)) [] [r] = [[''SET'', k, v]]"
  by (simp_all add: new_thread_def regions_def cmd_ops_SET entries_after_def is_mset_def logged_def
      logged_for_def effective_def log_entry_def)

lemma region_step_Op:
  "\<forall>k. op \<noteq> OpGet k \<Longrightarrow> region_step po now (Op op) s = (fst (run_op po now op s), snd (run_op po now op s), None)"
  by (simp add: region_step_def op_step_other)

text \<open>Two clients set one key; the log gets their commands in the other order.\<close>

lemma log_race:
  assumes "typed s" "clock_ok now"
  shows "\<exists>y. conc_step\<^sup>*\<^sup>* (conc_start s now []) y \<and> (\<forall>t\<in>set (k_threads y). finished t) \<and>
    view (k_store y) T k = Some (AStr ''2'', 0) \<and> replay_db (k_log y) Map.empty k = Some (AStr ''1'', 0)"
proof -
  let ?n = "length (shards s)" and ?a = "[''SET'', k, ''1'']" and ?b = "[''SET'', k, ''2'']"
  define st where "st S L a b H = \<lparr>k_store = S, k_now = now, k_log = L, k_threads = [a, b], k_walks = [], k_hist = H\<rparr>" for S L a b H
  define th where "th args ops res L =
      \<lparr>th_args = args, th_all = regions (length (shards s)) 0 args, th_ops = ops, th_res = res, th_clean = None, th_log = L\<rparr>"
    for args ops res L
  define s1 where "s1 = Store_Set s now k ''1'' 0"
  define s2 where "s2 = Store_Set s1 now k ''2'' 0"
  let ?h = "[(0, now, Op (OpSet k ''1'' 0))]" and ?h2 = "[(0, now, Op (OpSet k ''1'' 0)), (1, now, Op (OpSet k ''2'' 0))]"
  let ?a1 = "th ?a [] [RNone]" and ?b1 = "th ?b [] [RNone]"
  let ?y0 = "st s [] (new_thread ?n 0 ?a) (new_thread ?n 0 ?b) []"
  let ?y1 = "st s1 [] (?a1 [?a]) (new_thread ?n 0 ?b) ?h" and ?y2 = "st s2 [] (?a1 [?a]) (?b1 [?b]) ?h2"
  let ?y3 = "st s2 [?b] (?a1 [?a]) (?b1 []) ?h2" and ?y4 = "st s2 [?b, ?a] (?a1 []) (?b1 []) ?h2"
  have po: "perm_order id" by (simp add: perm_order_def)
  have "conc_step (conc_start s now []) ((conc_start s now [])\<lparr>k_threads := [new_thread ?n 0 ?a]\<rparr>)"
    using conc_step.begins [of "conc_start s now []" 0 ?a] by (simp add: conc_start_def SET_thread(2))
  moreover have "conc_step ((conc_start s now [])\<lparr>k_threads := [new_thread ?n 0 ?a]\<rparr>) ?y0"
    using conc_step.begins [of "(conc_start s now [])\<lparr>k_threads := [new_thread ?n 0 ?a]\<rparr>" 0 ?b]
    by (simp add: conc_start_def st_def SET_thread(2))
  moreover have "conc_step ?y0 ?y1"
    using conc_step.does [of 0 ?y0 "new_thread ?n 0 ?a" "Op (OpSet k ''1'' 0)" "[]" now id s1 RNone None] assms po
    by (simp add: st_def th_def SET_thread region_step_Op s1_def)
  moreover have "conc_step ?y1 ?y2"
    using conc_step.does [of 1 ?y1 "new_thread ?n 0 ?b" "Op (OpSet k ''2'' 0)" "[]" now id s2 RNone None] assms po
    by (simp add: st_def th_def SET_thread region_step_Op s2_def)
  moreover have "conc_step ?y2 ?y3"
    using conc_step.appends [of 1 ?y2 "?b1 [?b]" ?b "[]"] by (simp add: st_def th_def)
  moreover have "conc_step ?y3 ?y4"
    using conc_step.appends [of 0 ?y3 "?a1 [?a]" ?a "[]"] by (simp add: st_def th_def)
  ultimately have "conc_step\<^sup>*\<^sup>* (conc_start s now []) ?y4"
    by (meson rtranclp.rtrancl_into_rtrancl rtranclp.rtrancl_refl)
  moreover have "view s2 T k = Some (AStr ''2'', 0)"
  proof -
    have "typed s1" using assms(1) by (simp add: s1_def typed_Set)
    then show ?thesis by (simp add: s2_def Store_Set_def view_put typed_ok expired_def abs_val_def)
  qed
  ultimately show ?thesis
    by (intro exI [of _ ?y4]) (simp add: st_def th_def finished_def cmd_ops_SET deadline_def)
qed

section \<open>A listing\<close>

text \<open>
  \<^verbatim>\<open>KEYS\<close> is no snapshot: it can list a key and miss another that was there before it and is there
  still.
\<close>

lemma listing_misses_older_key:
  assumes "typed s" "clock_ok now" "length (shards s) = 2" "shardFor s a = 0" "shardFor s b = 1" "view s now a = None"
  shows "\<exists>y w. conc_step\<^sup>*\<^sup>* (conc_start s now []) y \<and> (\<forall>t\<in>set (k_threads y). finished t) \<and> k_walks y = [w] \<and>
    w_kind w = Lists ''*'' \<and> length (w_seen w) = 2 \<and>
    k_hist y = [(0, now, Op (OpSet a ''1'' 0)), (1, now, Op (OpSet b ''1'' 0))] \<and> b \<in> set (w_keys w) \<and> a \<notin> set (w_keys w)"
proof -
  define st where "st S L ts ws H =
      \<lparr>k_store = S, k_now = now, k_log = L, k_threads = ts, k_walks = ws, k_hist = H\<rparr>" for S L ts ws H
  let ?la = "[''SET'', a, ''1'']" and ?lb = "[''SET'', b, ''1'']"
  define th where "th k ops res L =
      \<lparr>th_args = [''SET'', k, ''1''], th_all = [Op (OpSet k ''1'' 0)], th_ops = ops, th_res = res, th_clean = None,
       th_log = L\<rparr>" for k ops res L
  have new: "new_thread n d [''SET'', k, ''1''] = th k [Op (OpSet k ''1'' 0)] [] []" for n d k
    by (simp add: SET_thread(2) th_def)
  define s1 where "s1 = Store_Set s now a ''1'' 0"
  define s2 where "s2 = Store_Set s1 now b ''1'' 0"
  define W0 where "W0 = new_walk (Lists ''*'') now 0"
  define W1 where "W1 = (visit id s W0)\<lparr>w_seen := [(0, now, s)]\<rparr>"
  define W2 where "W2 = (visit id s2 W1)\<lparr>w_seen := [(0, now, s), (2, now, s2)]\<rparr>"
  have w: "w_seen W0 = []" "w_seen W1 = [(0, now, s)]" "w_seen W2 = [(0, now, s), (2, now, s2)]"
    "w_kind W2 = Lists ''*''" "w_now W2 = now"
    by (simp_all add: W0_def W1_def W2_def new_walk_def visit_def)
  let ?A = "Op (OpSet a ''1'' 0)" and ?B = "Op (OpSet b ''1'' 0)"
  let ?h1 = "[(0, now, ?A)]" and ?h2 = "[(0, now, ?A), (1, now, ?B)]"
  have len: "length (shards s2) = 2"
    using assms(3) by (simp add: s2_def s1_def Store_Set_def)
  have s1: "typed s1" and s2: "typed s2" using assms(1) by (simp_all add: s2_def s1_def typed_Set)
  have po: "perm_order id" by (simp add: perm_order_def)
  have "conc_step (conc_start s now []) (st s [] [] [W0] [])"
    using conc_step.walk_begins [of "conc_start s now []" now "Lists ''*''"] assms(2)
    by (simp add: conc_start_def st_def W0_def)
  moreover have "conc_step (st s [] [] [W0] []) (st s [] [] [W1] [])"
    using conc_step.walk_visits [of 0 "st s [] [] [W0] []" W0 id] assms(3) po by (simp add: st_def w(1) W1_def)
  moreover have "conc_step (st s [] [] [W1] []) (st s [] [th a [?A] [] []] [W1] [])"
    using conc_step.begins [of "st s [] [] [W1] []" 0 ?la] by (simp add: st_def new) (simp add: th_def)
  moreover have "conc_step (st s [] [th a [?A] [] []] [W1] []) (st s1 [] [th a [] [RNone] [?la]] [W1] ?h1)"
    using conc_step.does [of 0 "st s [] [th a [?A] [] []] [W1] []" "th a [?A] [] []" ?A "[]" now id s1 RNone None] assms(2) po
    by (simp add: st_def th_def SET_thread region_step_Op s1_def)
  moreover have "conc_step (st s1 [] [th a [] [RNone] [?la]] [W1] ?h1) (st s1 [?la] [th a [] [RNone] []] [W1] ?h1)"
    using conc_step.appends [of 0 "st s1 [] [th a [] [RNone] [?la]] [W1] ?h1" "th a [] [RNone] [?la]" ?la "[]"]
    by (simp add: st_def th_def)
  moreover have "conc_step (st s1 [?la] [th a [] [RNone] []] [W1] ?h1)
      (st s1 [?la] [th a [] [RNone] [], th b [?B] [] []] [W1] ?h1)"
    using conc_step.begins [of "st s1 [?la] [th a [] [RNone] []] [W1] ?h1" 0 ?lb] by (simp add: st_def new) (simp add: th_def)
  moreover have "conc_step (st s1 [?la] [th a [] [RNone] [], th b [?B] [] []] [W1] ?h1)
      (st s2 [?la] [th a [] [RNone] [], th b [] [RNone] [?lb]] [W1] ?h2)"
    using conc_step.does [of 1 "st s1 [?la] [th a [] [RNone] [], th b [?B] [] []] [W1] ?h1" "th b [?B] [] []" ?B "[]" now id s2
        RNone None] assms(2) po
    by (simp add: st_def th_def SET_thread region_step_Op s2_def)
  moreover have "conc_step (st s2 [?la] [th a [] [RNone] [], th b [] [RNone] [?lb]] [W1] ?h2)
      (st s2 [?la, ?lb] [th a [] [RNone] [], th b [] [RNone] []] [W1] ?h2)"
    using conc_step.appends [of 1 "st s2 [?la] [th a [] [RNone] [], th b [] [RNone] [?lb]] [W1] ?h2"
        "th b [] [RNone] [?lb]" ?lb "[]"] by (simp add: st_def th_def)
  moreover have "conc_step (st s2 [?la, ?lb] [th a [] [RNone] [], th b [] [RNone] []] [W1] ?h2)
      (st s2 [?la, ?lb] [th a [] [RNone] [], th b [] [RNone] []] [W2] ?h2)"
    using conc_step.walk_visits [of 0 "st s2 [?la, ?lb] [th a [] [RNone] [], th b [] [RNone] []] [W1] ?h2" W1 id] po len
    by (simp add: st_def w(2) W2_def numeral_2_eq_2)
  ultimately have run: "conc_step\<^sup>*\<^sup>* (conc_start s now []) (st s2 [?la, ?lb] [th a [] [RNone] [], th b [] [RNone] []] [W2] ?h2)"
    (is "conc_step\<^sup>*\<^sup>* _ ?y") by (meson rtranclp.rtrancl_into_rtrancl rtranclp.rtrancl_refl)
  have "conc_init s (view s now) (conc_start s now [])" using assms(1,2) by (auto simp: conc_init_def)
  from lists.good_reachable [OF this run] have "gathered s W2"
    by (simp add: list_good_def walk_good_def st_def)
  then have keys: "set (w_keys W2) = {k \<in> met s W2. denotes (parse_glob ''*'') k}" by (simp add: gathered_def w(4))
  have "view s2 now b = Some (AStr ''1'', 0)"
    using s1 by (simp add: s2_def Store_Set_def view_put typed_ok expired_def abs_val_def)
  then have "b \<in> met s W2" "a \<notin> met s W2" using assms(4-6) by (simp_all add: met_def w)
  moreover have "denotes (parse_glob ''*'') b" by simp
  ultimately show ?thesis using run keys
    by (intro exI [of _ ?y] exI [of _ W2]) (simp add: st_def th_def finished_def w)
qed

section \<open>Several keys\<close>

text \<open>An \<^verbatim>\<open>MGET\<close> between the operations of an \<^verbatim>\<open>MSET\<close> sees one pair without the other.\<close>

lemma mset_is_seen_half_done:
  assumes "typed s" "clock_ok now" "sh_lookup s ''b'' = None"
  shows "\<exists>y w r. conc_step\<^sup>*\<^sup>* (conc_start s now []) y \<and> k_threads y = [w, r] \<and> finished w \<and> finished r \<and>
    th_args w = [''MSET'', ''a'', ''1'', ''b'', ''1''] \<and> th_args r = [''MGET'', ''a'', ''b''] \<and>
    th_reply r = {WriteArrayHeader 2 @ WriteBulkString ''1'' @ WriteNull}"
proof -
  let ?n = "length (shards s)" and ?w = "[''MSET'', ''a'', ''1'', ''b'', ''1'']" and ?r = "[''MGET'', ''a'', ''b'']"
  have ops: "cmd_ops ?w = [OpSet ''a'' ''1'' 0, OpSet ''b'' ''1'' 0]" "cmd_ops ?r = [OpGet ''a'', OpGet ''b'']"
    by (simp_all add: cmd_ops_def ops_of_def guarded_def)
  then have regs: "regions n d ?w = [Op (OpSet ''a'' ''1'' 0), Op (OpSet ''b'' ''1'' 0)]" "regions n d ?r = [Op (OpGet ''a''), Op (OpGet ''b'')]"
    for n d by (simp_all add: regions_def)
  define st where "st S L a b H = \<lparr>k_store = S, k_now = now, k_log = L, k_threads = [a, b], k_walks = [], k_hist = H\<rparr>" for S L a b H
  define th where "th args ops res L =
      \<lparr>th_args = args, th_all = regions (length (shards s)) 0 args, th_ops = ops, th_res = res, th_clean = None, th_log = L\<rparr>"
    for args ops res L
  have new: "new_thread ?n 0 ?w = th ?w (regions ?n 0 ?w) [] []" "new_thread ?n 0 ?r = th ?r (regions ?n 0 ?r) [] []"
    by (simp_all add: new_thread_def th_def)
  define s1 where "s1 = Store_Set s now ''a'' ''1'' 0"
  define s2 where "s2 = Store_Set s1 now ''b'' ''1'' 0"
  let ?la = "[''SET'', ''a'', ''1'']" and ?lb = "[''SET'', ''b'', ''1'']"
  let ?A = "Op (OpSet ''a'' ''1'' 0)" and ?B = "Op (OpSet ''b'' ''1'' 0)"
  let ?ga = "Op (OpGet ''a'')" and ?gb = "Op (OpGet ''b'')"
  let ?h1 = "[(0, now, ?A)]" and ?h2 = "[(0, now, ?A), (1, now, ?ga)]"
  let ?h3 = "?h2 @ [(1, now, ?gb)]" and ?h4 = "?h2 @ [(1, now, ?gb), (0, now, ?B)]"
  let ?ra = "RStr (Some ''1'')" and ?rb = "RStr None"
  have ok: "store_ok s" using assms(1) by (rule typed_ok)
  have got: "Get_read s1 now ''a'' = (Inr (Some ''1''), False)" "Get_read s1 now ''b'' = (Inr None, False)"
    using assms(3) ok by (simp_all add: Get_read_def s1_def Store_Set_def string_entry_def expired_def)
  have log: "entries_after ?w ?A [?B] rs = [?la]" "entries_after ?w ?B [] rs = [?lb]" for rs
    by (simp_all add: entries_after_def is_mset_def plain_set_def)
  have nolog: "entries_after ?r ?ga [?gb] [?ra] = []" "entries_after ?r ?gb [] [?ra, ?rb] = []"
    by (simp_all add: entries_after_def is_mset_def logged_def logged_for_def ops effective_def)
  have po: "perm_order id" by (simp add: perm_order_def)
  let ?y0 = "st s [] (new_thread ?n 0 ?w) (new_thread ?n 0 ?r) []"
  let ?y1 = "st s1 [] (th ?w [?B] [RNone] [?la]) (new_thread ?n 0 ?r) ?h1"
  let ?y2 = "st s1 [?la] (th ?w [?B] [RNone] []) (new_thread ?n 0 ?r) ?h1"
  let ?y3 = "st s1 [?la] (th ?w [?B] [RNone] []) (th ?r [?gb] [?ra] []) ?h2"
  let ?y4 = "st s1 [?la] (th ?w [?B] [RNone] []) (th ?r [] [?ra, ?rb] []) ?h3"
  let ?y5 = "st s2 [?la] (th ?w [] [RNone, RNone] [?lb]) (th ?r [] [?ra, ?rb] []) ?h4"
  let ?y6 = "st s2 [?la, ?lb] (th ?w [] [RNone, RNone] []) (th ?r [] [?ra, ?rb] []) ?h4"
  have "conc_step (conc_start s now []) ((conc_start s now [])\<lparr>k_threads := [new_thread ?n 0 ?w]\<rparr>)"
    using conc_step.begins [of "conc_start s now []" 0 ?w] by (simp add: conc_start_def new_thread_def regs)
  moreover have "conc_step ((conc_start s now [])\<lparr>k_threads := [new_thread ?n 0 ?w]\<rparr>) ?y0"
    using conc_step.begins [of "(conc_start s now [])\<lparr>k_threads := [new_thread ?n 0 ?w]\<rparr>" 0 ?r]
    by (simp add: conc_start_def st_def new_thread_def regs)
  moreover have "conc_step ?y0 ?y1"
    using conc_step.does [of 0 ?y0 "new_thread ?n 0 ?w" ?A "[?B]" now id s1 RNone None] assms po
    unfolding new by (simp add: st_def th_def regs log region_step_Op s1_def)
  moreover have "conc_step ?y1 ?y2"
    using conc_step.appends [of 0 ?y1 "th ?w [?B] [RNone] [?la]" ?la "[]"] by (simp add: st_def th_def)
  moreover have "conc_step ?y2 ?y3"
    using conc_step.does [of 1 ?y2 "new_thread ?n 0 ?r" ?ga "[?gb]" now id s1 ?ra None] assms po
    unfolding new by (simp add: st_def th_def regs nolog region_step_def op_step_def got)
  moreover have "conc_step ?y3 ?y4"
    using conc_step.does [of 1 ?y3 "th ?r [?gb] [?ra] []" ?gb "[]" now id s1 ?rb None] assms po
    by (simp add: st_def th_def nolog region_step_def op_step_def got)
  moreover have "conc_step ?y4 ?y5"
    using conc_step.does [of 0 ?y4 "th ?w [?B] [RNone] []" ?B "[]" now id s2 RNone None] assms po
    by (simp add: st_def th_def log region_step_Op s2_def)
  moreover have "conc_step ?y5 ?y6"
    using conc_step.appends [of 0 ?y5 "th ?w [] [RNone, RNone] [?lb]" ?lb "[]"] by (simp add: st_def th_def)
  ultimately have "conc_step\<^sup>*\<^sup>* (conc_start s now []) ?y6"
    by (meson rtranclp.rtrancl_into_rtrancl rtranclp.rtrancl_refl)
  then show ?thesis
    by (intro exI [of _ ?y6]) (simp add: st_def th_def finished_def th_reply_def reply_of_def reply_for_def nullable_def ops)
qed

section \<open>A subscriber that leaves during a publication\<close>

lemma unsubscribe_loop_closes:
  assumes "broker_ok (d_Broker d)" "conn_ok (d_Broker d) cs" "unsubscribe_loop chs d cs = Some (d', cs', w)"
    "ch \<in> set chs" "map_of (c_Subs cs) ch = Some p"
  shows "sub_closed (heap (d_Broker d') ! p)"
  using assms
proof (induction chs arbitrary: d cs w)
  case (Cons c chs)
  obtain d1 cs1 where 1: "unsubscribe_one c d cs = Some (d1, cs1)" "broker_ok (d_Broker d1)" "conn_ok (d_Broker d1) cs1"
    using unsubscribe_one_ok [OF Cons.prems(1,2)] by blast
  then obtain w' where rest: "unsubscribe_loop chs d1 cs1 = Some (d', cs', w')"
    using Cons.prems(3) by (auto simp: unsubscribe_loop_Cons)
  have p: "p \<in> set (subscribers (d_Broker d) ch)" using Cons.prems(2,5) by (auto simp: conn_ok_def)
  note sub = subscribers_ok [OF Cons.prems(1) p]
  show ?case
  proof (cases "c = ch")
    case True
    then obtain b where b: "Broker_Unsubscribe (d_Broker d) p = Some b" "d_Broker d1 = b"
      using 1(1) Cons.prems(5) by (auto simp: unsubscribe_one_def split: option.splits)
    have "sub_closed (heap (d_Broker d1) ! p)"
      using Unsubscribe_closed [OF Cons.prems(1) b(1)] sub p b(2) by simp
    moreover have "closed_kept (d_Broker d1) (d_Broker d')" "closed_kept (d_Broker d) (d_Broker d1)"
      using own_unsubscribe_loop [OF 1(2,3) rest] own_unsubscribe_one [OF Cons.prems(1,2) 1(1)]
      by (simp_all add: own_def)
    ultimately show ?thesis using sub by (auto simp: closed_kept_def)
  next
    case False
    then have "map_of (c_Subs cs1) ch = Some p" "ch \<in> set chs"
      using 1(1) Cons.prems(4,5) by (auto simp: unsubscribe_one_def split: option.splits)
    with Cons.IH [OF 1(2,3) rest] show ?thesis by blast
  qed
qed simp

lemma disconnect_closes:
  assumes "broker_ok (d_Broker d)" "conn_ok (d_Broker d) cs" "env_ok e" "disconnect e d cs = Some (d', cs')"
    "p \<in> ptrs cs"
  shows "sub_closed (heap (d_Broker d') ! p)"
proof -
  obtain ch where ch: "map_of (c_Subs cs) ch = Some p" using assms(5) by (auto simp: ptrs_def ran_def)
  obtain w where l: "unsubscribe_loop (ord e (gm_keys (c_Subs cs))) d cs = Some (d', cs', w)"
    using assms(4) by (auto simp: disconnect_def drop_subs_loop)
  have "ch \<in> set (ord e (gm_keys (c_Subs cs)))" using assms(3) ch by (auto simp: env_ok_def)
  from unsubscribe_loop_closes [OF assms(1,2) l this ch] show ?thesis .
qed

lemma leaving_kills_publisher:
  assumes "sys_good y" "at y i Leaving" "p \<in> ptrs (cl_conn (y_conns y ! i))" "at y j (Publishing m (p # ps) n)"
    "env_ok e"
  shows "\<exists>y'. srv_step y y' \<and> cl_status (y_conns y' ! i) = Closing \<and> srv_step y' (y'\<lparr>y_panicked := True\<rparr>)"
proof -
  have i: "i < length (y_conns y)" "j < length (y_conns y)" "j \<noteq> i" using assms(2,4) by (auto simp: at_def)
  let ?d = "server_deps 0 0 (y_srv y)"
  obtain d cs where d: "disconnect e ?d (cl_conn (y_conns y ! i)) = Some (d, cs)"
    using disconnect_good [OF assms(1,2,5)] by blast
  let ?y = "set_client i ((y_conns y ! i)\<lparr>cl_status := Closing, cl_conn := cs\<rparr>) (y\<lparr>y_srv := put_deps d (y_srv y)\<rparr>)"
  have "sub_closed (heap (d_Broker d) ! p)"
    using disconnect_closes [OF _ _ assms(5) d assms(3)] sys_goodD(1,4) [OF assms(1) i(1)] by (simp add: deps_ok_def)
  then have "try_send (srv_broker (y_srv ?y)) p m = None" by (simp add: try_send_def)
  moreover have "at ?y j (Publishing m (p # ps) n)" using assms(4) i by (simp add: at_def)
  ultimately have "srv_step ?y (?y\<lparr>y_panicked := True\<rparr>)" by (intro srv_step.send_panics)
  moreover have "srv_step y ?y" by (rule srv_step.disconnected [OF assms(2,5) d])
  ultimately show ?thesis using i(1) by (intro exI [of _ ?y]) simp
qed

end
