(* ===== verification/Delivery.thy ===== *)
theory Delivery
  imports System
begin

text \<open>
  What becomes of published messages (\<^verbatim>\<open>internal/pubsub/pubsub.go\<close>, the forwarding goroutines of
  \<^verbatim>\<open>handleConn\<close> in \<^verbatim>\<open>internal/server/server.go\<close>): every message that is put into the channel of a
  subscription reaches its connection once and in order, and is a whole piece of what goes out.
\<close>

section \<open>Channels across the operations of a connection\<close>

text \<open>Channels only get longer, new ones are empty, and a connection forwards from new ones only.\<close>

definition flows :: "broker \<Rightarrow> conn \<Rightarrow> broker \<Rightarrow> conn \<Rightarrow> bool" where
  "flows b cs b' cs' \<longleftrightarrow> length (heap b) \<le> length (heap b') \<and>
     (\<forall>p<length (heap b). prefix (sub_C (heap b ! p)) (sub_C (heap b' ! p))) \<and>
     (\<forall>p. length (heap b) \<le> p \<and> p < length (heap b') \<longrightarrow> sub_C (heap b' ! p) = []) \<and>
     (\<exists>new. c_delivering cs' = c_delivering cs @ new \<and> distinct new \<and>
        set new \<subseteq> {length (heap b)..<length (heap b')})"

text \<open>The same, with nothing sent.\<close>

definition only_opens :: "broker \<Rightarrow> conn \<Rightarrow> broker \<Rightarrow> conn \<Rightarrow> bool" where
  "only_opens b cs b' cs' \<longleftrightarrow> flows b cs b' cs' \<and> (\<forall>p<length (heap b). sub_C (heap b' ! p) = sub_C (heap b ! p))"

lemma only_opens_refl [simp]: "only_opens b cs b cs"
  by (auto simp: only_opens_def flows_def)

lemma only_opens_flows: "only_opens b cs b' cs' \<Longrightarrow> flows b cs b' cs'"
  by (simp add: only_opens_def)

lemma only_opens_trans:
  assumes "only_opens b cs b1 cs1" "only_opens b1 cs1 b2 cs2" shows "only_opens b cs b2 cs2"
proof -
  from assms obtain n1 n2 where n: "c_delivering cs1 = c_delivering cs @ n1" "distinct n1"
    "set n1 \<subseteq> {length (heap b)..<length (heap b1)}" "c_delivering cs2 = c_delivering cs1 @ n2" "distinct n2"
    "set n2 \<subseteq> {length (heap b1)..<length (heap b2)}"
    by (auto simp: only_opens_def flows_def)
  have l: "length (heap b) \<le> length (heap b1)" "length (heap b1) \<le> length (heap b2)"
    using assms by (simp_all add: only_opens_def flows_def)
  have C: "sub_C (heap b2 ! p) = (if p < length (heap b) then sub_C (heap b ! p) else [])" if "p < length (heap b2)" for p
    using assms that by (cases "p < length (heap b1)") (auto simp: only_opens_def flows_def)
  have "distinct (n1 @ n2)" "set (n1 @ n2) \<subseteq> {length (heap b)..<length (heap b2)}" using n l by fastforce+
  with n l C show ?thesis unfolding only_opens_def flows_def by (intro conjI exI [of _ "n1 @ n2"]) auto
qed

lemma only_opens_same_conn:
  assumes "length (heap b') = length (heap b)" "\<forall>p<length (heap b). sub_C (heap b' ! p) = sub_C (heap b ! p)"
    "c_delivering cs' = c_delivering cs"
  shows "only_opens b cs b' cs'"
  using assms by (auto simp: only_opens_def flows_def)

lemma only_opens_unsubscribe_loop:
  "broker_ok (d_Broker d) \<Longrightarrow> conn_ok (d_Broker d) cs \<Longrightarrow> unsubscribe_loop chs d cs = Some (d', cs', w) \<Longrightarrow>
    only_opens (d_Broker d) cs (d_Broker d') cs'"
proof (induction chs arbitrary: d cs w)
  case (Cons ch chs)
  obtain d1 cs1 where 1: "unsubscribe_one ch d cs = Some (d1, cs1)"
    "broker_ok (d_Broker d1)" "conn_ok (d_Broker d1) cs1"
    using unsubscribe_one_ok [OF Cons.prems(1,2)] by blast
  then obtain w' where "unsubscribe_loop chs d1 cs1 = Some (d', cs', w')"
    using Cons.prems(3) by (auto simp: unsubscribe_loop_Cons)
  note rest = Cons.IH [OF 1(2,3) this]
  have "only_opens (d_Broker d) cs (d_Broker d1) cs1"
  proof (cases "map_of (c_Subs cs) ch")
    case None
    with 1(1) show ?thesis by (simp add: unsubscribe_one_def)
  next
    case (Some p)
    with 1(1) obtain b where b: "Broker_Unsubscribe (d_Broker d) p = Some b"
      "d1 = d\<lparr>d_Broker := b\<rparr>" "c_delivering cs1 = c_delivering cs"
      by (auto simp: unsubscribe_one_def)
    have "sub_C ((xs[p := (xs ! p)\<lparr>sub_closed := True\<rparr>]) ! q) = sub_C (xs ! q)" if "q < length xs" for xs :: "Subscription list" and q
      using that by (cases "q = p") simp_all
    with Cons.prems(1) b(1) have "length (heap b) = length (heap (d_Broker d)) \<and>
      (\<forall>q<length (heap (d_Broker d)). sub_C (heap b ! q) = sub_C (heap (d_Broker d) ! q))"
      by (cases rule: Unsubscribe_cases) simp_all
    with b show ?thesis by (intro only_opens_same_conn) simp_all
  qed
  then show ?case using rest by (rule only_opens_trans)
qed simp

lemma only_opens_subscribe_loop:
  "subscribe_loop chs d cs = (d', cs', w) \<Longrightarrow> only_opens (d_Broker d) cs (d_Broker d') cs'"
proof (induction chs arbitrary: d cs w)
  case (Cons ch chs)
  show ?case
  proof (cases "map_of (c_Subs cs) ch")
    case (Some p)
    with Cons.IH [of d cs w] Cons.prems show ?thesis by simp
  next
    case None
    let ?b = "fst (Broker_Subscribe (d_Broker d) ch)" and ?p = "length (heap (d_Broker d))"
    have p: "snd (Broker_Subscribe (d_Broker d) ch) = ?p" "sub_C (heap ?b ! ?p) = []"
      by (simp_all add: Broker_Subscribe_def Let_def)
    define cs1 where "cs1 = (let c = cs\<lparr>c_Subs := gm_put ch ?p (c_Subs cs)\<rparr>
      in if c_Deliver c then c\<lparr>c_delivering := c_delivering c @ [?p]\<rparr> else c)"
    have "c_delivering cs1 = c_delivering cs @ (if c_Deliver cs then [?p] else [])" by (simp add: cs1_def Let_def)
    then have "only_opens (d_Broker d) cs ?b cs1" using p(2)
      unfolding only_opens_def flows_def heap_grows(1)
      by (intro conjI exI [of _ "if c_Deliver cs then [?p] else []"])
        (auto simp: heap_grows(2) less_Suc_eq)
    moreover obtain w' where "subscribe_loop chs (d\<lparr>d_Broker := ?b\<rparr>) cs1 = (d', cs', w')"
      using Cons.prems(1) None p by (auto simp: Let_def case_prod_unfold cs1_def prod_eq_iff)
    ultimately show ?thesis using Cons.IH [of "d\<lparr>d_Broker := ?b\<rparr>" cs1 w'] only_opens_trans by auto
  qed
qed simp

lemma flows_Execute:
  assumes "Execute e d cs args = Some (d', cs', w, err)" "broker_ok (d_Broker d)" "conn_ok (d_Broker d) cs" "env_ok e"
  shows "flows (d_Broker d) cs (d_Broker d') cs'"
proof (cases "data_handler e d (ToUpper (args ! 0)) args")
  case (Some r)
  then have "d_Broker d' = d_Broker d \<and> cs' = cs"
    using assms(1) data_handler_broker [OF Some]
    by (auto simp: Execute_def Let_def split: if_splits prod.splits)
  then show ?thesis by (simp add: only_opens_flows)
next
  case None
  have sub: "flows (d_Broker d) cs (d_Broker d1) cs1" if "cmdSubscribe d cs args = (d1, cs1, w1)" for d1 cs1 w1
    using that only_opens_flows only_opens_subscribe_loop by (auto simp: cmdSubscribe_def split: if_splits)
  have unsub: "flows (d_Broker d) cs (d_Broker d1) cs1"
    if "cmdUnsubscribe e d cs args = Some (d1, cs1, w1)" for d1 cs1 w1
    using that only_opens_flows only_opens_unsubscribe_loop [OF assms(2,3)]
    by (auto simp: cmdUnsubscribe_def Let_def split: if_splits)
  have pub: "flows (d_Broker d) cs (d_Broker d1) cs" if call: "cmdPublish e d args = Some (d1, w1)" for d1 w1
  proof -
    have po: "perm_order (sub_ord e)" using assms(4) by (simp add: env_ok_def)
    show ?thesis
    proof (cases "length args = 3")
      case True
      then obtain n where n: "Broker_Publish (sub_ord e) (d_Broker d) (args ! 1) (args ! 2) = Some (d_Broker d1, n)"
        using call by (auto simp: cmdPublish_def split: option.splits)
      with Publish_result [OF assms(2) po, of "args ! 1" "args ! 2"]
      have "length (heap (d_Broker d1)) = length (heap (d_Broker d))"
        "\<forall>q<length (heap (d_Broker d)). prefix (sub_C (heap (d_Broker d) ! q)) (sub_C (heap (d_Broker d1) ! q))"
        by auto
      then show ?thesis by (auto simp: flows_def)
    qed (use call in \<open>auto simp: cmdPublish_def only_opens_flows\<close>)
  qed
  have "flows (d_Broker d) cs (d_Broker d) cs" by (simp add: only_opens_flows)
  with assms(1) None sub unsub pub show ?thesis
    by (auto simp: Execute_def Let_def split: if_splits option.splits prod.splits)
qed

lemma flows_disconnect:
  assumes "disconnect e d cs = Some (d', cs')" "broker_ok (d_Broker d)" "conn_ok (d_Broker d) cs"
  shows "flows (d_Broker d) cs (d_Broker d') cs'"
  using assms(1) only_opens_flows only_opens_unsubscribe_loop [OF assms(2,3)]
  by (auto simp: disconnect_def drop_subs_loop)

lemma flows_try_send:
  assumes "try_send b p m = Some (b', sent)" "p < length (heap b)"
  shows "flows b cs b' cs"
proof -
  have "prefix (sub_C (heap b ! q)) (sub_C (heap b' ! q))" for q
    using try_send_frame(5) [OF assms(1), of q] try_send_buffer [OF assms] by (cases "q = p") auto
  with try_send_frame(2) [OF assms(1)] show ?thesis by (auto simp: flows_def)
qed

section \<open>Following the messages\<close>

text \<open>
  A run of the server, with what was put into each channel and what went out on each connection, in
  pieces: a forwarded message of a subscription, or something else. Both are read off the steps.
\<close>

datatype chunk = Text string | Push sub_ptr Message

fun chunk_bytes :: "chunk \<Rightarrow> string" where
  "chunk_bytes (Text w) = w"
| "chunk_bytes (Push p m) = deliver_bytes m"

definition pushed :: "sub_ptr \<Rightarrow> chunk list \<Rightarrow> Message list" where
  "pushed p cs = concat (map (\<lambda>c. case c of Text w \<Rightarrow> [] | Push q m \<Rightarrow> if q = p then [m] else []) cs)"

definition in_hand :: "sub_ptr \<Rightarrow> client \<Rightarrow> Message list" where
  "in_hand p c = map snd (filter (\<lambda>x. fst x = p) (cl_hand c))"

definition chan :: "system \<Rightarrow> sub_ptr \<Rightarrow> Message list" where
  "chan y p =
     (let h = heap (srv_broker (y_srv y)) in if p < length h then sub_C (h ! p) else [])"

definition sent_now :: "system \<Rightarrow> system \<Rightarrow> sub_ptr \<Rightarrow> Message list" where
  "sent_now y y' p = (if prefix (chan y p) (chan y' p) then drop (length (chan y p)) (chan y' p) else [])"

definition out_now :: "system \<Rightarrow> system \<Rightarrow> nat \<Rightarrow> chunk list" where
  "out_now y y' i =
     (if i < length (y_conns y)
      then
        (case filter (\<lambda>x. x \<notin> set (cl_hand (y_conns y' ! i))) (cl_hand (y_conns y ! i)) of
           x # xs \<Rightarrow> [Push (fst x) (snd x)]
         | [] \<Rightarrow> [Text (drop (length (cl_out (y_conns y ! i))) (cl_out (y_conns y' ! i)))])
      else if i < length (y_conns y') then [Text (cl_out (y_conns y' ! i))] else [])"

record tracked =
  t_sys :: system
  t_sent :: "sub_ptr \<Rightarrow> Message list"
  t_out :: "nat \<Rightarrow> chunk list"

definition follow :: "tracked \<Rightarrow> system \<Rightarrow> tracked" where
  "follow x y' =
     \<lparr>t_sys = y', t_sent = (\<lambda>p. t_sent x p @ sent_now (t_sys x) y' p),
      t_out = (\<lambda>i. t_out x i @ out_now (t_sys x) y' i)\<rparr>"

definition tracked_step :: "tracked \<Rightarrow> tracked \<Rightarrow> bool" where
  "tracked_step x x' \<longleftrightarrow> srv_step (t_sys x) (t_sys x') \<and> x' = follow x (t_sys x')"

definition tracked_init :: "tracked \<Rightarrow> bool" where
  "tracked_init x \<longleftrightarrow> sys_init (t_sys x) \<and> t_sent x = (\<lambda>p. []) \<and> t_out x = (\<lambda>i. [])"

text \<open>Every run can be followed.\<close>

lemma tracked_run:
  assumes "srv_step\<^sup>*\<^sup>* y y'"
  shows "t_sys x = y \<Longrightarrow> \<exists>x'. tracked_step\<^sup>*\<^sup>* x x' \<and> t_sys x' = y'"
  using assms
proof (induction rule: rtranclp_induct)
  case (step y1 y2)
  then obtain x1 where x1: "tracked_step\<^sup>*\<^sup>* x x1" "t_sys x1 = y1" by blast
  with step.hyps(2) have "tracked_step x1 (follow x1 y2)" by (simp add: tracked_step_def follow_def)
  with x1(1) show ?case by (intro exI [of _ "follow x1 y2"]) (simp add: follow_def)
qed blast

section \<open>Nothing is lost, doubled or overtaken\<close>

text \<open>One connection: who forwards what, and where the messages of its subscriptions are.\<close>

definition forwards :: "system \<Rightarrow> nat \<Rightarrow> sub_ptr set" where
  "forwards y i = set (c_delivering (cl_conn (y_conns y ! i)))"

definition hand_ok :: "system \<Rightarrow> nat \<Rightarrow> bool" where
  "hand_ok y i \<longleftrightarrow>
     (let c = y_conns y ! i in
      distinct (map fst (cl_hand c)) \<and> fst ` set (cl_hand c) \<subseteq> forwards y i \<and>
      forwards y i \<subseteq> {..<length (heap (srv_broker (y_srv y)))})"

definition placed :: "tracked \<Rightarrow> nat \<Rightarrow> bool" where
  "placed x i \<longleftrightarrow>
     (let c = y_conns (t_sys x) ! i in
      (\<forall>p. p \<notin> forwards (t_sys x) i \<longrightarrow> pushed p (t_out x i) = []) \<and>
      (\<forall>p\<in>forwards (t_sys x) i. t_sent x p = pushed p (t_out x i) @ in_hand p c @ chan (t_sys x) p) \<and>
      (if cl_broken c then prefix (cl_out c) (concat (map chunk_bytes (t_out x i)))
       else cl_out c = concat (map chunk_bytes (t_out x i))))"

definition track_good :: "tracked \<Rightarrow> bool" where
  "track_good x \<longleftrightarrow>
     (let y = t_sys x in
      sys_good y \<and>
      (\<forall>i<length (y_conns y). hand_ok y i \<and> placed x i) \<and>
      (\<forall>i<length (y_conns y). \<forall>j<length (y_conns y). i \<noteq> j \<longrightarrow> forwards y i \<inter> forwards y j = {}) \<and>
      (\<forall>p\<ge>length (heap (srv_broker (y_srv y))). t_sent x p = []) \<and>
      (\<forall>i\<ge>length (y_conns y). t_out x i = []))"

lemma track_goodD:
  assumes "track_good x" "t_sys x = y" "i < length (y_conns y)"
  shows "hand_ok y i" "placed x i" "j < length (y_conns y) \<Longrightarrow> j \<noteq> i \<Longrightarrow> forwards y i \<inter> forwards y j = {}"
  using assms by (auto simp: track_good_def Let_def)

lemma pushed_simps [simp]:
  "pushed p [] = []" "pushed p (xs @ ys) = pushed p xs @ pushed p ys" "pushed p [Text w] = []"
  "pushed p [Push q m] = (if q = p then [m] else [])"
  by (simp_all add: pushed_def)

text \<open>Steps that leave what is in hand alone.\<close>

definition calm_client :: "broker \<Rightarrow> broker \<Rightarrow> client \<Rightarrow> client \<Rightarrow> bool" where
  "calm_client b b' c c' \<longleftrightarrow> cl_hand c' = cl_hand c \<and> prefix (cl_out c) (cl_out c') \<and>
     (cl_broken c \<longrightarrow> cl_broken c' \<and> cl_out c' = cl_out c) \<and>
     (\<exists>new. c_delivering (cl_conn c') = c_delivering (cl_conn c) @ new \<and> set new \<subseteq> {length (heap b)..<length (heap b')})"

definition only_sends :: "broker \<Rightarrow> broker \<Rightarrow> bool" where
  "only_sends b b' \<longleftrightarrow> length (heap b) \<le> length (heap b') \<and>
     (\<forall>p<length (heap b). prefix (sub_C (heap b ! p)) (sub_C (heap b' ! p))) \<and>
     (\<forall>p. length (heap b) \<le> p \<and> p < length (heap b') \<longrightarrow> sub_C (heap b' ! p) = [])"

lemma calm_good:
  assumes "track_good x" "t_sys x = y" "sys_good y'" "only_sends (srv_broker (y_srv y)) (srv_broker (y_srv y'))"
    "length (y_conns y) \<le> length (y_conns y')"
    "\<And>j. j < length (y_conns y) \<Longrightarrow>
       calm_client (srv_broker (y_srv y)) (srv_broker (y_srv y')) (y_conns y ! j) (y_conns y' ! j)"
    "\<And>j. j < length (y_conns y) \<Longrightarrow> j \<noteq> i \<Longrightarrow> forwards y' j = forwards y j"
    "\<And>j. length (y_conns y) \<le> j \<Longrightarrow> j < length (y_conns y') \<Longrightarrow>
       c_delivering (cl_conn (y_conns y' ! j)) = [] \<and> cl_hand (y_conns y' ! j) = []"
  shows "track_good (follow x y')"
proof -
  let ?n = "length (heap (srv_broker (y_srv y)))" and ?n' = "length (heap (srv_broker (y_srv y')))"
  let ?m = "length (y_conns y)" and ?m' = "length (y_conns y')"
  have n: "?n \<le> ?n'" using assms(4) by (simp add: only_sends_def)
  have chan: "chan y' p = chan y p @ sent_now y y' p" for p
    using assms(4) by (auto simp: chan_def sent_now_def only_sends_def Let_def prefix_def)
  have fresh: "t_sent x p = [] \<and> sent_now y y' p = [] \<and> chan y' p = []" if "?n \<le> p" for p
    using that assms(1,2,4) by (auto simp: track_good_def Let_def sent_now_def chan_def only_sends_def)
  have fw: "\<exists>N. forwards y' j = forwards y j \<union> N \<and> N \<subseteq> {?n..<?n'}" if "j < ?m" for j
    using assms(6) [OF that] by (auto simp: calm_client_def forwards_def)
  have below: "forwards y j \<subseteq> {..<?n}" if "j < ?m" for j
    using track_goodD(1) [OF assms(1,2) that] by (simp add: hand_ok_def Let_def)
  have hand: "cl_hand (y_conns y' ! j) = cl_hand (y_conns y ! j)" if "j < ?m" for j
    using assms(6) [OF that] by (simp add: calm_client_def)
  have out: "out_now y y' j = [Text (drop (length (cl_out (y_conns y ! j))) (cl_out (y_conns y' ! j)))]" if "j < ?m" for j
  proof -
    have "filter (\<lambda>z. z \<notin> set (cl_hand (y_conns y ! j))) (cl_hand (y_conns y ! j)) = []" by (simp add: filter_empty_conv)
    then show ?thesis using that by (simp add: out_now_def hand)
  qed
  have "hand_ok y' j \<and> placed (follow x y') j" if j: "j < ?m'" for j
  proof (cases "j < ?m")
    case True
    obtain N where N: "forwards y' j = forwards y j \<union> N" "N \<subseteq> {?n..<?n'}" using fw [OF True] by blast
    have "forwards y' j \<subseteq> {..<?n'}" using N below [OF True] n by auto
    then have "hand_ok y' j" using track_goodD(1) [OF assms(1,2) True] N(1)
      by (auto simp: hand_ok_def hand [OF True] Let_def)
    moreover have "placed (follow x y') j"
    proof -
      let ?c = "y_conns y ! j" and ?c' = "y_conns y' ! j"
      have p: "placed x j" by (rule track_goodD(2) [OF assms(1,2) True])
      obtain u where u: "cl_out ?c' = cl_out ?c @ u" using assms(6) [OF True] by (auto simp: calm_client_def prefix_def)
      have o: "out_now y y' j = [Text u]" by (simp add: out [OF True] u)
      have h: "in_hand q ?c' = in_hand q ?c" for q by (simp add: in_hand_def hand [OF True])
      have none: "in_hand q ?c = [] \<and> pushed q (t_out x j) = []" if "q \<notin> forwards y j" for q
        using that p track_goodD(1) [OF assms(1,2) True] assms(2)
        by (auto simp: in_hand_def hand_ok_def placed_def Let_def filter_empty_conv)
      have sent: "t_sent x q @ sent_now y y' q = pushed q (t_out x j) @ in_hand q ?c' @ chan y' q"
        if "q \<in> forwards y' j" for q
      proof (cases "q \<in> forwards y j")
        case True
        with p assms(2) show ?thesis by (simp add: placed_def Let_def h chan)
      next
        case False
        then have "?n \<le> q" using N that by auto
        with none [OF False] fresh h show ?thesis by simp
      qed
      have "if cl_broken ?c' then prefix (cl_out ?c') (concat (map chunk_bytes (t_out x j)) @ u)
          else cl_out ?c' = concat (map chunk_bytes (t_out x j)) @ u"
        using p assms(6) [OF True] u assms(2)
        by (cases "cl_broken ?c") (auto simp: placed_def calm_client_def Let_def)
      with sent none N(1) show ?thesis by (simp add: placed_def follow_def Let_def o assms(2))
    qed
    ultimately show ?thesis ..
  next
    case False
    with j assms(8) [of j] have c: "forwards y' j = {}" "cl_hand (y_conns y' ! j) = []" by (simp_all add: forwards_def)
    have "t_out x j = []" using False assms(1,2) by (simp add: track_good_def Let_def)
    with c False j show ?thesis
      by (simp add: hand_ok_def placed_def follow_def Let_def out_now_def assms(2))
  qed
  moreover have "forwards y' j \<inter> forwards y' k = {}" if jk: "j < ?m'" "k < ?m'" "j \<noteq> k" for j k
  proof (cases "j < ?m \<and> k < ?m")
    case True
    then have "forwards y j \<inter> forwards y k = {}" using track_goodD(3) [OF assms(1,2)] jk(3) by metis
    with True fw [of j] fw [of k] below [of j] below [of k] assms(7) [of j] assms(7) [of k] jk(3) show ?thesis
      by (cases "j = i"; cases "k = i") fastforce+
  next
    case False
    then have "forwards y' j = {} \<or> forwards y' k = {}" using assms(8) jk by (auto simp: forwards_def)
    then show ?thesis by blast
  qed
  moreover have "t_sent (follow x y') p = []" if "?n' \<le> p" for p
    using fresh [of p] that n assms(2) by (simp add: follow_def)
  moreover have "t_out (follow x y') j = []" if "?m' \<le> j" for j
    using that assms(1,2,5) by (simp add: follow_def track_good_def Let_def out_now_def)
  ultimately show ?thesis using assms(3) by (simp add: track_good_def Let_def follow_def)
qed

lemma only_sends_refl [simp]: "only_sends b b"
  by (auto simp: only_sends_def)

lemma calm_client_refl [simp]: "calm_client b b' c c"
  by (auto simp: calm_client_def)

lemma calm_set:
  assumes "track_good x" "t_sys x = y" "sys_good y'" "y' = set_client i c z" "y_conns z = y_conns y" "i < length (y_conns y)"
    "flows (srv_broker (y_srv y)) (cl_conn (y_conns y ! i)) (srv_broker (y_srv y')) (cl_conn c)"
    "cl_hand c = cl_hand (y_conns y ! i)"
    "\<exists>u. cl_out c = cl_out (y_conns y ! i) @ (if cl_broken (y_conns y ! i) then [] else u)"
    "cl_broken (y_conns y ! i) \<longrightarrow> cl_broken c"
  shows "track_good (follow x y')"
proof (rule calm_good [OF assms(1-3), where i = i])
  show "only_sends (srv_broker (y_srv y)) (srv_broker (y_srv y'))"
    using assms(7) by (simp add: flows_def only_sends_def)
  have "calm_client (srv_broker (y_srv y)) (srv_broker (y_srv y')) (y_conns y ! i) c"
    using assms(7-10) by (auto simp: calm_client_def flows_def)
  then show "calm_client (srv_broker (y_srv y)) (srv_broker (y_srv y')) (y_conns y ! j) (y_conns y' ! j)"
    if "j < length (y_conns y)" for j
    using that assms(4,5) by (cases "j = i") simp_all
qed (use assms(4,5) in \<open>simp_all add: forwards_def\<close>)

lemma calm_none:
  assumes "track_good x" "t_sys x = y" "sys_good y'" "y_conns y' = y_conns y @ cs"
    "srv_broker (y_srv y') = srv_broker (y_srv y)" "\<forall>c\<in>set cs. c_delivering (cl_conn c) = [] \<and> cl_hand c = []"
  shows "track_good (follow x y')"
  by (rule calm_good [OF assms(1-3), where i = 0]) (use assms(4-6) in \<open>simp_all add: forwards_def nth_append\<close>)

text \<open>A forwarding goroutine takes a message from its channel, and it writes it.\<close>

lemma in_hand_none: "p \<notin> fst ` set (cl_hand c) \<Longrightarrow> in_hand p c = []"
  by (auto simp: in_hand_def filter_empty_conv)

lemma receive_good:
  assumes "track_good x" "t_sys x = y" "i < length (y_conns y)" "p \<in> forwards y i"
    "p \<notin> fst ` set (cl_hand (y_conns y ! i))" "chan_recv (srv_broker (y_srv y)) p = Some (b, m)"
    "y' = set_client i ((y_conns y ! i)\<lparr>cl_hand := (p, m) # cl_hand (y_conns y ! i)\<rparr>)
      (y\<lparr>y_srv := (y_srv y)\<lparr>srv_broker := b\<rparr>\<rparr>)" "sys_good y'"
  shows "track_good (follow x y')"
proof -
  let ?c = "y_conns y ! i" and ?b = "srv_broker (y_srv y)"
  let ?c' = "?c\<lparr>cl_hand := (p, m) # cl_hand ?c\<rparr>"
  obtain ms where b: "b = ?b\<lparr>heap := (heap ?b)[p := (heap ?b ! p)\<lparr>sub_C := ms\<rparr>]\<rparr>" "sub_C (heap ?b ! p) = m # ms"
    using assms(6) by (auto simp: chan_recv_def split: list.splits)
  have p: "p < length (heap ?b)"
    using track_goodD(1) [OF assms(1-3)] assms(4) by (auto simp: hand_ok_def Let_def)
  have conns: "y_conns y' = (y_conns y)[i := ?c']" "srv_broker (y_srv y') = b" by (simp_all add: assms(7))
  have chan: "chan y' q = (if q = p then ms else chan y q)" "chan y p = m # ms" for q
    using p b by (simp_all add: chan_def conns(2) Let_def)
  have sent: "sent_now y y' q = []" for q by (simp add: sent_now_def chan)
  have len: "length (heap (srv_broker (y_srv y'))) = length (heap ?b)" by (simp add: conns(2) b(1))
  have fw: "forwards y' j = forwards y j" for j
    using assms(3) by (cases "j = i") (simp_all add: forwards_def conns(1))
  have nth: "y_conns y' ! j = (if j = i then ?c' else y_conns y ! j)" if "j < length (y_conns y)" for j
    using that by (simp add: conns(1))
  have out: "out_now y y' j = [Text []]" if "j < length (y_conns y)" for j
  proof -
    have "filter (\<lambda>z. z \<notin> set (cl_hand (y_conns y' ! j))) (cl_hand (y_conns y ! j)) = []"
      using that by (auto simp: filter_empty_conv nth)
    with that show ?thesis by (simp add: out_now_def nth)
  qed
  have "hand_ok y' j \<and> placed (follow x y') j" if j: "j < length (y_conns y)" for j
  proof -
    have h: "hand_ok y j" and pl: "placed x j" using track_goodD(1,2) [OF assms(1,2) j] by simp_all
    have "hand_ok y' j" using h assms(4,5) by (auto simp: hand_ok_def Let_def fw len nth [OF j])
    moreover have "t_sent x q = pushed q (t_out x j) @ in_hand q (y_conns y' ! j) @ chan y' q"
      if "q \<in> forwards y j" for q
    proof (cases "q = p")
      case True
      then have "j = i" using track_goodD(3) [OF assms(1-3) j] assms(4) that by auto
      with pl that True assms(2) chan in_hand_none [OF assms(5)] j show ?thesis
        by (simp add: placed_def Let_def nth) (simp add: in_hand_def)
    next
      case False
      with pl that assms(2) j show ?thesis by (simp add: placed_def Let_def nth chan(1)) (simp add: in_hand_def)
    qed
    ultimately show ?thesis using pl assms(2) j
      by (cases "j = i") (simp_all add: placed_def follow_def Let_def fw out sent nth)
  qed
  then show ?thesis using assms(1,2,8) len
    by (simp add: track_good_def Let_def follow_def sent fw conns(1) out_now_def)
qed

lemma filter_one: "distinct h \<Longrightarrow> a \<in> set h \<Longrightarrow> filter (\<lambda>x. x = a) h = [a]"
  by (induction h) (auto simp: filter_empty_conv)

lemma handed:
  assumes "distinct (map fst h)" "(p, m) \<in> set h"
  shows "filter (\<lambda>x. x \<notin> set (remove1 (p, m) h)) h = [(p, m)]" "filter (\<lambda>x. fst x = p) h = [(p, m)]"
    "filter (\<lambda>x. fst x = p) (remove1 (p, m) h) = []"
    "q \<noteq> p \<Longrightarrow> filter (\<lambda>x. fst x = q) (remove1 (p, m) h) = filter (\<lambda>x. fst x = q) h"
proof -
  have d: "distinct h" using assms(1) by (simp add: distinct_map)
  note one = filter_one [OF d assms(2)]
  have fst: "fst x = p \<longleftrightarrow> x = (p, m)" if "x \<in> set h" for x
    using that assms by (auto simp: distinct_map inj_on_def)
  then have "filter (\<lambda>x. fst x = p) h = filter (\<lambda>x. x = (p, m)) h" by (intro filter_cong) simp_all
  then show "filter (\<lambda>x. fst x = p) h = [(p, m)]" by (simp only: one)
  have "filter (\<lambda>x. x \<notin> set (remove1 (p, m) h)) h = filter (\<lambda>x. x = (p, m)) h"
    using d by (intro filter_cong) auto
  then show "filter (\<lambda>x. x \<notin> set (remove1 (p, m) h)) h = [(p, m)]" by (simp only: one)
  show "filter (\<lambda>x. fst x = p) (remove1 (p, m) h) = []" using d fst by (auto simp: filter_empty_conv)
  show "q \<noteq> p \<Longrightarrow> filter (\<lambda>x. fst x = q) (remove1 (p, m) h) = filter (\<lambda>x. fst x = q) h"
    by (induction h) auto
qed

lemma deliver_good:
  assumes "track_good x" "t_sys x = y" "i < length (y_conns y)" "(p, m) \<in> set (cl_hand (y_conns y ! i))"
    "y' = set_client i c y" "sys_good y'" "cl_hand c = remove1 (p, m) (cl_hand (y_conns y ! i))"
    "cl_conn c = cl_conn (y_conns y ! i)" "prefix u (deliver_bytes m)" "\<not> cl_broken c \<longrightarrow> u = deliver_bytes m"
    "cl_out c = cl_out (y_conns y ! i) @ (if cl_broken (y_conns y ! i) then [] else u)"
    "cl_broken (y_conns y ! i) \<longrightarrow> cl_broken c"
  shows "track_good (follow x y')"
proof -
  let ?c = "y_conns y ! i"
  have h: "hand_ok y i" and pl: "placed x i" using track_goodD(1,2) [OF assms(1-3)] by simp_all
  then have p: "p \<in> forwards y i" and d: "distinct (map fst (cl_hand ?c))"
    using assms(4) by (force simp: hand_ok_def Let_def)+
  note handed = handed [OF d assms(4)]
  have conns: "y_conns y' = (y_conns y)[i := c]" "y_srv y' = y_srv y" by (simp_all add: assms(5))
  have chan: "chan y' q = chan y q" "sent_now y y' q = []" for q
    by (simp_all add: chan_def conns(2) sent_now_def)
  have fw: "forwards y' j = forwards y j" for j
    using assms(3,8) by (cases "j = i") (simp_all add: forwards_def conns(1))
  have nth: "y_conns y' ! j = (if j = i then c else y_conns y ! j)" if "j < length (y_conns y)" for j
    using that by (simp add: conns(1))
  have out: "out_now y y' j = (if j = i then [Push p m] else [Text []])" if "j < length (y_conns y)" for j
    using that handed(1) by (simp add: out_now_def nth assms(7) filter_empty_conv)
  have hand: "in_hand p ?c = [m]" "in_hand p c = []" "q \<noteq> p \<Longrightarrow> in_hand q c = in_hand q ?c" for q
    using handed(2-4) by (simp_all add: in_hand_def assms(7))
  have "hand_ok y' j \<and> placed (follow x y') j" if j: "j < length (y_conns y)" for j
  proof (cases "j = i")
    case False
    with track_goodD(1,2) [OF assms(1,2) j] j show ?thesis
      by (simp add: hand_ok_def placed_def follow_def Let_def fw conns(2) nth out chan assms(2))
  next
    case True
    have "hand_ok y' i" using h assms(3) notin_set_remove1
      by (auto simp: hand_ok_def Let_def fw conns(2) nth assms(7) distinct_map distinct_remove1 
          dest: inj_on_subset [OF _ set_remove1_subset])
    moreover have "placed (follow x y') i"
    proof -
      have "t_sent x q = pushed q (t_out x i @ [Push p m]) @ in_hand q c @ chan y q" if "q \<in> forwards y i" for q
        using pl that assms(2) hand by (cases "q = p") (simp_all add: placed_def Let_def)
      moreover have "if cl_broken c then prefix (cl_out c) (concat (map chunk_bytes (t_out x i)) @ deliver_bytes m)
          else cl_out c = concat (map chunk_bytes (t_out x i)) @ deliver_bytes m"
        using pl assms(2,9-12) by (auto simp: placed_def Let_def split: if_splits)
      moreover have "pushed q (t_out x i @ [Push p m]) = []" if "q \<notin> forwards y i" for q
        using pl that p assms(2) by (auto simp: placed_def Let_def)
      ultimately show ?thesis using assms(2,3)
        by (simp add: placed_def follow_def Let_def fw nth out chan)
    qed
    ultimately show ?thesis using True by simp
  qed
  then show ?thesis using assms(1,2,6)
    by (simp add: track_good_def Let_def follow_def chan fw conns out_now_def)
qed

text \<open>A command that ran, whole or in part.\<close>

lemma command_flows:
  assumes "sys_good y" "at y i Reading" "env_ok e"
    "Execute e (server_deps now n (count_command (y_srv y))) (cl_conn (y_conns y ! i)) args = Some (d, cs, w, err)"
  shows "flows (srv_broker (y_srv y)) (cl_conn (y_conns y ! i)) (d_Broker d) cs"
proof -
  have i: "i < length (y_conns y)" using assms(2) by (simp add: at_def)
  have "broker_ok (srv_broker (y_srv y))" using assms(1) by (simp add: sys_good_def)
  with flows_Execute [OF assms(4) _ _ assms(3)] sys_goodD(4) [OF assms(1) i] show ?thesis by simp
qed

lemma round_flows:
  assumes "sys_good y" "at y i Reading" "env_ok e"
    "round_of y i e now n = Stop d cs w \<or> round_of y i e now n = Answered d cs w rest"
  shows "flows (srv_broker (y_srv y)) (cl_conn (y_conns y ! i)) (d_Broker d) cs"
proof -
  obtain args err where
    "Execute e (server_deps now n (count_command (y_srv y))) (cl_conn (y_conns y ! i)) args = Some (d, cs, w, err)"
    using serve_round_Execute assms(4) unfolding round_of_def by blast
  from command_flows [OF assms(1-3) this] show ?thesis .
qed

interpretation deliv: transition_invariant tracked_init tracked_step track_good
proof
  show "tracked_init x \<Longrightarrow> track_good x" for x
    using srv.good_init [of "t_sys x"] by (auto simp: tracked_init_def track_good_def Let_def sys_init_def)
next
  fix x x' assume good: "track_good x" and "tracked_step x x'"
  define y y' where "y = t_sys x" and "y' = t_sys x'"
  from \<open>tracked_step x x'\<close> have step: "srv_step y y'" and x': "x' = follow x y'"
    by (simp_all add: tracked_step_def y_def y'_def)
  have sys: "sys_good y" using good by (simp add: track_good_def Let_def y_def)
  note good' = srv.good_step [OF sys step]
  note same = calm_none [OF good y_def [symmetric] good', where cs = "[]"]
  note move = calm_set [OF good y_def [symmetric] good']
  have b: "broker_ok (srv_broker (y_srv y))" using sys by (simp add: sys_good_def)
  from step have "track_good (follow x y')"
  proof cases
    case accept
    then show ?thesis
      by (intro calm_none [OF good y_def [symmetric] good', where cs = "[admit (y_srv y)]"])
        (auto simp: admit_def new_conn_def)
  next
    case (arrive i bytes)
    then show ?thesis by (intro move [OF arrive(1)]) (auto simp: only_opens_flows)
  next
    case (hang_up i)
    then show ?thesis by (intro move [OF hang_up(1)]) (auto simp: only_opens_flows)
  next
    case (start i)
    then show ?thesis by (intro move [OF start(1)]) (auto simp: only_opens_flows at_def)
  next
    case (check_cancelled i)
    then show ?thesis by (intro move [OF check_cancelled(1)]) (auto simp: only_opens_flows at_def)
  next
    case (check i)
    then show ?thesis by (intro move [OF check(1)]) (auto simp: only_opens_flows at_def)
  next
    case (read_failed i e now n)
    then show ?thesis by (intro move [OF read_failed(1)]) (auto simp: only_opens_flows at_def)
  next
    case (ignored i e now n rest)
    then show ?thesis by (intro move [OF ignored(1)]) (auto simp: only_opens_flows at_def)
  next
    case (answered i e now n d cs w rest)
    have "i < length (y_conns y)" using answered(2) by (simp add: at_def)
    with round_flows [OF sys answered(2,3) disjI2 [OF answered(4)]] show ?thesis
      by (intro move [OF answered(1)]) (auto simp: answered(1) split: if_splits)
  next
    case (unflushed i e now n d cs w rest k)
    have "i < length (y_conns y)" using unflushed(2) by (simp add: at_def)
    with round_flows [OF sys unflushed(2,3) disjI2 [OF unflushed(4)]] show ?thesis
      by (intro move [OF unflushed(1)]) (auto simp: unflushed(1) split: if_splits)
  next
    case (stopped i e now n d cs w)
    have "i < length (y_conns y)" using stopped(2) by (simp add: at_def)
    with round_flows [OF sys stopped(2,3) disjI1 [OF stopped(4)]] show ?thesis
      by (intro move [OF stopped(1)]) (auto simp: stopped(1) split: if_splits)
  next
    case (stop_unflushed i e now n d cs w k)
    have "i < length (y_conns y)" using stop_unflushed(2) by (simp add: at_def)
    with round_flows [OF sys stop_unflushed(2,3) disjI1 [OF stop_unflushed(4)]] show ?thesis
      by (intro move [OF stop_unflushed(1)]) (auto simp: stop_unflushed(1) split: if_splits)
  next
    case (cut_short i e args rest part now n d cs w err k)
    have "i < length (y_conns y)" using cut_short(2) by (simp add: at_def)
    with command_flows [OF sys cut_short(2,3,6)] show ?thesis
      by (intro move [OF cut_short(1)]) (auto simp: cut_short(1) split: if_splits)
  next
    case (publish i name channel payload rest ps)
    then show ?thesis by (intro move [OF publish(1)]) (auto simp: only_opens_flows at_def)
  next
    case (send i m p ps n b sent)
    have i: "i < length (y_conns y)" "cl_status (y_conns y ! i) = Publishing m (p # ps) n" using send(2) by (auto simp: at_def)
    then have "p < length (heap (srv_broker (y_srv y)))"
      using sys_goodD(3) [OF sys i(1)] by (simp add: client_ok_def)
    with flows_try_send [OF send(3)] i send(1) show ?thesis by (intro move [OF send(1)]) (auto simp: send(1))
  next
    case (published i m n)
    then show ?thesis by (intro move [OF published(1)]) (auto simp: only_opens_flows at_def)
  next
    case (publish_unflushed i m n k)
    then show ?thesis by (intro move [OF publish_unflushed(1)]) (auto simp: only_opens_flows at_def)
  next
    case (disconnected i e now n d cs)
    have i: "i < length (y_conns y)" using disconnected(2) by (simp add: at_def)
    have "flows (srv_broker (y_srv y)) (cl_conn (y_conns y ! i)) (d_Broker d) cs"
      using flows_disconnect [OF disconnected(4)] b sys_goodD(4) [OF sys i] by simp
    with i show ?thesis by (intro move [OF disconnected(1)]) (auto simp: disconnected(1))
  next
    case (receive i p b m)
    show ?thesis
      by (rule receive_good [OF good y_def [symmetric] receive(3) _ receive(5,6,1) good'])
        (use receive(4) in \<open>simp add: forwards_def\<close>)
  next
    case (deliver i p m)
    show ?thesis
      by (rule deliver_good [OF good y_def [symmetric] deliver(3,5,1) good', where u = "deliver_bytes m"]) simp_all
  next
    case (deliver_fails i p m k)
    show ?thesis
      by (rule deliver_good [OF good y_def [symmetric] deliver_fails(3,5,1) good', where u = "take k (deliver_bytes m)"])
        (simp_all add: take_is_prefix)
  next
    case (gone i)
    then show ?thesis by (intro move [OF gone(1)]) (auto simp: only_opens_flows at_def)
  qed (use same in simp_all)
  then show "track_good x'" by (simp only: x')
qed

text \<open>What the client of a subscription gets.\<close>

lemma delivered:
  assumes "track_good x" "y = t_sys x" "i < length (y_conns y)" "p \<in> set (c_delivering (cl_conn (y_conns y ! i)))"
  shows "t_sent x p = pushed p (t_out x i) @ in_hand p (y_conns y ! i) @ chan y p"
    "length (in_hand p (y_conns y ! i)) \<le> 1"
    "if cl_broken (y_conns y ! i) then prefix (cl_out (y_conns y ! i)) (concat (map chunk_bytes (t_out x i)))
     else cl_out (y_conns y ! i) = concat (map chunk_bytes (t_out x i))"
    "cl_status (y_conns y ! i) = Gone \<Longrightarrow> t_sent x p = pushed p (t_out x i)"
proof -
  let ?c = "y_conns y ! i"
  have p: "placed x i" "hand_ok y i" using track_goodD [OF assms(1) assms(2) [symmetric] assms(3)] by simp_all
  show eq: "t_sent x p = pushed p (t_out x i) @ in_hand p ?c @ chan y p"
    using p(1) assms(2,4) by (simp add: placed_def forwards_def Let_def)
  show "if cl_broken ?c then prefix (cl_out ?c) (concat (map chunk_bytes (t_out x i)))
     else cl_out ?c = concat (map chunk_bytes (t_out x i))"
    using p(1) assms(2) by (simp add: placed_def Let_def)
  have d: "distinct (map fst (cl_hand ?c))" using p(2) by (simp add: hand_ok_def Let_def)
  show "length (in_hand p ?c) \<le> 1"
  proof (cases "p \<in> fst ` set (cl_hand ?c)")
    case True
    then obtain m where "(p, m) \<in> set (cl_hand ?c)" by auto
    from handed(2) [OF d this] show ?thesis by (simp add: in_hand_def)
  qed (simp add: in_hand_none)
  assume gone: "cl_status ?c = Gone"
  have "client_ok (srv_broker (y_srv y)) ?c"
    using assms(1-3) sys_goodD(3) by (auto simp: track_good_def Let_def)
  with gone assms(4) have "in_hand p ?c = []" "chan y p = []"
    by (auto simp: client_ok_def drained_def in_hand_def chan_def Let_def)
  with eq show "t_sent x p = pushed p (t_out x i)" by simp
qed

end
