(* ===== verification/Dialogue.thy ===== *)
theory Dialogue
  imports Output
begin

text \<open>
  The dialogue of each client with the running server (\<^verbatim>\<open>handleConn\<close> of
  \<^verbatim>\<open>internal/server/server.go\<close>): however the connections interleave and in whatever pieces the bytes
  of a client arrive, its commands are answered one by one and in their order, each with the reply
  that \<^verbatim>\<open>Execute\<close> gives at some moment of the run.
\<close>

section \<open>Reading does not look ahead\<close>

lemma ReadString_more: "ReadString d s = Inr (l, r) \<Longrightarrow> ReadString d (s @ b) = Inr (l, r @ b)"
  by (induction d s arbitrary: l r rule: ReadString.induct) (auto split: if_splits sum.splits prod.splits)

lemma readLine_more: "readLine s = Inr (l, r) \<Longrightarrow> readLine (s @ b) = Inr (l, r @ b)"
  by (auto simp: readLine_def ReadString_more split: sum.splits prod.splits)

lemma readInt_more: "readInt s = Inr (n, r) \<Longrightarrow> readInt (s @ b) = Inr (n, r @ b)"
  by (auto simp: readInt_def readLine_more split: sum.splits prod.splits option.splits)

lemma ReadFull_more: "ReadFull n s = Inr (p, r) \<Longrightarrow> ReadFull n (s @ b) = Inr (p, r @ b)"
  by (auto simp: ReadFull_def split: if_splits)

lemma readBulk_more: "readBulk s = Inr (p, r) \<Longrightarrow> readBulk (s @ b) = Inr (p, r @ b)"
  by (auto simp: readBulk_def ReadByte_def Discard_def readInt_more ReadFull_more
      split: sum.splits prod.splits list.splits if_splits)

lemma readBulks_more: "readBulks k args s = Inr (out, r) \<Longrightarrow> readBulks k args (s @ b) = Inr (out, r @ b)"
proof (induction k arbitrary: args s)
  case (Suc k)
  then show ?case by (auto simp: readBulk_more split: sum.splits prod.splits)
qed simp

lemma ReadCommand_more: "ReadCommand s = Inr (args, r) \<Longrightarrow> ReadCommand (s @ b) = Inr (args, r @ b)"
  by (auto simp: ReadCommand_def readArray_def ReadByte_def readLine_more readInt_more readBulks_more
      split: sum.splits prod.splits list.splits if_splits)

text \<open>The commands at the head of a stream, and what follows them.\<close>

fun takes :: "string list list \<Rightarrow> string \<Rightarrow> string option" where
  "takes [] s = Some s"
| "takes (c # cs) s =
     (case ReadCommand s of Inl e \<Rightarrow> None | Inr (c', r) \<Rightarrow> if c' = c then takes cs r else None)"

lemma takes_append: "takes cs s = Some r \<Longrightarrow> takes (cs @ cs') s = takes cs' r"
  by (induction cs s rule: takes.induct) (auto split: sum.splits prod.splits if_splits)

lemma takes_more: "takes cs s = Some r \<Longrightarrow> takes cs (s @ b) = Some (r @ b)"
proof (induction cs arbitrary: s)
  case (Cons c cs)
  then obtain r1 where r1: "ReadCommand s = Inr (c, r1)" "takes cs r1 = Some r"
    by (auto split: sum.splits prod.splits if_splits)
  with ReadCommand_more [OF r1(1)] Cons.IH [OF r1(2)] show ?case by simp
qed simp

section \<open>What is said\<close>

text \<open>
  What goes out on a connection, in pieces: the answer to a command (a blank line is a command
  without words, and has none), a forwarded message, and the refusal of one client too many.
\<close>

datatype said =
    Answer "string list" string
  | Forward Message
  | Refusal

fun said_bytes :: "said \<Rightarrow> string" where
  "said_bytes (Answer args w) = w"
| "said_bytes (Forward m) = deliver_bytes m"
| "said_bytes Refusal = WriteError ''ERR max number of clients reached''"

definition says :: "said list \<Rightarrow> string" where
  "says ss = concat (map said_bytes ss)"

definition asked :: "said list \<Rightarrow> string list list" where
  "asked ss = concat (map (\<lambda>a. case a of Answer args w \<Rightarrow> [args] | _ \<Rightarrow> []) ss)"

lemma says_simps [simp]:
  "says [] = []" "says (ss @ ts) = says ss @ says ts" "says [a] = said_bytes a"
  by (simp_all add: says_def)

lemma asked_simps [simp]:
  "asked [] = []" "asked (ss @ ts) = asked ss @ asked ts" "asked [Answer args w] = [args]"
  "asked [Forward m] = []" "asked [Refusal] = []"
  by (simp_all add: asked_def)

text \<open>
  What the i-th connection may say in a state: the reply that \<^verbatim>\<open>Execute\<close> gives there to a command, the
  count of a publication whose sends are done, a message received, the refusal when all places are
  taken.
\<close>

fun apt :: "system \<Rightarrow> nat \<Rightarrow> said \<Rightarrow> bool" where
  "apt y i (Answer args w) \<longleftrightarrow>
     args = [] \<and> w = [] \<or>
     args \<noteq> [] \<and> (\<exists>e now n d cs err. env_ok e \<and>
       Execute e (server_deps now n (count_command (y_srv y))) (cl_conn (y_conns y ! i)) args = Some (d, cs, w, err)) \<or>
     (\<exists>name m n. args = [name, msg_Channel m, msg_Payload m] \<and> ToUpper name = ''PUBLISH'' \<and>
       cl_status (y_conns y ! i) = Publishing m [] n \<and> w = WriteInteger n)"
| "apt y i (Forward m) \<longleftrightarrow> m \<in> snd ` set (cl_hand (y_conns y ! i))"
| "apt y i Refusal \<longleftrightarrow> cl_status (admit (y_srv y)) = Rejected"

text \<open>
  What is said along the states \<open>ys\<close> of a run: at most one thing in each, in the order of the states.
\<close>

inductive spoken :: "nat \<Rightarrow> system list \<Rightarrow> said list \<Rightarrow> bool" for i where
  silent: "spoken i [] []"
| later: "spoken i ys ss \<Longrightarrow> spoken i (ys @ [y]) ss"
| speak: "spoken i ys ss \<Longrightarrow> apt y i a \<Longrightarrow> spoken i (ys @ [y]) (ss @ [a])"

lemma spoken_step:
  "spoken i ys ss \<Longrightarrow> ys' = ys @ [y] \<Longrightarrow> spoken i ys' ss"
  "spoken i ys ss \<Longrightarrow> ys' = ys @ [y] \<Longrightarrow> apt y i a \<Longrightarrow> spoken i ys' (ss @ [a])"
  by (auto intro: spoken.later spoken.speak)

lemma spoken_nil: "spoken i ys []"
  by (induction ys rule: rev_induct) (auto intro: spoken.silent spoken.later)

section \<open>Following the bytes that arrive\<close>

definition arrived_now :: "system \<Rightarrow> system \<Rightarrow> nat \<Rightarrow> string" where
  "arrived_now y y' i =
     (if i < length (y_conns y) \<and> prefix (cl_in (y_conns y ! i)) (cl_in (y_conns y' ! i))
      then drop (length (cl_in (y_conns y ! i))) (cl_in (y_conns y' ! i)) else [])"

text \<open>A run: the server as it is, the states before it, and what has come in on each connection.\<close>

record heard =
  h_sys :: system
  h_run :: "system list"
  h_in :: "nat \<Rightarrow> string"

definition hear :: "heard \<Rightarrow> system \<Rightarrow> heard" where
  "hear x y' =
     \<lparr>h_sys = y', h_run = h_run x @ [h_sys x], h_in = (\<lambda>i. h_in x i @ arrived_now (h_sys x) y' i)\<rparr>"

definition heard_step :: "heard \<Rightarrow> heard \<Rightarrow> bool" where
  "heard_step x x' \<longleftrightarrow> srv_step (h_sys x) (h_sys x') \<and> x' = hear x (h_sys x')"

definition heard_init :: "heard \<Rightarrow> bool" where
  "heard_init x \<longleftrightarrow> y_conns (h_sys x) = [] \<and> h_run x = [] \<and> h_in x = (\<lambda>i. [])"

text \<open>
  A connection whose writer works: all that has come in is the commands answered, the one being
  published, and what waits in the buffer. One whose writer has failed: the last piece may be cut.
\<close>

definition pub_msg :: "client \<Rightarrow> Message option" where
  "pub_msg c = (case cl_status c of Publishing m ps n \<Rightarrow> Some m | _ \<Rightarrow> None)"

definition reading :: "client \<Rightarrow> bool" where
  "reading c \<longleftrightarrow> cl_status c \<in> {Starting, Checking, Reading} \<or> pub_msg c \<noteq> None"

definition under_way :: "client \<Rightarrow> string list list \<Rightarrow> bool" where
  "under_way c pd \<longleftrightarrow> (case pub_msg c of
       None \<Rightarrow> pd = []
     | Some m \<Rightarrow> \<exists>name. ToUpper name = ''PUBLISH'' \<and> pd = [[name, msg_Channel m, msg_Payload m]])"

definition whole_talk :: "client \<Rightarrow> said list \<Rightarrow> string list list \<Rightarrow> string \<Rightarrow> bool" where
  "whole_talk c ss pd rest \<longleftrightarrow> cl_out c = says ss \<and> under_way c pd \<and> (reading c \<longrightarrow> rest = cl_in c)"

definition cut_talk :: "nat \<Rightarrow> system list \<Rightarrow> client \<Rightarrow> said list \<Rightarrow> bool" where
  "cut_talk i ys c ss \<longleftrightarrow> (\<exists>a k. spoken i ys (ss @ [a]) \<and> cl_out c = says ss @ take k (said_bytes a))"

definition talks :: "nat \<Rightarrow> system list \<Rightarrow> string \<Rightarrow> client \<Rightarrow> bool" where
  "talks i ys input c \<longleftrightarrow>
     (\<exists>ss pd rest. spoken i ys ss \<and> takes (asked ss @ pd) input = Some rest \<and>
        (if cl_broken c then cut_talk i ys c ss else whole_talk c ss pd rest))"

lemma talks_wholeE:
  assumes "talks i ys input c" "\<not> cl_broken c"
  obtains ss pd rest where "spoken i ys ss" "takes (asked ss @ pd) input = Some rest" "whole_talk c ss pd rest"
  using assms unfolding talks_def by auto

lemma talks_cutE:
  assumes "talks i ys input c" "cl_broken c"
  obtains ss pd rest where "spoken i ys ss" "takes (asked ss @ pd) input = Some rest" "cut_talk i ys c ss"
  using assms unfolding talks_def by auto

lemma talks_wholeI:
  assumes "\<not> cl_broken c" "spoken i ys ss" "takes (asked ss @ pd) input = Some rest" "whole_talk c ss pd rest"
  shows "talks i ys input c"
  using assms unfolding talks_def by auto

lemma talks_cutI:
  assumes "cl_broken c" "spoken i ys ss" "takes (asked ss @ pd) input = Some rest" "cut_talk i ys c ss"
  shows "talks i ys input c"
  using assms unfolding talks_def by auto

text \<open>Once its writer has failed, a connection says no more.\<close>

lemma talks_mute:
  assumes "talks i ys input c" "ys' = ys @ [y]" "cl_broken c" "cl_broken c'" "cl_out c' = cl_out c"
  shows "talks i ys' (input @ b) c'"
proof -
  obtain ss pd rest where t: "spoken i ys ss" "takes (asked ss @ pd) input = Some rest" "cut_talk i ys c ss"
    by (rule talks_cutE [OF assms(1,3)])
  have "cut_talk i ys' c' ss"
    using t(3) assms(5) spoken_step(1) [OF _ assms(2)] by (auto simp: cut_talk_def)
  with t(1,2) assms(4) show ?thesis by (blast intro: talks_cutI takes_more spoken_step(1) [OF _ assms(2)])
qed

text \<open>A step in which the connection says nothing, and more bytes may arrive.\<close>

lemma talks_same:
  assumes "talks i ys input c" "ys' = ys @ [y]" "cl_out c' = cl_out c" "cl_broken c' = cl_broken c"
    "cl_in c' = cl_in c @ b" "pub_msg c' = pub_msg c" "reading c' \<longrightarrow> reading c"
  shows "talks i ys' (input @ b) c'"
proof (cases "cl_broken c")
  case True
  with assms show ?thesis by (intro talks_mute [OF assms(1,2)]) simp_all
next
  case False
  obtain ss pd rest where t: "spoken i ys ss" "takes (asked ss @ pd) input = Some rest" "whole_talk c ss pd rest"
    by (rule talks_wholeE [OF assms(1) False])
  have "whole_talk c' ss pd (rest @ b)" using t(3) assms(3-7) by (auto simp: whole_talk_def under_way_def)
  with t(1,2) False assms(4) show ?thesis by (blast intro: talks_wholeI takes_more spoken_step(1) [OF _ assms(2)])
qed

text \<open>Something is said as a whole.\<close>

lemma talks_say:
  assumes "spoken i ys ss" "ys' = ys @ [y]" "apt y i a" "\<not> cl_broken c" "cl_out c = says ss"
    "takes (asked (ss @ [a]) @ pd) input = Some rest" "under_way c pd" "reading c \<longrightarrow> rest = cl_in c"
  shows "talks i ys' input (put_out (said_bytes a) c)"
  using assms(4-8)
  by (intro talks_wholeI [OF _ spoken_step(2) [OF assms(1-3)]])
    (auto simp: whole_talk_def under_way_def reading_def pub_msg_def)

lemma talks_mute_put:
  assumes "talks i ys input c" "ys' = ys @ [y]" "cl_broken c" "cl_broken c'" "cl_out c' = cl_out c"
  shows "talks i ys' input (put_out w c')" "talks i ys' input (fail_out k w c')"
  using talks_mute [OF assms(1-3), of _ "[]"] assms(4,5) by simp_all

text \<open>The writing of it fails.\<close>

lemma talks_cut:
  assumes "talks i ys input c" "ys' = ys @ [y]" "apt y i a" "cl_out c' = cl_out c" "cl_broken c' = cl_broken c"
  shows "talks i ys' input (fail_out k (said_bytes a) c')"
proof (cases "cl_broken c")
  case True
  with assms(4,5) show ?thesis by (intro talks_mute_put(2) [OF assms(1,2)]) simp_all
next
  case False
  obtain ss pd rest where t: "spoken i ys ss" "takes (asked ss @ pd) input = Some rest" "whole_talk c ss pd rest"
    by (rule talks_wholeE [OF assms(1) False])
  have "cut_talk i ys' (fail_out k (said_bytes a) c') ss"
    using t(3) spoken_step(2) [OF t(1) assms(2,3)] False assms(4,5) by (auto simp: cut_talk_def whole_talk_def)
  with t(1,2) show ?thesis by (intro talks_cutI [of _ i ys' ss pd input rest] spoken_step(1) [OF _ assms(2)]) simp_all
qed

section \<open>The invariant\<close>

definition heard_good :: "heard \<Rightarrow> bool" where
  "heard_good x \<longleftrightarrow>
     (\<forall>i<length (y_conns (h_sys x)). talks i (h_run x) (h_in x i) (y_conns (h_sys x) ! i)) \<and>
     (\<forall>i\<ge>length (y_conns (h_sys x)). h_in x i = [])"

lemma arrived_now_same: "cl_in (y_conns y' ! i) = cl_in (y_conns y ! i) \<Longrightarrow> arrived_now y y' i = []"
  by (simp add: arrived_now_def)

lemma arrived_beyond: "length (y_conns y) \<le> i \<Longrightarrow> arrived_now y y' i = []"
  by (simp add: arrived_now_def)

lemma h_in_hear [simp]: "h_in (hear x y') i = h_in x i @ arrived_now (h_sys x) y' i" "h_sys (hear x y') = y'"
  by (simp_all add: hear_def)

lemma h_run_hear: "h_run (hear x y') = h_run x @ [h_sys x]"
  by (simp add: hear_def)

lemma arrived_none:
  assumes "ReadCommand (cl_in (y_conns y ! i)) = Inr (args, cl_in (y_conns y' ! i))"
  shows "arrived_now y y' i = []"
  using ReadCommand_length [OF assms] by (auto simp: arrived_now_def dest: prefix_length_le)

lemma heard_quiet:
  assumes "heard_good x" "i < length (y_conns (h_sys x))" "y_conns y' ! i = y_conns (h_sys x) ! i"
  shows "talks i (h_run (hear x y')) (h_in (hear x y') i) (y_conns y' ! i)"
  using assms talks_same [OF _ h_run_hear, of i x "h_in x i" "y_conns (h_sys x) ! i" "y_conns y' ! i" "[]"]
  by (simp add: heard_good_def arrived_now_same)

lemma heard_set:
  assumes "heard_good x" "y' = set_client i c z" "y_conns z = y_conns (h_sys x)" "i < length (y_conns (h_sys x))"
    "talks i (h_run x) (h_in x i) (y_conns (h_sys x) ! i) \<Longrightarrow>
      talks i (h_run (hear x y')) (h_in x i @ arrived_now (h_sys x) y' i) c"
  shows "heard_good (hear x y')"
proof -
  have conns: "y_conns y' = (y_conns (h_sys x))[i := c]" by (simp add: assms(2,3) set_client_def)
  have "talks j (h_run (hear x y')) (h_in (hear x y') j) (y_conns y' ! j)" if j: "j < length (y_conns (h_sys x))" for j
  proof (cases "j = i")
    case True
    with assms(1,4,5) show ?thesis by (simp add: conns heard_good_def)
  next
    case False
    then show ?thesis by (intro heard_quiet [OF assms(1) j]) (simp add: conns)
  qed
  with assms(1) show ?thesis by (auto simp: heard_good_def conns arrived_beyond)
qed

lemma heard_still:
  assumes "heard_good x" "y_conns y' = y_conns (h_sys x)"
  shows "heard_good (hear x y')"
  using assms heard_quiet [OF assms(1)] by (auto simp: heard_good_def arrived_beyond)

text \<open>A command of the buffer, answered, or under way as a publication.\<close>

lemma heard_command:
  assumes "heard_good x" "y' = set_client i c' z" "y_conns z = y_conns (h_sys x)"
    "at (h_sys x) i Reading" "ReadCommand (cl_in (y_conns (h_sys x) ! i)) = Inr (args, rest)"
    "cl_in c' \<in> {rest, cl_in (y_conns (h_sys x) ! i)}"
    "talks i (h_run x) (h_in x i) (y_conns (h_sys x) ! i) \<Longrightarrow> talks i (h_run (hear x y')) (h_in x i) c'"
  shows "heard_good (hear x y')"
proof -
  have i: "i < length (y_conns (h_sys x))" using assms(4) by (simp add: at_def)
  then have "arrived_now (h_sys x) y' i = []"
    using assms(2,3,5,6) arrived_none [of "h_sys x" i args y'] by (auto simp: set_client_def arrived_now_same)
  with assms(7) show ?thesis by (intro heard_set [OF assms(1-3) i]) simp
qed

lemma talks_answered:
  assumes "talks i ys input c" "ys' = ys @ [y]" "apt y i (Answer args w)" "cl_out c' = cl_out c" "cl_broken c' = cl_broken c"
    "cl_status c = Reading" "ReadCommand (cl_in c) = Inr (args, rest)" "pub_msg c' = None" "reading c' \<longrightarrow> cl_in c' = rest"
  shows "talks i ys' input (put_out w c')"
proof (cases "cl_broken c")
  case True
  with assms(4,5) show ?thesis by (intro talks_mute_put(1) [OF assms(1,2)]) simp_all
next
  case False
  obtain ss pd r0 where t: "spoken i ys ss" "takes (asked ss @ pd) input = Some r0" "whole_talk c ss pd r0"
    by (rule talks_wholeE [OF assms(1) False])
  then have "pd = []" "r0 = cl_in c"
    using assms(6) by (auto simp: whole_talk_def under_way_def pub_msg_def reading_def)
  with t(2) assms(7) have "takes (asked (ss @ [Answer args w]) @ []) input = Some rest" by (simp add: takes_append)
  with t(3) assms(4,5,8,9) False show ?thesis
    using talks_say [OF t(1) assms(2,3), of c'] by (simp add: whole_talk_def under_way_def)
qed

lemma talks_forward:
  assumes "talks i ys input c" "ys' = ys @ [y]" "apt y i (Forward m)" "c' = c\<lparr>cl_hand := h\<rparr>"
  shows "talks i ys' input (put_out (deliver_bytes m) c')"
proof (cases "cl_broken c")
  case True
  with assms(4) show ?thesis by (intro talks_mute_put(1) [OF assms(1,2)]) simp_all
next
  case False
  obtain ss pd r0 where t: "spoken i ys ss" "takes (asked ss @ pd) input = Some r0" "whole_talk c ss pd r0"
    by (rule talks_wholeE [OF assms(1) False])
  with talks_say [OF t(1) assms(2,3), of c' pd input r0] False show ?thesis
    by (simp add: whole_talk_def under_way_def assms(4) reading_def pub_msg_def)
qed

lemma talks_publish:
  assumes "talks i ys input c" "ys' = ys @ [y]" "cl_out c' = cl_out c" "cl_broken c' = cl_broken c"
    "cl_status c = Reading" "ReadCommand (cl_in c) = Inr ([name, msg_Channel m, msg_Payload m], cl_in c')"
    "pub_msg c' = Some m" "ToUpper name = ''PUBLISH''"
  shows "talks i ys' input c'"
proof (cases "cl_broken c")
  case True
  with assms(4) talks_mute [OF assms(1,2) True _ assms(3), of "[]"] show ?thesis by simp
next
  case False
  obtain ss pd r0 where t: "spoken i ys ss" "takes (asked ss @ pd) input = Some r0" "whole_talk c ss pd r0"
    by (rule talks_wholeE [OF assms(1) False])
  then have "pd = []" "r0 = cl_in c"
    using assms(5) by (auto simp: whole_talk_def under_way_def pub_msg_def reading_def)
  then have "takes (asked ss @ [[name, msg_Channel m, msg_Payload m]]) input = Some (cl_in c')"
    using t(2) assms(6) by (simp add: takes_append)
  then show ?thesis
    using t(3) False assms(3,4,7,8)
    by (intro talks_wholeI [OF _ spoken_step(1) [OF t(1) assms(2)]]) (auto simp: whole_talk_def under_way_def)
qed

lemma talks_published:
  assumes "talks i ys input c" "ys' = ys @ [y]" "cl_out c' = cl_out c" "cl_broken c' = cl_broken c"
    "cl_status c = Publishing m [] n" "c = y_conns y ! i" "pub_msg c' = None" "cl_in c' = cl_in c"
  shows "talks i ys' input (put_out (WriteInteger n) c')" "talks i ys' input (fail_out k (WriteInteger n) c')"
proof -
  have "talks i ys' input (put_out (WriteInteger n) c') \<and> talks i ys' input (fail_out k (WriteInteger n) c')"
  proof (cases "cl_broken c")
    case True
    with assms(3,4) talks_mute_put [OF assms(1,2)] show ?thesis by simp
  next
    case False
    obtain ss pd r0 where t: "spoken i ys ss" "takes (asked ss @ pd) input = Some r0" "whole_talk c ss pd r0"
      by (rule talks_wholeE [OF assms(1) False])
    then obtain name where pd: "ToUpper name = ''PUBLISH''" "pd = [[name, msg_Channel m, msg_Payload m]]" "r0 = cl_in c"
      using assms(5) by (auto simp: whole_talk_def under_way_def pub_msg_def reading_def)
    let ?a = "Answer [name, msg_Channel m, msg_Payload m] (WriteInteger n)"
    have apt: "apt y i ?a" using pd(1) assms(5,6) by auto
    have "takes (asked (ss @ [?a]) @ []) input = Some (cl_in c)" using t(2) pd(2,3) by simp
    with talks_say [OF t(1) assms(2) apt, of c' "[]"] talks_cut [OF assms(1,2) apt assms(3,4)] t(3) False assms(3,4,7,8)
    show ?thesis by (simp add: whole_talk_def under_way_def)
  qed
  then show "talks i ys' input (put_out (WriteInteger n) c')" "talks i ys' input (fail_out k (WriteInteger n) c')"
    by simp_all
qed

lemma apt_round:
  assumes "env_ok e" "round_of y i e now n = Stop d cs w \<or> round_of y i e now n = Answered d cs w rest"
  shows "\<exists>args r. ReadCommand (cl_in (y_conns y ! i)) = Inr (args, r) \<and> apt y i (Answer args w) \<and>
    (round_of y i e now n = Answered d cs w rest \<longrightarrow> r = rest)"
  using assms by (auto simp: round_of_def serve_round_def split: sum.splits if_splits option.splits prod.splits)

text \<open>What the round of a connection says, and does not.\<close>

lemma heard_round:
  assumes good: "heard_good x" and y': "y' = set_client i c z" "y_conns z = y_conns (h_sys x)" and "at": "at (h_sys x) i Reading" and e: "env_ok e"
    and round: "round_of (h_sys x) i e now n = Stop d cs w \<and> mid = (y_conns (h_sys x) ! i)\<lparr>cl_status := Leaving, cl_conn := cs\<rparr> \<or>
      round_of (h_sys x) i e now n = Answered d cs w rest \<and>
      mid = (y_conns (h_sys x) ! i)\<lparr>cl_status := st, cl_in := rest, cl_conn := cs\<rparr> \<and> st \<in> {Checking, Leaving}"
    and c: "c = put_out w mid \<or> c = fail_out k w mid"
  shows "heard_good (hear x y')"
proof -
  let ?c = "y_conns (h_sys x) ! i"
  have "round_of (h_sys x) i e now n = Stop d cs w \<or> round_of (h_sys x) i e now n = Answered d cs w rest"
    using round by blast
  from apt_round [OF e this] obtain args r where r: "ReadCommand (cl_in ?c) = Inr (args, r)"
    "apt (h_sys x) i (Answer args w)" "round_of (h_sys x) i e now n = Answered d cs w rest \<longrightarrow> r = rest"
    by (elim exE conjE)
  have mid: "cl_out mid = cl_out ?c" "cl_broken mid = cl_broken ?c" "cl_in mid \<in> {r, cl_in ?c}" "pub_msg mid = None"
    "reading mid \<longrightarrow> cl_in mid = r" "cl_status ?c = Reading"
    using round r(3) "at" by (auto simp: pub_msg_def reading_def at_def)
  have said: "talks i (h_run (hear x y')) input c" if t: "talks i (h_run x) input ?c" for input
    using c talks_answered [OF t h_run_hear r(2) mid(1,2,6) r(1) mid(4,5)] talks_cut [OF t h_run_hear r(2) mid(1,2)] by auto
  have "cl_in c \<in> {r, cl_in ?c}" using c mid(3) by auto
  then show ?thesis by (rule heard_command [OF good y' "at" r(1) _ said])
qed

lemma heard_step_good:
  assumes good: "heard_good x" and step: "srv_step (h_sys x) y'"
  shows "heard_good (hear x y')"
proof -
  let ?y = "h_sys x"
  note set = heard_set [OF good] and still = heard_still [OF good]
  have same: "heard_good (hear x y')"
    if "y' = set_client i c z" "y_conns z = y_conns ?y" "i < length (y_conns ?y)" "cl_out c = cl_out (y_conns ?y ! i)"
      "cl_broken c = cl_broken (y_conns ?y ! i)" "cl_in c = cl_in (y_conns ?y ! i) @ b"
      "pub_msg c = pub_msg (y_conns ?y ! i)" "reading c \<longrightarrow> reading (y_conns ?y ! i)" for i c z b
  proof -
    have "arrived_now ?y y' i = b" using that(1-3,6) by (simp add: arrived_now_def set_client_def)
    with talks_same [OF _ h_run_hear that(4-8)] show ?thesis by (intro set [OF that(1-3)]) simp
  qed
  from step show ?thesis
  proof cases
    case accept
    let ?c = "admit (y_srv ?y)"
    have "talks i (h_run (hear x y')) [] ?c" if i: "i = length (y_conns ?y)" for i
    proof (cases "cl_status ?c = Rejected")
      case True
      then have "spoken i (h_run (hear x y')) ([] @ [Refusal])" by (intro spoken_step(2) [OF spoken_nil h_run_hear]) simp
      then show ?thesis
        using True by (intro talks_wholeI [of _ i _ "[Refusal]" "[]" "[]" "[]"])
          (auto simp: admit_def whole_talk_def under_way_def pub_msg_def split: if_splits)
    next
      case False
      then show ?thesis
        by (intro talks_wholeI [of _ i _ "[]" "[]" "[]" "[]"] spoken_nil)
          (auto simp: admit_def whole_talk_def under_way_def pub_msg_def split: if_splits)
    qed
    with good heard_quiet [OF good] show ?thesis
      by (simp add: heard_good_def accept(1) arrived_beyond nth_append less_Suc_eq)
  next
    case (arrive i bytes)
    then show ?thesis by (intro same [OF arrive(1)]) (auto simp: pub_msg_def reading_def)
  next
    case (hang_up i)
    then show ?thesis by (intro same [OF hang_up(1), of "[]"]) (auto simp: pub_msg_def reading_def)
  next
    case (start i)
    then show ?thesis by (intro same [OF start(1), of "[]"]) (auto simp: at_def pub_msg_def reading_def)
  next
    case (check_cancelled i)
    then show ?thesis by (intro same [OF check_cancelled(1), of "[]"]) (auto simp: at_def pub_msg_def reading_def)
  next
    case (check i)
    then show ?thesis by (intro same [OF check(1), of "[]"]) (auto simp: at_def pub_msg_def reading_def)
  next
    case (read_failed i e now n)
    then show ?thesis by (intro same [OF read_failed(1), of "[]"]) (auto simp: at_def pub_msg_def reading_def)
  next
    case (ignored i e now n rest)
    let ?c = "(y_conns ?y ! i)\<lparr>cl_status := Checking, cl_in := rest\<rparr>"
    have r: "ReadCommand (cl_in (y_conns ?y ! i)) = Inr ([], rest)"
      using ignored(4) by (auto simp: round_of_def serve_round_def split: sum.splits if_splits option.splits prod.splits)
    have "talks i (h_run (hear x y')) (h_in x i) (put_out [] ?c)" if "talks i (h_run x) (h_in x i) (y_conns ?y ! i)"
      using ignored(2) by (intro talks_answered [OF that h_run_hear _ _ _ _ r]) (auto simp: at_def pub_msg_def reading_def)
    moreover have "put_out [] ?c = ?c" by (simp add: put_out_def)
    ultimately show ?thesis by (intro heard_command [OF good ignored(1) _ ignored(2) r]) simp_all
  next
    case (answered i e now n d cs w rest)
    show ?thesis
      by (rule heard_round [OF good answered(1) _ answered(2,3), where mid = "(y_conns ?y ! i)\<lparr>cl_status := Checking, cl_in := rest, cl_conn := cs\<rparr>"])
        (use answered(4) in auto)
  next
    case (unflushed i e now n d cs w rest k)
    show ?thesis
      by (rule heard_round [OF good unflushed(1) _ unflushed(2,3), where mid = "(y_conns ?y ! i)\<lparr>cl_status := Leaving, cl_in := rest, cl_conn := cs\<rparr>"])
        (use unflushed(4) in auto)
  next
    case (stopped i e now n d cs w)
    show ?thesis
      by (rule heard_round [OF good stopped(1) _ stopped(2,3), where mid = "(y_conns ?y ! i)\<lparr>cl_status := Leaving, cl_conn := cs\<rparr>"])
        (use stopped(4) in auto)
  next
    case (stop_unflushed i e now n d cs w k)
    show ?thesis
      by (rule heard_round [OF good stop_unflushed(1) _ stop_unflushed(2,3), where mid = "(y_conns ?y ! i)\<lparr>cl_status := Leaving, cl_conn := cs\<rparr>"])
        (use stop_unflushed(4) in auto)
  next
    case (cut_short i e args rest part now n d cs w err k)
    let ?c = "(y_conns ?y ! i)\<lparr>cl_status := Leaving, cl_in := rest, cl_conn := cs\<rparr>"
    have "apt ?y i (Answer (args ! 0 # part) w)" using cut_short(3,6) by auto
    then have "talks i (h_run (hear x y')) (h_in x i) (fail_out k w ?c)" if "talks i (h_run x) (h_in x i) (y_conns ?y ! i)"
      using talks_cut [OF that h_run_hear, of "Answer (args ! 0 # part) w" ?c y' k] by simp
    then show ?thesis by (intro heard_command [OF good cut_short(1) _ cut_short(2,4)]) simp_all
  next
    case (publish i name channel payload rest ps)
    let ?m = "\<lparr>msg_Channel = channel, msg_Payload = payload\<rparr>"
    let ?c = "(y_conns ?y ! i)\<lparr>cl_status := Publishing ?m ps 0, cl_in := rest\<rparr>"
    have "talks i (h_run (hear x y')) (h_in x i) ?c" if "talks i (h_run x) (h_in x i) (y_conns ?y ! i)"
      using publish(2-4) by (intro talks_publish [OF that h_run_hear, of ?c name ?m]) (simp_all add: at_def pub_msg_def)
    then show ?thesis by (intro heard_command [OF good publish(1) _ publish(2,3)]) simp_all
  next
    case (send i m p ps n b sent)
    then show ?thesis by (intro same [OF send(1), of "[]"]) (auto simp: at_def pub_msg_def reading_def)
  next
    case (published i m n)
    let ?c = "(y_conns ?y ! i)\<lparr>cl_status := Checking\<rparr>"
    have "talks i (h_run (hear x y')) (h_in x i) (put_out (WriteInteger n) ?c)" if "talks i (h_run x) (h_in x i) (y_conns ?y ! i)"
      using published(2) by (intro talks_published(1) [OF that h_run_hear, of ?c m]) (simp_all add: at_def pub_msg_def)
    with published(2) show ?thesis
      by (intro set [OF published(1)]) (simp_all add: at_def arrived_now_same published(1) set_client_def)
  next
    case (publish_unflushed i m n k)
    let ?c = "(y_conns ?y ! i)\<lparr>cl_status := Leaving\<rparr>"
    have "talks i (h_run (hear x y')) (h_in x i) (fail_out k (WriteInteger n) ?c)" if "talks i (h_run x) (h_in x i) (y_conns ?y ! i)"
      using publish_unflushed(2) by (intro talks_published(2) [OF that h_run_hear, of ?c m]) (simp_all add: at_def pub_msg_def)
    with publish_unflushed(2) show ?thesis
      by (intro set [OF publish_unflushed(1)]) (simp_all add: at_def arrived_now_same publish_unflushed(1) set_client_def)
  next
    case (disconnected i e now n d cs)
    then show ?thesis by (intro same [OF disconnected(1), of "[]"]) (auto simp: at_def pub_msg_def reading_def)
  next
    case (receive i p b m)
    then show ?thesis by (intro same [OF receive(1), of "[]"]) (auto simp: pub_msg_def reading_def)
  next
    case (deliver i p m)
    let ?c = "(y_conns ?y ! i)\<lparr>cl_hand := remove1 (p, m) (cl_hand (y_conns ?y ! i))\<rparr>"
    have "apt ?y i (Forward m)" using deliver(5) by force
    then have "talks i (h_run (hear x y')) (h_in x i) (put_out (deliver_bytes m) ?c)" if "talks i (h_run x) (h_in x i) (y_conns ?y ! i)"
      using talks_forward [OF that h_run_hear] by blast
    with deliver(3) show ?thesis
      by (intro set [OF deliver(1)]) (simp_all add: arrived_now_same deliver(1) set_client_def)
  next
    case (deliver_fails i p m k)
    let ?c = "(y_conns ?y ! i)\<lparr>cl_hand := remove1 (p, m) (cl_hand (y_conns ?y ! i))\<rparr>"
    have "apt ?y i (Forward m)" using deliver_fails(5) by force
    then have "talks i (h_run (hear x y')) (h_in x i) (fail_out k (deliver_bytes m) ?c)" if "talks i (h_run x) (h_in x i) (y_conns ?y ! i)"
      using talks_cut [OF that h_run_hear, of "Forward m" ?c y' k] by simp
    with deliver_fails(3) show ?thesis
      by (intro set [OF deliver_fails(1)]) (simp_all add: arrived_now_same deliver_fails(1) set_client_def)
  next
    case (gone i)
    then show ?thesis by (intro same [OF gone(1), of "[]"]) (auto simp: at_def pub_msg_def reading_def)
  qed (intro still; simp)+
qed

interpretation heard: transition_invariant heard_init heard_step heard_good
proof
  show "heard_good x" if "heard_init x" for x
    using that by (auto simp: heard_init_def heard_good_def)
  show "heard_good x'" if "heard_good x" "heard_step x x'" for x x'
    using heard_step_good [OF that(1)] that(2) by (metis heard_step_def)
qed

text \<open>A run that ends in a state, with what has come in on one connection.\<close>

definition heard_to :: "heard \<Rightarrow> nat \<Rightarrow> system \<Rightarrow> string \<Rightarrow> bool" where
  "heard_to x0 i y w \<longleftrightarrow> (\<exists>x. heard_step\<^sup>*\<^sup>* x0 x \<and> h_sys x = y \<and> h_in x i = w)"

lemma heard_to_start: "heard_to x0 i (h_sys x0) (h_in x0 i)"
  by (auto simp: heard_to_def)

lemma heard_to_step:
  assumes "heard_to x0 i y w" "srv_step y y'" shows "heard_to x0 i y' (w @ arrived_now y y' i)"
proof -
  obtain x where x: "heard_step\<^sup>*\<^sup>* x0 x" "h_sys x = y" "h_in x i = w" using assms(1) by (auto simp: heard_to_def)
  then have "heard_step x (hear x y')" using assms(2) by (simp add: heard_step_def)
  with x show ?thesis unfolding heard_to_def
    by (intro exI [of _ "hear x y'"]) (auto intro: rtranclp.rtrancl_into_rtrancl)
qed

end
