(* ===== verification/Httpdemo.thy ===== *)
theory Httpdemo
  imports Server
begin

text \<open>
  The HTTP front end (\<^verbatim>\<open>cmd/httpdemo/main.go\<close>): its RESP client and the handlers of
  \<^verbatim>\<open>/set\<close>, \<^verbatim>\<open>/get\<close> and \<^verbatim>\<open>/info\<close>. The network is a function from the bytes sent on a new
  connection to the bytes received on it until its end, or a failure.
\<close>

section \<open>RESP client\<close>

datatype client_error = DialFailed | WriteFailed | EmptyReply | ReadError read_error

text \<open>
  \<^verbatim>\<open>fmt.Sscanf(s, "%d", &n)\<close> with \<^verbatim>\<open>n\<close> zero before: leading blanks, a sign, digits; what
  follows is not looked at, and \<^verbatim>\<open>n\<close> stays zero if there is no number or it does not fit.
\<close>

definition blank :: "char \<Rightarrow> bool" where
  "blank c \<longleftrightarrow> c \<in> {CHR '' '', CHR 0x09, CHR 0x0B, CHR 0x0C, CHR 0x0D}"

definition Sscanf_d :: "string \<Rightarrow> int" where
  "Sscanf_d s =
     (let t = dropWhile blank s;
          (sign, u) = (case t of
              c # r \<Rightarrow> if c = CHR ''-'' \<or> c = CHR ''+'' then ([c], r) else ([], t)
            | [] \<Rightarrow> ([], t))
      in case ParseInt (sign @ takeWhile isDigit u) of None \<Rightarrow> 0 | Some n \<Rightarrow> n)"

definition readFull :: "nat \<Rightarrow> string \<Rightarrow> read_error + string" where
  "readFull n s = (if n \<le> length s then Inr (take n s) else Inl EOF)"

definition readReply :: "string \<Rightarrow> client_error + string" where
  "readReply s =
     (case ReadString LF s of
        Inl err \<Rightarrow> Inl (ReadError err)
      | Inr (line, r) \<Rightarrow>
          let line = strip_eol line in
          if line = [] then Inl EmptyReply
          else if hd line \<in> {CHR ''+'', CHR '':'', CHR ''-''} then Inr line
          else if hd line = CHR ''$'' then
            (let n = Sscanf_d (tl line) in
             if n < 0 then Inr ''$-1''
             else if \<not> make_ok 1 (wrap64 (n + 2)) then Inl (ReadError MakePanic)
             else case readFull (nat (n + 2)) r of
               Inl err \<Rightarrow> Inl (ReadError err)
             | Inr buf \<Rightarrow> Inr (take (nat n) buf))
          else Inr line)"

type_synonym network = "string \<Rightarrow> client_error + string"

definition respCommand :: "network \<Rightarrow> string list \<Rightarrow> client_error + string" where
  "respCommand net cmds =
     (case net (''*'' @ FormatInt (int (length cmds)) @ CRLF @
         concat (map (\<lambda>s. ''$'' @ FormatInt (int (length s)) @ CRLF @ s @ CRLF) cmds)) of
        Inl err \<Rightarrow> Inl err
      | Inr received \<Rightarrow> readReply received)"

section \<open>Handlers\<close>

text \<open>A response body is a format with its \<^verbatim>\<open>%q\<close> arguments in place.\<close>

datatype piece = Lit string | Quoted string | ErrorText client_error

record response =
  http_status :: nat
  http_body :: "piece list"

definition writeErr :: "client_error \<Rightarrow> response" where
  "writeErr err = \<lparr>http_status = 500, http_body = [Lit ''{\"error\":'', ErrorText err, Lit ''}'']\<rparr>"

definition TrimPrefix_plus :: "string \<Rightarrow> string" where
  "TrimPrefix_plus s = (case s of c # r \<Rightarrow> if c = CHR ''+'' then r else s | [] \<Rightarrow> [])"

definition writeJSONorErr :: "client_error + string \<Rightarrow> response" where
  "writeJSONorErr r =
     (case r of
        Inl err \<Rightarrow> writeErr err
      | Inr reply \<Rightarrow>
          \<lparr>http_status = 200, http_body = [Lit ''{\"reply\":'', Quoted (TrimPrefix_plus reply), Lit ''}'']\<rparr>)"

definition key_required :: response where
  "key_required = \<lparr>http_status = 400, http_body = [Lit (''{\"error\":\"key required\"}'' @ [LF])]\<rparr>"

definition handleSet :: "network \<Rightarrow> string \<Rightarrow> string \<Rightarrow> response" where
  "handleSet net key value =
     (if key = [] then key_required
      else writeJSONorErr (respCommand net [''SET'', key, value]))"

definition handleGet :: "network \<Rightarrow> string \<Rightarrow> response" where
  "handleGet net key =
     (if key = [] then key_required
      else case respCommand net [''GET'', key] of
        Inl err \<Rightarrow> writeErr err
      | Inr reply \<Rightarrow>
          if reply = ''$-1''
          then \<lparr>http_status = 200, http_body = [Lit ''{\"key\":'', Quoted key, Lit '',\"found\":false}'']\<rparr>
          else \<lparr>http_status = 200, http_body = [Lit ''{\"key\":'', Quoted key, Lit '',\"value\":'',
            Quoted reply, Lit '',\"found\":true}'']\<rparr>)"

definition handleInfo :: "network \<Rightarrow> response" where
  "handleInfo net =
     (case respCommand net [''INFO''] of
        Inl err \<Rightarrow> writeErr err
      | Inr reply \<Rightarrow> \<lparr>http_status = 200, http_body = [Lit reply]\<rparr>)"

section \<open>The client reads what the server writes\<close>

lemma respCommand_bytes:
  "respCommand net cmds =
    (case net (WriteStringArray cmds) of Inl err \<Rightarrow> Inl err | Inr received \<Rightarrow> readReply received)"
proof -
  have "WriteBulkString = (\<lambda>s. ''$'' @ FormatInt (int (length s)) @ CRLF @ s @ CRLF)"
    by (simp add: WriteBulkString_def fun_eq_iff)
  then show ?thesis by (simp add: respCommand_def WriteStringArray_def WriteArrayHeader_def)
qed

lemma readReply_line:
  assumes "CR \<notin> set s" "LF \<notin> set s" "c \<in> {CHR ''+'', CHR '':'', CHR ''-''}"
  shows "readReply ((c # s) @ CRLF @ r) = Inr (c # s)"
proof -
  have c: "c \<noteq> CR" "c \<noteq> LF" using assms(3) by (auto simp: CR_def LF_def)
  have "ReadString LF ((c # s) @ CRLF @ r) = Inr ((c # s) @ CRLF, r)"
    using ReadString_delim [of LF "c # s @ [CR]" r] assms c by (simp add: CRLF_def)
  with strip_eol_line [of "c # s"] assms c show ?thesis
    by (auto simp: readReply_def)
qed

lemma Sscanf_FormatInt:
  assumes "0 \<le> n" "in_int64 n" shows "Sscanf_d (FormatInt n) = n"
proof -
  have digits: "\<forall>c\<in>set (FormatInt n). isDigit c"
    using assms(1) nat_dec_digits by (auto simp: FormatInt_def)
  obtain c cs where cs: "FormatInt n = c # cs" by (cases "FormatInt n") auto
  with digits have "isDigit c" by simp
  then have "\<not> blank c" "c \<noteq> CHR ''-''" "c \<noteq> CHR ''+''"
    by (auto simp: blank_def isDigit_def in_bytes_def)
  moreover have "takeWhile isDigit (FormatInt n) = FormatInt n" using digits by (simp add: takeWhile_eq_all_conv)
  ultimately show ?thesis using ParseInt_FormatInt [OF assms(2)] by (simp add: Sscanf_d_def cs)
qed

lemma readReply_bulk:
  assumes "int (length v) + 2 \<le> maxAlloc"
  shows "readReply (WriteBulkString v @ r) = Inr v"
proof -
  let ?n = "int (length v)" let ?line = "CHR ''$'' # FormatInt ?n"
  have no: "LF \<notin> set ?line" "CR \<notin> set ?line" by (simp_all add: CR_def LF_def) (simp_all flip: CR_def LF_def)
  have "ReadString LF (WriteBulkString v @ r) = Inr (?line @ CRLF, v @ CRLF @ r)"
    using ReadString_delim [of LF "?line @ [CR]" "v @ CRLF @ r"] no by (simp add: CRLF_def WriteBulkString_def)
  moreover have "strip_eol (?line @ CRLF) = ?line" by (rule strip_eol_line [OF no(2,1)])
  moreover have "in_int64 ?n" "wrap64 (?n + 2) = ?n + 2"
    using assms by (simp_all add: maxAlloc_def int64_defs wrap64_def)
  moreover have "nat (?n + 2) = length (v @ CRLF)" by (simp add: CRLF_def nat_add_distrib)
  ultimately show ?thesis using assms Sscanf_FormatInt [of ?n]
    by (simp add: readReply_def make_ok_def readFull_def)
qed

lemma readReply_null: "readReply (WriteNull @ r) = Inr ''$-1''"
proof -
  have "ReadString LF (WriteNull @ r) = Inr (''$-1'' @ CRLF, r)"
    using ReadString_delim [of LF "''$-1'' @ [CR]" r] by (simp add: WriteNull_def CRLF_def LF_def CR_def)
  moreover have "strip_eol (''$-1'' @ CRLF) = ''$-1''"
    using strip_eol_line [of "''$-1''"] by (simp add: CR_def LF_def)
  moreover have "Sscanf_d ''-1'' = -1"
    using ParseInt_FormatInt [of "-1"]
    by (simp add: Sscanf_d_def blank_def isDigit_def in_bytes_def FormatInt_def nat_dec.simps digit_char_def
        int64_defs char_eval)
  ultimately show ?thesis by (simp add: readReply_def)
qed

section \<open>A request through the server\<close>

text \<open>The network when the server alone is at the other end, in state \<open>d\<close>.\<close>

definition loopback :: "(nat \<Rightarrow> env) \<Rightarrow> deps \<Rightarrow> network" where
  "loopback envs d sent =
     (case serve_loop envs 0 d (new_conn True) sent of (d', cs', out, bad) \<Rightarrow> Inr out)"

definition state_after :: "(nat \<Rightarrow> env) \<Rightarrow> deps \<Rightarrow> string list \<Rightarrow> deps" where
  "state_after envs d cmds = fst (serve_loop envs 0 d (new_conn True) (WriteStringArray cmds))"

lemma serve_one_command:
  assumes "command_fits c" "cmd_ops c \<noteq> []"
  shows "serve_loop envs 0 d (new_conn True) (WriteStringArray c) =
    (let (s, rs) = run_list (envs 0) 0 (cmd_ops c) (d_Store d)
     in (log_all (logged c rs) (d\<lparr>d_Store := s\<rparr>), new_conn True, reply_of c rs, False))"
proof -
  have "c \<noteq> []" using assms(2) by (auto simp: cmd_ops_def)
  with assms serve_pipeline [of "[c]" envs 0 d "new_conn True"] Execute_ops [OF new_conn_mode assms(2), of "envs 0" d True]
  show ?thesis by (auto simp: Let_def case_prod_unfold)
qed

lemma cmd_ops_GET: "cmd_ops [''GET'', k] = [OpGet k]"
proof -
  have "ToUpper ''GET'' = ''GET''"
    by (rule ToUpper_fixed) (simp add: ascii_upper_def in_bytes_def)
  then show ?thesis by (simp add: cmd_ops_def ops_of_def guarded_def)
qed

text \<open>What is set through the front end is what is got through it.\<close>

lemma set_reply:
  assumes "fits k" "fits v"
  shows "respCommand (loopback envs d) [''SET'', k, v] = Inr ''+OK''"
    "state_after envs d [''SET'', k, v] =
      appendAOF (d\<lparr>d_Store := Store_Set (d_Store d) (clk (envs 0) 0) k v 0\<rparr>) [''SET'', k, v]"
proof -
  have "command_fits [''SET'', k, v]" using assms by (simp add: command_fits_def fits_def maxAlloc_def)
  moreover have up: "ToUpper ''SET'' = ''SET''"
    by (rule ToUpper_fixed) (simp add: ascii_upper_def in_bytes_def)
  ultimately have *: "serve_loop envs 0 d (new_conn True) (WriteStringArray [''SET'', k, v]) =
      (appendAOF (d\<lparr>d_Store := Store_Set (d_Store d) (clk (envs 0) 0) k v 0\<rparr>) [''SET'', k, v],
       new_conn True, WriteSimpleString ''OK'', False)"
    by (simp add: serve_one_command cmd_ops_SET logged_def logged_for_def reply_of_def reply_for_def
        render_def effective_def log_entry_def Let_def)
  then show "state_after envs d [''SET'', k, v] =
      appendAOF (d\<lparr>d_Store := Store_Set (d_Store d) (clk (envs 0) 0) k v 0\<rparr>) [''SET'', k, v]"
    by (simp add: state_after_def)
  from * readReply_line [of "''OK''" "CHR ''+''" "[]"]
  show "respCommand (loopback envs d) [''SET'', k, v] = Inr ''+OK''"
    by (simp add: respCommand_bytes loopback_def WriteSimpleString_def CR_def LF_def)
qed

lemma get_reply:
  assumes "fits k" "typed (d_Store d)" "view (d_Store d) (clk (envs 0) 0) k = Some (AStr v, t)"
    "int (length v) + 2 \<le> maxAlloc"
  shows "respCommand (loopback envs d) [''GET'', k] = Inr v"
proof -
  have "command_fits [''GET'', k]" using assms(1) by (simp add: command_fits_def fits_def maxAlloc_def)
  moreover have up: "ToUpper ''GET'' = ''GET''"
    by (rule ToUpper_fixed) (simp add: ascii_upper_def in_bytes_def)
  moreover have "snd (run_op po now (OpGet k) (d_Store d)) = RStr (Some v)"
    if "view (d_Store d) now k = Some (AStr v, t)" for po now
    using spec_Get [OF assms(2), of now k po] that by (simp add: ask_def prod_eq_iff)
  ultimately have "fst (snd (snd (serve_loop envs 0 d (new_conn True) (WriteStringArray [''GET'', k])))) =
      WriteBulkString v"
    using assms(3) by (simp add: serve_one_command cmd_ops_GET reply_of_def reply_for_def render_def
        Let_def case_prod_unfold)
  then have "loopback envs d (WriteStringArray [''GET'', k]) = Inr (WriteBulkString v)"
    by (simp add: loopback_def case_prod_unfold)
  with readReply_bulk [OF assms(4), of "[]"] show ?thesis by (simp add: respCommand_bytes)
qed

lemma set_then_get:
  assumes "fits k" "int (length v) + 2 \<le> maxAlloc" "k \<noteq> []" "v \<noteq> ''$-1''" "typed (d_Store d)"
  shows "handleSet (loopback envs d) k v =
      \<lparr>http_status = 200, http_body = [Lit ''{\"reply\":'', Quoted ''OK'', Lit ''}'']\<rparr>"
    and "handleGet (loopback envs' (state_after envs d [''SET'', k, v])) k =
      \<lparr>http_status = 200, http_body = [Lit ''{\"key\":'', Quoted k, Lit '',\"value\":'',
        Quoted v, Lit '',\"found\":true}'']\<rparr>"
proof -
  have v: "fits v" using assms(2) by (simp add: fits_def)
  show "handleSet (loopback envs d) k v =
      \<lparr>http_status = 200, http_body = [Lit ''{\"reply\":'', Quoted ''OK'', Lit ''}'']\<rparr>"
    using assms(3) set_reply(1) [OF assms(1) v]
    by (simp add: handleSet_def writeJSONorErr_def TrimPrefix_plus_def)
  let ?d = "state_after envs d [''SET'', k, v]"
  have "typed (d_Store ?d)" using set_reply(2) [OF assms(1) v] assms(5) by (simp add: typed_Set)
  moreover have "view (d_Store ?d) now k = Some (AStr v, 0)" for now
    using set_reply(2) [OF assms(1) v] assms(5)
    by (simp add: Store_Set_def view_put typed_ok expired_def abs_val_def)
  ultimately have "respCommand (loopback envs' ?d) [''GET'', k] = Inr v"
    using get_reply [OF assms(1) _ _ assms(2)] by blast
  with assms(3,4) show "handleGet (loopback envs' ?d) k =
      \<lparr>http_status = 200, http_body = [Lit ''{\"key\":'', Quoted k, Lit '',\"value\":'',
        Quoted v, Lit '',\"found\":true}'']\<rparr>"
    by (simp add: handleGet_def)
qed

end
