(* ===== verification/Mains.thy ===== *)
theory Mains
  imports Shutdown Httpdemo
begin

text \<open>
  The two programs: \<^verbatim>\<open>cmd/server/main.go\<close>, from the values of its flags to the running server, and
  \<^verbatim>\<open>cmd/httpdemo/main.go\<close>, which runs a server without a log behind the handlers of \<open>Httpdemo\<close>.
  The page of \<^verbatim>\<open>handleHome\<close> is a parameter.
\<close>

section \<open>The server\<close>

record flag_values =
  addr :: string
  shards_flag :: int
  sweep :: duration
  aofPath :: string
  maxClients :: int

definition default_flags :: flag_values where
  "default_flags = \<lparr>addr = '':6380'', shards_flag = 16, sweep = Second, aofPath = [], maxClients = 0\<rparr>"

definition main_config :: "flag_values \<Rightarrow> Config" where
  "main_config f =
     \<lparr>Addr = addr f, Shards = shards_flag f, SweepEvery = sweep f, AOFPath = aofPath f, MaxClients = maxClients f\<rparr>"

text \<open>\<open>Stuck\<close>: \<^verbatim>\<open>New\<close> panics or does not return; \<open>Fatal\<close>: \<^verbatim>\<open>log.Fatalf\<close>; \<open>Dies\<close>: a panic of the replay.\<close>

datatype process = Stuck | Fatal | Dies | Serves system

definition run_config ::
    "Config \<Rightarrow> time \<Rightarrow> (nat \<Rightarrow> env) \<Rightarrow> crash opened \<Rightarrow> bool \<Rightarrow> bool \<Rightarrow> process" where
  "run_config cfg now envs file opens listens =
     (case Server_New cfg now of
        None \<Rightarrow> Stuck
      | Some srv \<Rightarrow>
          (case Run_start envs file opens listens srv of
             StartFails \<Rightarrow> Fatal
           | StartPanics \<Rightarrow> Dies
           | Started y \<Rightarrow> Serves y))"

definition server_main ::
    "flag_values \<Rightarrow> time \<Rightarrow> (nat \<Rightarrow> env) \<Rightarrow> crash opened \<Rightarrow> bool \<Rightarrow> bool \<Rightarrow> process" where
  "server_main f = run_config (main_config f)"

text \<open>The configuration never changes, so a server without a limit never refuses a client.\<close>

lemma config_kept: "srv_step y y' \<Longrightarrow> srv_cfg (y_srv y') = srv_cfg (y_srv y)"
  by (erule srv_stepE) simp_all

lemma config_kept_steps: "srv_step\<^sup>*\<^sup>* y y' \<Longrightarrow> srv_cfg (y_srv y') = srv_cfg (y_srv y)"
  by (induction rule: rtranclp_induct) (simp_all add: config_kept)

lemma nextPow2_16: "nextPow2 16 = Some 16"
  by (simp add: nextPow2_def pow2_loop.simps [of _ 16] wrap64_def)

lemma sixteen_shards:
  assumes "AOFPath cfg = []" "Shards cfg = 16" "MaxClients cfg \<le> 0"
  shows "\<exists>y. run_config cfg now envs file opens True = Serves y \<and> sys_init y \<and>
    length (shards (srv_store (y_srv y))) = 16 \<and> srv_aof (y_srv y) = None \<and>
    (\<forall>y'. srv_step\<^sup>*\<^sup>* y y' \<longrightarrow> cl_status (admit (y_srv y')) = Starting)"
proof -
  obtain s where s: "Server_New cfg now = Some s" "length (shards (srv_store s)) = 16" "srv_aof s = None"
    "srv_cfg s = (if SweepEvery cfg \<le> 0 then cfg\<lparr>SweepEvery := Second\<rparr> else cfg)"
    using assms(2) by (cases "SweepEvery cfg \<le> 0")
      (simp_all add: Server_New_def Let_def Store_New_def nextPow2_16 make_ok_def maxAlloc_def)
  have "fresh s" by (rule Server_New_fresh [OF s(1)])
  moreover have "AOFPath (srv_cfg s) = []" "MaxClients (srv_cfg s) \<le> 0" using assms s(4) by simp_all
  ultimately show ?thesis using s
    by (auto simp: run_config_def Run_start_def sys_init_def fresh_def admit_def dest!: config_kept_steps)
qed

lemma default_server_serves:
  "\<exists>y. server_main default_flags now envs file opens True = Serves y \<and> sys_init y \<and>
    length (shards (srv_store (y_srv y))) = 16 \<and> srv_aof (y_srv y) = None \<and>
    (\<forall>y'. srv_step\<^sup>*\<^sup>* y y' \<longrightarrow> cl_status (admit (y_srv y')) = Starting)"
  unfolding server_main_def by (rule sixteen_shards) (simp_all add: main_config_def default_flags_def)

section \<open>The front end\<close>

definition respAddr :: string where
  "respAddr = ''127.0.0.1:16379''"

definition front_config :: Config where
  "front_config = \<lparr>Addr = respAddr, Shards = 16, SweepEvery = Second, AOFPath = [], MaxClients = 0\<rparr>"

definition listen_port :: "string \<Rightarrow> string" where
  "listen_port env = (if env = [] then ''8080'' else env)"

text \<open>\<open>dials i\<close>: the i-th attempt to connect succeeds. Without success the process exits.\<close>

primrec wait_loop :: "nat \<Rightarrow> nat \<Rightarrow> (nat \<Rightarrow> bool) \<Rightarrow> bool" where
  "wait_loop 0 i dials = False"
| "wait_loop (Suc n) i dials = (if dials i then True else wait_loop n (Suc i) dials)"

definition waitForResp :: "(nat \<Rightarrow> bool) \<Rightarrow> bool" where
  "waitForResp dials = wait_loop 50 0 dials"

lemma wait_loop_iff: "wait_loop n i dials \<longleftrightarrow> (\<exists>j<n. dials (i + j))"
proof (induction n arbitrary: i)
  case (Suc n)
  have "(\<exists>j<Suc n. dials (i + j)) \<longleftrightarrow> dials i \<or> (\<exists>j<n. dials (Suc i + j))"
    by (auto simp: less_Suc_eq_0_disj)
  with Suc show ?case by simp
qed simp

lemma waitForResp_iff: "waitForResp dials \<longleftrightarrow> (\<exists>i<50. dials i)"
  by (simp add: waitForResp_def wait_loop_iff)

text \<open>The routes of the multiplexer, for a request with a clean path and its query values.\<close>

definition handleHome :: "string \<Rightarrow> response" where
  "handleHome page = \<lparr>http_status = 200, http_body = [Lit page]\<rparr>"

definition routes :: "string \<Rightarrow> network \<Rightarrow> string \<Rightarrow> (string \<Rightarrow> string) \<Rightarrow> response" where
  "routes page net path query =
     (if path = ''/set'' then handleSet net (query ''key'') (query ''value'')
      else if path = ''/get'' then handleGet net (query ''key'')
      else if path = ''/info'' then handleInfo net
      else handleHome page)"

text \<open>A request is refused when its key is missing, and fails when the server cannot be asked.\<close>

lemma routes_status:
  "http_status (routes page net path query) =
     (if path \<in> {''/set'', ''/get''} \<and> query ''key'' = [] then 400
      else if path = ''/set'' \<and> isl (respCommand net [''SET'', query ''key'', query ''value'']) \<or>
              path = ''/get'' \<and> isl (respCommand net [''GET'', query ''key'']) \<or>
              path = ''/info'' \<and> isl (respCommand net [''INFO'']) then 500
      else 200)"
  by (auto simp: routes_def handleSet_def handleGet_def handleInfo_def handleHome_def writeJSONorErr_def
      writeErr_def key_required_def split: sum.splits)

end
