(* ===== verification/Examples.thy ===== *)
theory Examples
  imports Command_Reads Set_Options Rewrites Races Delivery Dialogue Mains
begin

text \<open>
  A small server with its clients and its log, for the concrete instances of the theorems.
\<close>

definition one_shard :: store where
  "one_shard = \<lparr>shards = [[]], mask = 0\<rparr>"

definition noon :: time where "noon = 63000000000000000000"

definition demo_env :: env where
  "demo_env = \<lparr>clk = (\<lambda>i. noon), ord = rev, sub_ord = rev\<rparr>"

definition demo_deps :: deps where
  "demo_deps = \<lparr>d_Store = one_shard, d_AOF = Some [], d_Broker = Broker_New, d_Stats = None, d_AOFI = None\<rparr>"

lemma New_one_shard: "Store_New 1 = Some one_shard"
proof -
  have "pow2_loop 1 1 = Some 1" by (subst pow2_loop.simps) simp
  then show ?thesis
    by (simp add: Store_New_def nextPow2_def make_ok_def maxAlloc_def one_shard_def)
qed

lemma one_shard_ok [simp]: "typed one_shard" "store_ok one_shard"
  using typed_New [OF New_one_shard] by (auto simp: typed_ok)

lemma noon_ok [simp]: "clock_ok noon" "0 < noon"
  by (simp_all add: noon_def clock_ok_def maxInt64_def)

lemma demo_env_ok [simp]: "env_ok demo_env"
  by (simp add: env_ok_def demo_env_def mono_def)

lemma demo_env_simps [simp]: "clk demo_env i = noon" "ord demo_env = rev"
  by (simp_all add: demo_env_def)

lemma demo_deps_ok [simp]: "deps_ok demo_deps" "d_Store demo_deps = one_shard" "d_AOF demo_deps = Some []"
  by (simp_all add: demo_deps_def deps_ok_def broker_ok_New)

lemma new_conn_ok [simp]: "conn_ok b (new_conn v)"
  by (simp add: conn_ok_def new_conn_def)

lemma view_one_shard [simp]: "view one_shard t = Map.empty"
  using Store_New_empty [OF New_one_shard] by (simp add: view_def getLive_def fun_eq_iff)

lemma upper_names [simp]:
  "ToUpper ''SET'' = ''SET''" "ToUpper ''INCR'' = ''INCR''" "ToUpper ''INCRBY'' = ''INCRBY''"
  "ToUpper ''DECRBY'' = ''DECRBY''" "ToUpper ''NX'' = ''NX''"
  by (rule ToUpper_fixed, simp add: ascii_upper_def in_bytes_def)+

lemma cmd_ops_INCR: "cmd_ops [''INCR'', k] = [OpIncrBy k 1]"
  by (simp add: cmd_ops_def ops_of_def guarded_def)

text \<open>A server with no clients, and one whose client announces a bulk string of negative length.\<close>

definition demo_server :: "int \<Rightarrow> Server" where
  "demo_server n =
     \<lparr>srv_cfg = \<lparr>Addr = '':6380'', Shards = 1, SweepEvery = Second, AOFPath = [], MaxClients = n\<rparr>,
      srv_store = one_shard, srv_broker = Broker_New, srv_aof = None,
      startedAt = noon, clients = 0, totalCommands = 0\<rparr>"

definition demo_system :: "int \<Rightarrow> system" where
  "demo_system n =
     \<lparr>y_srv = demo_server n, y_conns = [], y_phase = Accepting, y_cancelled = False, y_listening = True,
      y_sweeper = True, y_wg = 1, y_log_closed = False, y_panicked = False\<rparr>"

lemma demo_system_init [simp]: "sys_init (demo_system n)"
  by (simp add: sys_init_def demo_system_def demo_server_def broker_ok_New)

lemma demo_server_New:
  "Server_New \<lparr>Addr = '':6380'', Shards = 1, SweepEvery = Second, AOFPath = [], MaxClients = n\<rparr> noon = Some (demo_server n)"
  by (simp add: Server_New_def Let_def New_one_shard demo_server_def Second_def)

definition demo_client :: client where
  "demo_client = \<lparr>cl_status = Reading, cl_in = [], cl_eof = False, cl_out = [], cl_broken = False,
     cl_hand = [], cl_conn = new_conn True\<rparr>"

lemma demo_connects:
  assumes "clients v = 0" "MaxClients (srv_cfg v) = 0"
  shows "calm_step\<^sup>*\<^sup>* ((demo_system 0)\<lparr>y_srv := v\<rparr>)
    ((demo_system 0)\<lparr>y_srv := v\<lparr>clients := 1\<rparr>, y_conns := [demo_client\<lparr>cl_in := input\<rparr>], y_wg := 2\<rparr>)"
proof -
  let ?y = "\<lambda>n cs w. (demo_system 0)\<lparr>y_srv := v\<lparr>clients := n\<rparr>, y_conns := cs, y_wg := w\<rparr>"
  let ?c = "\<lambda>st. demo_client\<lparr>cl_status := st\<rparr>"
  have eof: "ReadCommand [] = Inl EOF" by (simp add: ReadCommand_def ReadByte_def)
  have s: "v\<lparr>clients := 0\<rparr> = v" using assms(1) by simp
  have "calm_step (?y 0 [] 1) (?y 0 [?c Starting] 2)"
    using srv_step.accept [of "?y 0 [] 1"] assms
    by (simp add: eof calm_step_def calm_def demo_system_def admit_def demo_client_def s)
  moreover have "calm_step (?y 0 [?c Starting] 2) (?y 1 [?c Checking] 2)"
    using srv_step.start [of "?y 0 [?c Starting] 2" 0]
    by (simp add: eof calm_step_def calm_def at_def set_client_def demo_system_def demo_client_def)
  moreover have "calm_step (?y 1 [?c Checking] 2) (?y 1 [demo_client] 2)"
    using srv_step.check [of "?y 1 [?c Checking] 2" 0]
    by (simp add: eof calm_step_def calm_def at_def set_client_def demo_system_def demo_client_def)
  moreover have "calm_step (?y 1 [demo_client] 2) (?y 1 [demo_client\<lparr>cl_in := input\<rparr>] 2)"
    using srv_step.arrive [of "?y 1 [demo_client] 2" 0 input]
    by (simp add: eof calm_step_def calm_def set_client_def demo_system_def demo_client_def)
  ultimately have "calm_step\<^sup>*\<^sup>* (?y 0 [] 1) (?y 1 [demo_client\<lparr>cl_in := input\<rparr>] 2)"
    by (meson rtranclp.rtrancl_into_rtrancl rtranclp.rtrancl_refl)
  moreover have "?y 0 [] 1 = (demo_system 0)\<lparr>y_srv := v\<rparr>" by (simp add: demo_system_def s)
  ultimately show ?thesis by simp
qed

lemma demo_connected:
  "\<exists>y. srv_step\<^sup>*\<^sup>* (demo_system 0) y \<and> y_conns y = [demo_client\<lparr>cl_in := input\<rparr>] \<and> \<not> y_panicked y"
proof -
  have "(demo_system 0)\<lparr>y_srv := demo_server 0\<rparr> = demo_system 0" by (simp add: demo_system_def)
  with demo_connects [of "demo_server 0" input]
  have "calm_step\<^sup>*\<^sup>* (demo_system 0) ((demo_system 0)\<lparr>y_srv := (demo_server 0)\<lparr>clients := 1\<rparr>,
    y_conns := [demo_client\<lparr>cl_in := input\<rparr>], y_wg := 2\<rparr>)" by (simp add: demo_server_def)
  then have "srv_step\<^sup>*\<^sup>* (demo_system 0) ((demo_system 0)\<lparr>y_srv := (demo_server 0)\<lparr>clients := 1\<rparr>,
    y_conns := [demo_client\<lparr>cl_in := input\<rparr>], y_wg := 2\<rparr>)"
    by (rule mono_rtranclp [rule_format, rotated]) (simp add: calm_step_def)
  then show ?thesis by (intro exI conjI) (assumption, simp_all add: demo_system_def)
qed

lemma demo_PING: "Execute e d (new_conn True) [''PING''] = Some (d, new_conn True, WriteSimpleString ''PONG'', None)"
proof -
  have "ToUpper ''PING'' = ''PING''" by (rule ToUpper_fixed) (simp add: ascii_upper_def in_bytes_def)
  then show ?thesis by (simp add: Execute_def InSubscribeMode_def new_conn_def)
qed

abbreviation demo_silence :: heard where
  "demo_silence \<equiv> \<lparr>h_sys = demo_system 0, h_run = [], h_in = (\<lambda>i. [])\<rparr>"

text \<open>The client sends a \<^verbatim>\<open>PING\<close> and gets its answer.\<close>

lemma demo_heard:
  "\<exists>x. heard_step\<^sup>*\<^sup>* demo_silence x \<and> h_in x 0 = enc_all [[''PING'']] \<and>
    y_conns (h_sys x) = [demo_client\<lparr>cl_status := Checking, cl_out := WriteSimpleString ''PONG''\<rparr>]"
proof -
  let ?P = "enc_all [[''PING'']]"
  let ?v = "\<lambda>n. (demo_server 0)\<lparr>clients := n\<rparr>"
  let ?y = "\<lambda>n cs w. (demo_system 0)\<lparr>y_srv := ?v n, y_conns := cs, y_wg := w\<rparr>"
  let ?z = "(?y 1 [demo_client\<lparr>cl_status := Checking, cl_out := WriteSimpleString ''PONG''\<rparr>] 2)
    \<lparr>y_srv := count_command (?v 1)\<rparr>"
  let ?c = "\<lambda>st. demo_client\<lparr>cl_status := st\<rparr>"
  let ?heard = "heard_to demo_silence 0"
  have rd: "ReadCommand ?P = Inr ([''PING''], [])"
    using ReadCommand_array [of "[''PING'']" "[]"] by (simp add: command_fits_def fits_def maxAlloc_def)
  note calc = at_def set_client_def demo_system_def demo_client_def arrived_now_def
  have "?heard (?y 0 [] 1) []"
    using heard_to_start [of demo_silence 0] by (simp add: demo_system_def demo_server_def)
  moreover have "srv_step (?y 0 [] 1) (?y 0 [?c Starting] 2)"
    using srv_step.accept [of "?y 0 [] 1"] by (simp add: calc admit_def demo_server_def)
  ultimately have "?heard (?y 0 [?c Starting] 2) []" by (fastforce dest: heard_to_step simp: calc)
  moreover have "srv_step (?y 0 [?c Starting] 2) (?y 1 [?c Checking] 2)"
    using srv_step.start [of "?y 0 [?c Starting] 2" 0] by (simp add: calc)
  ultimately have "?heard (?y 1 [?c Checking] 2) []" by (fastforce dest: heard_to_step simp: calc)
  moreover have "srv_step (?y 1 [?c Checking] 2) (?y 1 [demo_client] 2)"
    using srv_step.check [of "?y 1 [?c Checking] 2" 0] by (simp add: calc)
  ultimately have "?heard (?y 1 [demo_client] 2) []" by (fastforce dest: heard_to_step simp: calc)
  moreover have "srv_step (?y 1 [demo_client] 2) (?y 1 [demo_client\<lparr>cl_in := ?P\<rparr>] 2)"
    using srv_step.arrive [of "?y 1 [demo_client] 2" 0 ?P] by (simp add: calc)
  ultimately have "?heard (?y 1 [demo_client\<lparr>cl_in := ?P\<rparr>] 2) ?P" by (fastforce dest: heard_to_step simp: calc)
  moreover have "srv_step (?y 1 [demo_client\<lparr>cl_in := ?P\<rparr>] 2) ?z"
    using srv_step.answered [of "?y 1 [demo_client\<lparr>cl_in := ?P\<rparr>] 2" 0 demo_env noon 0
        "server_deps noon 0 (count_command (?v 1))" "new_conn True" "WriteSimpleString ''PONG''" "[]", OF _ demo_env_ok] rd
    by (simp add: calc round_of_def serve_round_def demo_PING log_use_ok_def put_deps_def put_out_def count_command_def
        demo_server_def)
  ultimately have "?heard ?z (?P @ arrived_now (?y 1 [demo_client\<lparr>cl_in := ?P\<rparr>] 2) ?z 0)" by (rule heard_to_step)
  moreover have "arrived_now (?y 1 [demo_client\<lparr>cl_in := ?P\<rparr>] 2) ?z 0 = []"
    using rd by (intro arrived_none [of _ _ "[''PING'']"]) (simp add: demo_client_def)
  ultimately show ?thesis by (auto simp: heard_to_def)
qed

lemma demo_INCR:
  "\<exists>d'. Execute demo_env demo_deps (new_conn True) [''INCR'', ''a''] = Some (d', new_conn True, WriteInteger 1, None)"
  by (simp add: Execute_ops cmd_ops_INCR Store_IncrBy_def getLive_def incr_entry_def would_overflow_def
      wrap64_def maxInt64_def one_shard_def sh_lookup_def shardFor_def reply_of_def reply_for_def render_def
      Let_def case_prod_unfold)

text \<open>Two clients: one has subscribed and is leaving, the other publishes.\<close>

lemma demo_publishing:
  "\<exists>y. srv_step\<^sup>*\<^sup>* (demo_system 0) y \<and> at y 0 Leaving \<and> 0 \<in> ptrs (cl_conn (y_conns y ! 0)) \<and>
    0 \<in> set (c_delivering (cl_conn (y_conns y ! 0))) \<and> cl_hand (y_conns y ! 0) = [] \<and>
    heap (srv_broker (y_srv y)) = [\<lparr>sub_Channel = ''c'', sub_C = [], sub_closed = False\<rparr>] \<and>
    at y 1 (Publishing \<lparr>msg_Channel = ''c'', msg_Payload = ''hi''\<rparr> [0] 0)"
proof -
  define V where "V b n tc = (demo_server 0)\<lparr>clients := n, srv_broker := b, totalCommands := tc\<rparr>" for b n tc
  define Y where "Y b cs n tc = (demo_system 0)\<lparr>y_srv := V b n tc,
    y_conns := cs, y_wg := 3\<rparr>" for b cs n tc
  define c where "c st input eof out cn = \<lparr>cl_status = st, cl_in = input, cl_eof = eof, cl_out = out,
    cl_broken = False, cl_hand = [], cl_conn = cn\<rparr>" for st input eof out cn
  let ?N = "new_conn True" and ?M = "\<lparr>c_Subs = [(''c'', 0)], c_Deliver = True, c_delivering = [0]\<rparr>"
  let ?msg = "\<lparr>msg_Channel = ''c'', msg_Payload = ''hi''\<rparr>"
  define B where "B = \<lparr>subs = [(''c'', [0])], heap = [\<lparr>sub_Channel = ''c'', sub_C = [], sub_closed = False\<rparr>]\<rparr>"
  define W where "W = writeSubscribeReply ''subscribe'' ''c'' 1"
  define S where "S = enc_all [[''SUBSCRIBE'', ''c'']]"
  define P where "P = enc_all [[''PUBLISH'', ''c'', ''hi'']]"
  have upper: "ToUpper ''SUBSCRIBE'' = ''SUBSCRIBE''" "ToUpper ''PUBLISH'' = ''PUBLISH''"
    by (rule ToUpper_fixed, simp add: ascii_upper_def in_bytes_def)+
  have rd: "ReadCommand S = Inr ([''SUBSCRIBE'', ''c''], [])" "ReadCommand P = Inr ([''PUBLISH'', ''c'', ''hi''], [])"
    "ReadCommand [] = Inl EOF"
    using ReadCommand_array [of "[''SUBSCRIBE'', ''c'']" "[]"] ReadCommand_array [of "[''PUBLISH'', ''c'', ''hi'']" "[]"]
    by (simp_all add: S_def P_def command_fits_def fits_def maxAlloc_def) (simp add: ReadCommand_def ReadByte_def)
  have Vs: "(V b n tc)\<lparr>clients := n'\<rparr> = V b n' tc" "(V b n tc)\<lparr>srv_broker := b'\<rparr> = V b' n tc"
    "(V b n tc)\<lparr>totalCommands := tc'\<rparr> = V b n tc'" "clients (V b n tc) = n" "srv_broker (V b n tc) = b"
    "totalCommands (V b n tc) = tc" "srv_aof (V b n tc) = None" "srv_store (V b n tc) = one_shard"
    "(V b n tc)\<lparr>srv_store := one_shard, srv_aof := None, srv_broker := b'\<rparr> = V b' n tc" for b n tc n' b' tc'
    by (simp_all add: V_def demo_server_def)
  have Ys: "y_srv (Y b cs n tc) = V b n tc"
    "y_conns (Y b cs n tc) = cs" "\<not> y_panicked (Y b cs n tc)" "\<not> y_cancelled (Y b cs n tc)"
    "\<not> y_log_closed (Y b cs n tc)" for b cs n tc
    by (simp_all add: Y_def demo_system_def)
  have up: "set_client i x ((Y b cs n tc)\<lparr>y_srv := V b' n' tc'\<rparr>) = Y b' (cs[i := x]) n' tc'" "set_client i x (Y b cs n tc) = Y b (cs[i := x]) n tc" for i x b cs n tc n' b' tc'
    by (simp_all add: set_client_def Y_def)
  note calc = at_def c_def Ys Vs up put_out_def
  have ex: "Execute demo_env (server_deps t k srv) ?N [''SUBSCRIBE'', ''c''] =
      Some ((server_deps t k srv)\<lparr>d_Broker := B\<rparr>, ?M, W, None)" if "srv_broker srv = Broker_New" for t k srv
    using that upper
    by (simp add: Execute_def InSubscribeMode_def new_conn_def data_handler_def cmdSubscribe_def Broker_Subscribe_def
        Broker_New_def subscribers_def B_def W_def Let_def gm_put_def List.insert_def)
  have "srv_step (demo_system 0) ((demo_system 0)\<lparr>y_conns := [c Starting [] False [] ?N], y_wg := 2\<rparr>)"
    using srv_step.accept [of "demo_system 0"] by (simp add: demo_system_def admit_def demo_server_def c_def)
  moreover have "srv_step ((demo_system 0)\<lparr>y_conns := [c Starting [] False [] ?N], y_wg := 2\<rparr>)
      (Y Broker_New [c Starting [] False [] ?N, c Starting [] False [] ?N] 0 0)"
    using srv_step.accept [of "(demo_system 0)\<lparr>y_conns := [c Starting [] False [] ?N], y_wg := 2\<rparr>"]
    by (simp add: demo_system_def admit_def demo_server_def c_def Y_def V_def)
  moreover have "srv_step (Y Broker_New [c Starting [] False [] ?N, c Starting [] False [] ?N] 0 0)
      (Y Broker_New [c Checking [] False [] ?N, c Starting [] False [] ?N] 1 0)"
    using srv_step.start [of "Y Broker_New [c Starting [] False [] ?N, c Starting [] False [] ?N] 0 0" 0] by (simp add: calc)
  moreover have "srv_step (Y Broker_New [c Checking [] False [] ?N, c Starting [] False [] ?N] 1 0)
      (Y Broker_New [c Checking [] False [] ?N, c Checking [] False [] ?N] 2 0)"
    using srv_step.start [of "Y Broker_New [c Checking [] False [] ?N, c Starting [] False [] ?N] 1 0" 1] by (simp add: calc)
  moreover have "srv_step (Y Broker_New [c Checking [] False [] ?N, c Checking [] False [] ?N] 2 0)
      (Y Broker_New [c Reading [] False [] ?N, c Checking [] False [] ?N] 2 0)"
    using srv_step.check [of "Y Broker_New [c Checking [] False [] ?N, c Checking [] False [] ?N] 2 0" 0] by (simp add: calc)
  moreover have "srv_step (Y Broker_New [c Reading [] False [] ?N, c Checking [] False [] ?N] 2 0)
      (Y Broker_New [c Reading [] False [] ?N, c Reading [] False [] ?N] 2 0)"
    using srv_step.check [of "Y Broker_New [c Reading [] False [] ?N, c Checking [] False [] ?N] 2 0" 1] by (simp add: calc)
  moreover have "srv_step (Y Broker_New [c Reading [] False [] ?N, c Reading [] False [] ?N] 2 0)
      (Y Broker_New [c Reading S False [] ?N, c Reading [] False [] ?N] 2 0)"
    using srv_step.arrive [of "Y Broker_New [c Reading [] False [] ?N, c Reading [] False [] ?N] 2 0" 0 S] by (simp add: calc)
  moreover have "srv_step (Y Broker_New [c Reading S False [] ?N, c Reading [] False [] ?N] 2 0)
      (Y Broker_New [c Reading S True [] ?N, c Reading [] False [] ?N] 2 0)"
    using srv_step.hang_up [of "Y Broker_New [c Reading S False [] ?N, c Reading [] False [] ?N] 2 0" 0] by (simp add: calc)
  moreover have "srv_step (Y Broker_New [c Reading S True [] ?N, c Reading [] False [] ?N] 2 0)
      (Y Broker_New [c Reading S True [] ?N, c Reading P False [] ?N] 2 0)"
    using srv_step.arrive [of "Y Broker_New [c Reading S True [] ?N, c Reading [] False [] ?N] 2 0" 1 P] by (simp add: calc)
  moreover have "srv_step (Y Broker_New [c Reading S True [] ?N, c Reading P False [] ?N] 2 0)
      (Y B [c Checking [] True W ?M, c Reading P False [] ?N] 2 1)"
    using srv_step.answered [of "Y Broker_New [c Reading S True [] ?N, c Reading P False [] ?N] 2 0" 0 demo_env noon 0
      "(server_deps noon 0 (V Broker_New 2 1))\<lparr>d_Broker := B\<rparr>" ?M W "[]", OF _ demo_env_ok]
    by (simp add: calc round_of_def serve_round_def rd ex count_command_def log_use_ok_def put_deps_def)
  moreover have "srv_step (Y B [c Checking [] True W ?M, c Reading P False [] ?N] 2 1)
      (Y B [c Reading [] True W ?M, c Reading P False [] ?N] 2 1)"
    using srv_step.check [of "Y B [c Checking [] True W ?M, c Reading P False [] ?N] 2 1" 0] by (simp add: calc)
  moreover have "srv_step (Y B [c Reading [] True W ?M, c Reading P False [] ?N] 2 1)
      (Y B [c Reading [] True W ?M, c (Publishing ?msg [0] 0) [] False [] ?N] 2 2)"
    using srv_step.publish [of "Y B [c Reading [] True W ?M, c Reading P False [] ?N] 2 1" 1 "''PUBLISH''" "''c''" "''hi''" "[]" "[0]"]
    by (simp add: calc rd upper InSubscribeMode_def new_conn_def B_def subscribers_def count_command_def)
  moreover have "srv_step (Y B [c Reading [] True W ?M, c (Publishing ?msg [0] 0) [] False [] ?N] 2 2)
      (Y B [c Leaving [] True W ?M, c (Publishing ?msg [0] 0) [] False [] ?N] 2 2)"
    using srv_step.read_failed [of "Y B [c Reading [] True W ?M, c (Publishing ?msg [0] 0) [] False [] ?N] 2 2" 0 demo_env noon 0]
    by (simp add: calc rd round_of_def serve_round_def waits_def)
  ultimately have "srv_step\<^sup>*\<^sup>* (demo_system 0) (Y B [c Leaving [] True W ?M, c (Publishing ?msg [0] 0) [] False [] ?N] 2 2)"
    by (meson rtranclp.rtrancl_into_rtrancl rtranclp.rtrancl_refl)
  then show ?thesis
    by (intro exI [of _ "Y B [c Leaving [] True W ?M, c (Publishing ?msg [0] 0) [] False [] ?N] 2 2"])
      (simp add: calc ptrs_def B_def)
qed

text \<open>A server with a log, and what a client's \<^verbatim>\<open>SET a 1\<close> makes of it.\<close>

definition demo_config :: Config where
  "demo_config = \<lparr>Addr = '':6380'', Shards = 1, SweepEvery = Second, AOFPath = ''volt.aof'', MaxClients = 0\<rparr>"

definition demo_logging :: Server where
  "demo_logging = (demo_server 0)\<lparr>srv_cfg := demo_config\<rparr>"

lemma demo_logging_New: "Server_New demo_config noon = Some demo_logging"
  by (simp add: Server_New_def Let_def New_one_shard demo_server_def demo_config_def demo_logging_def Second_def)

lemma demo_log:
  "\<exists>l. log_step\<^sup>*\<^sup>* \<lparr>lg = Log_Open [], base = [], hist = []\<rparr> l \<and> base l = [] \<and>
    hist l = [[''SET'', ''a'', ''1'']] \<and> pending (lg l) = []"
proof -
  let ?c = "[''SET'', ''a'', ''1'']" and ?l = "Log_Open []"
  let ?w = "Flush (writeCommand (l_w ?l) ?c)"
  let ?s = "\<lambda>l h. \<lparr>lg = l, base = [], hist = h\<rparr> :: logsys"
  have "log_step (?s ?l []) (?s (?l\<lparr>l_ch := [?c]\<rparr>) [?c])"
    using log_step.append [of "?s ?l []" ?c] by (simp add: Log_Append_def Log_Open_def ch_cap_def)
  moreover have "log_step (?s (?l\<lparr>l_ch := [?c]\<rparr>) [?c]) (?s (?l\<lparr>l_cur := Some ?c\<rparr>) [?c])"
    using log_step.receive [of "?s (?l\<lparr>l_ch := [?c]\<rparr>) [?c]"] by (simp add: writer_receive_def Log_Open_def)
  moreover have "log_step (?s (?l\<lparr>l_cur := Some ?c\<rparr>) [?c]) (?s (?l\<lparr>l_w := ?w\<rparr>) [?c])"
    using log_step.body [of "?s (?l\<lparr>l_cur := Some ?c\<rparr>) [?c]"] by (simp add: writer_body_def Log_Open_def)
  ultimately have "log_step\<^sup>*\<^sup>* (?s ?l []) (?s (?l\<lparr>l_w := ?w\<rparr>) [?c])"
    by (meson rtranclp.rtrancl_into_rtrancl rtranclp.rtrancl_refl)
  then show ?thesis by (intro exI conjI) (assumption, simp_all add: pending_def Log_Open_def)
qed

abbreviation demo_start :: system where
  "demo_start \<equiv> (demo_system 0)\<lparr>y_srv := demo_logging\<lparr>srv_aof := Some []\<rparr>\<rparr>"

lemma demo_starts: "starts_from [] demo_start"
proof -
  have "Run_start (\<lambda>n. demo_env) (Content (enc_all [])) True True demo_logging = Started demo_start"
    using replay_loop.simps [of "replay_apply (\<lambda>n. demo_env)" "[]"]
    by (simp add: Run_start_def replayAOF_def Replay_def ReadCommand_def ReadByte_def demo_logging_def demo_config_def
        demo_server_def demo_system_def)
  then show ?thesis unfolding starts_from_def using demo_logging_New
    by (intro exI [of _ demo_config] exI [of _ noon] exI [of _ demo_logging] exI [of _ "\<lambda>n. demo_env"])
      (simp add: demo_config_def)
qed

text \<open>A client connects, sends one command and gets its reply.\<close>

lemma demo_serves:
  assumes "command_fits c" "ttl_free c" "cmd_ops c \<noteq> []" "run_list demo_env 0 (cmd_ops c) one_shard = (s, rs)"
  shows "\<exists>y. calm_step\<^sup>*\<^sup>* demo_start y \<and> srv_aof (y_srv y) = Some (logged c rs) \<and> srv_store (y_srv y) = s"
proof -
  let ?v = "demo_logging\<lparr>srv_aof := Some []\<rparr>"
  let ?y = "(demo_system 0)\<lparr>y_srv := ?v\<lparr>clients := 1\<rparr>, y_conns := [demo_client\<lparr>cl_in := enc_all [c]\<rparr>], y_wg := 2\<rparr>"
  let ?d = "server_deps noon 0 (count_command (y_srv ?y))"
  have c: "c \<noteq> []" using assms(3) by (auto simp: cmd_ops_def)
  have rd: "ReadCommand (WriteStringArray c) = Inr (c, [])" using ReadCommand_array [of c "[]"] assms(1) c by simp
  have st: "srv_store demo_logging = one_shard" by (simp add: demo_logging_def demo_server_def)
  have log: "d_AOF (log_all cs d) = map_option (\<lambda>h. h @ cs) (d_AOF d) \<and> d_Store (log_all cs d) = d_Store d" for cs d
    by (induction cs arbitrary: d) (auto simp: option.map_comp comp_def option.map_ident)
  obtain d' w where d': "Execute demo_env ?d (new_conn True) c = Some (d', new_conn True, w, None)"
    "d_AOF d' = Some (logged c rs)" "d_Store d' = s"
    using assms(3,4) log by (simp add: Execute_ops st InSubscribeMode_def new_conn_def)
  have "at ?y 0 Reading" "log_use_ok ?y d'" "\<not> cl_broken (y_conns ?y ! 0)"
    by (simp_all add: at_def log_use_ok_def demo_system_def demo_client_def)
  moreover have "round_of ?y 0 demo_env noon 0 = Answered d' (new_conn True) w []"
    using d'(1) c by (simp add: round_of_def serve_round_def rd demo_client_def)
  ultimately obtain y where y: "srv_step ?y y" "srv_aof (y_srv y) = d_AOF d'" "srv_store (y_srv y) = d_Store d'"
    using srv_step.answered [OF _ demo_env_ok] by (fastforce simp: put_deps_def)
  have "calm_step ?y y" using y(1) assms(2) by (simp add: calm_step_def calm_def rd demo_client_def)
  with demo_connects [of ?v "enc_all [c]"] y(2,3) d'(2,3) show ?thesis
    by (intro exI [of _ y]) (simp add: demo_logging_def demo_server_def demo_config_def rtranclp.rtrancl_into_rtrancl)
qed

lemma demo_SET:
  "\<exists>y. calm_step\<^sup>*\<^sup>* demo_start y \<and> srv_aof (y_srv y) = Some [[''SET'', ''a'', ''1'']] \<and>
    srv_store (y_srv y) = Store_Set one_shard noon ''a'' ''1'' 0"
  using demo_serves [of "[''SET'', ''a'', ''1'']" "Store_Set one_shard noon ''a'' ''1'' 0" "[RNone]"]
  by (simp add: command_fits_def fits_def maxAlloc_def cmd_ops_SET ttl_free_def permanent_op_def logged_def
      logged_for_def effective_def log_entry_def)

definition demo_list :: store where
  "demo_list = sh_put one_shard ''a'' (entry0\<lparr>e_kind := KindList, e_list := [''x'']\<rparr>)"

lemma demo_RPUSH:
  "\<exists>y. calm_step\<^sup>*\<^sup>* demo_start y \<and> srv_aof (y_srv y) = Some [[''RPUSH'', ''a'', ''x'']] \<and>
    srv_store (y_srv y) = demo_list"
proof -
  let ?c = "[''RPUSH'', ''a'', ''x'']"
  have up: "ToUpper ''RPUSH'' = ''RPUSH''" by (rule ToUpper_fixed) (simp add: ascii_upper_def in_bytes_def)
  have ops: "cmd_ops ?c = [OpRPush ''a'' [''x'']]" using cmd_ops_RPUSH [of "[''x'']" "''a''"] by simp
  have "Store_RPush one_shard noon ''a'' [''x''] = (demo_list, Inr 1)"
    by (simp add: Store_RPush_def push_with_def getLive_def sh_lookup_def shardFor_def one_shard_def demo_list_def
        entry0_def)
  moreover have "logged ?c [RInt 1] = [?c]"
    unfolding logged_def ops by (simp add: up logged_for_def effective_def is_int_def log_entry_def)
  moreover have "command_fits ?c" "ttl_free ?c"
    by (simp_all add: command_fits_def fits_def maxAlloc_def ttl_free_def ops permanent_op_def)
  ultimately show ?thesis using demo_serves [of ?c demo_list "[RInt 1]"] by (simp add: ops)
qed

text \<open>What a rewrite makes of these two stores, and of the empty one.\<close>

abbreviation demo_rewrite :: "store \<Rightarrow> string list list" where
  "demo_rewrite s \<equiv> rewrite_commands rev (\<lambda>i. noon) (Store_SnapshotAll rev s noon)"

lemma demo_rewrites:
  "demo_rewrite one_shard = []"
  "demo_rewrite (Store_Set one_shard noon ''a'' ''1'' 0) = [[''SET'', ''a'', ''1'']]"
  "demo_rewrite demo_list = [[''RPUSH'', ''a'', ''x'']]"
  by (simp_all add: rewrite_commands_def Store_SnapshotAll_def gm_range_def gm_keys_def List.map_filter_def one_shard_def demo_list_def Store_Set_def
      sh_put_def shardFor_def snapshot_entry_def snapshotCommands_def expired_def entry0_def)

lemma demo_views [simp]:
  "view (Store_Set one_shard noon ''a'' ''1'' 0) noon ''a'' = Some (AStr ''1'', 0)"
  by (simp add: Store_Set_def view_put expired_def abs_val_def)

text \<open>The server with its log, and a rewrite: after, before and while a command is logged.\<close>

definition demo_kept :: kept where
  "demo_kept = \<lparr>p_sys = demo_start, p_log = \<lparr>lg = Log_Open [], base = [], hist = []\<rparr>, p_sent = 0,
     p_snap = None, p_base = [], p_exact = True\<rparr>"

lemma demo_kept_init [simp]: "kept_init [] demo_kept"
  by (simp add: kept_init_def demo_kept_def demo_starts log_init_def)

definition swapped :: "system \<Rightarrow> string list list \<Rightarrow> string list list \<Rightarrow> bool \<Rightarrow> Log \<Rightarrow> kept" where
  "swapped y B h b l = \<lparr>p_sys = y, p_log = \<lparr>lg = l, base = enc_all B, hist = h\<rparr>, p_sent = 1, p_snap = None,
     p_base = B, p_exact = b\<rparr>"

definition unswapped :: "system \<Rightarrow> Log \<Rightarrow> string list list \<Rightarrow> nat \<Rightarrow> (nat \<times> Snapshot list) option \<Rightarrow> kept" where
  "unswapped y l h n sn = \<lparr>p_sys = y, p_log = \<lparr>lg = l, base = [], hist = h\<rparr>, p_sent = n, p_snap = sn,
     p_base = [], p_exact = True\<rparr>"

abbreviation waiting :: "string list \<Rightarrow> Log" where
  "waiting c \<equiv> (Log_Open [])\<lparr>l_ch := [c]\<rparr>"

abbreviation flushed :: "string list \<Rightarrow> Log" where
  "flushed c \<equiv> (Log_Open [])\<lparr>l_w := Flush (writeCommand (NewFileWriter []) c)\<rparr>"

lemma demo_kept_start: "demo_kept = unswapped demo_start (Log_Open []) [] 0 None"
  by (simp add: unswapped_def demo_kept_def)

lemma wopen_flushed: "wopen (Flush (writeCommand (NewFileWriter []) c))"
  using Flush_ok(1) [OF conjunct1 [OF writeCommand_ok [OF NewFileWriter_ok(1), of "[]" c]]] by (simp add: writer_ok_iff)

lemma demo_snaps:
  "kept_step (unswapped y l h n None)
    (unswapped y l h n (Some (length (entries (unswapped y l h n None)), Store_SnapshotAll rev (srv_store (y_srv y)) noon)))"
  using kept_step.snaps [of rev "unswapped y l h n None" noon] by (simp add: unswapped_def)

lemma demo_logs:
  assumes "calm_step\<^sup>*\<^sup>* demo_start y" "srv_aof (y_srv y) = Some [c]"
  shows "entries (unswapped y l h n sn) = [c]"
    "kept_step\<^sup>*\<^sup>* (unswapped demo_start (Log_Open []) [] 0 sn) (unswapped y (waiting c) [c] 1 sn)"
    "kept_step\<^sup>*\<^sup>* (unswapped demo_start (Log_Open []) [] 0 sn) (unswapped y (flushed c) [c] 1 sn)"
proof -
  show ent: "entries (unswapped y l h n sn) = [c]" for l h n sn by (simp add: entries_def unswapped_def assms(2))
  have "kept_step\<^sup>*\<^sup>* (unswapped demo_start (Log_Open []) [] 0 sn) (unswapped y (Log_Open []) [] 0 sn)"
    using kept_serves [of "unswapped demo_start (Log_Open []) [] 0 sn" y] assms(1) by (simp add: unswapped_def)
  moreover have "kept_step (unswapped y (Log_Open []) [] 0 sn) (unswapped y (waiting c) [c] 1 sn)"
    using kept_sends [of "unswapped y (Log_Open []) [] 0 sn" "Log_Open []" c]
    by (simp add: ent) (simp add: unswapped_def Log_Open_def)
  ultimately show "kept_step\<^sup>*\<^sup>* (unswapped demo_start (Log_Open []) [] 0 sn) (unswapped y (waiting c) [c] 1 sn)"
    by (rule rtranclp.rtrancl_into_rtrancl)
  moreover have "kept_step\<^sup>*\<^sup>* (unswapped y (waiting c) [c] 1 sn) (unswapped y (flushed c) [c] 1 sn)"
    using kept_writes [of "unswapped y (waiting c) [c] 1 sn" "waiting c" c] by (simp add: unswapped_def Log_Open_def)
  ultimately show "kept_step\<^sup>*\<^sup>* (unswapped demo_start (Log_Open []) [] 0 sn) (unswapped y (flushed c) [c] 1 sn)"
    by (rule rtranclp_trans)
qed

lemma demo_rewrite_after:
  assumes "calm_step\<^sup>*\<^sup>* demo_start y" "srv_aof (y_srv y) = Some [c]"
  shows "kept_step\<^sup>*\<^sup>* demo_kept (swapped y (demo_rewrite (srv_store (y_srv y))) [] True
    (Log_Open (enc_all (demo_rewrite (srv_store (y_srv y))))))"
proof -
  let ?B = "demo_rewrite (srv_store (y_srv y))" and ?ps = "Store_SnapshotAll rev (srv_store (y_srv y)) noon"
  note ent = demo_logs(1) [OF assms]
  have "kept_step (unswapped y (flushed c) [c] 1 (Some (1, ?ps))) (swapped y ?B [] True (Log_Open (enc_all ?B)))"
    using kept_swaps [of "unswapped y (flushed c) [c] 1 (Some (1, ?ps))" 1 ?ps rev "flushed c" "\<lambda>i. noon"] wopen_flushed ent
    by (simp add: queued_def) (simp add: unswapped_def swapped_def Log_Open_def pending_def)
  moreover have "kept_step (unswapped y (flushed c) [c] 1 None) (unswapped y (flushed c) [c] 1 (Some (1, ?ps)))"
    using demo_snaps [of y "flushed c" "[c]" 1] by (simp add: ent)
  ultimately show ?thesis unfolding demo_kept_start
    using demo_logs(3) [OF assms, of None] by (meson rtranclp.rtrancl_into_rtrancl)
qed

lemma demo_rewrite_around:
  assumes "calm_step\<^sup>*\<^sup>* demo_start y" "srv_aof (y_srv y) = Some [c]"
  shows "kept_step\<^sup>*\<^sup>* demo_kept (swapped y [] [] False (Log_Open []))"
proof -
  let ?ps = "Store_SnapshotAll rev one_shard noon"
  have "kept_step (unswapped demo_start (Log_Open []) [] 0 None) (unswapped demo_start (Log_Open []) [] 0 (Some (0, ?ps)))"
    using demo_snaps [of demo_start "Log_Open []" "[]" 0]
    by (simp add: entries_def unswapped_def demo_logging_def demo_server_def)
  moreover have "kept_step (unswapped y (flushed c) [c] 1 (Some (0, ?ps))) (swapped y [] [] False (Log_Open []))"
    using kept_swaps [of "unswapped y (flushed c) [c] 1 (Some (0, ?ps))" 0 ?ps rev "flushed c" "\<lambda>i. noon"] wopen_flushed
      demo_logs(1) [OF assms]
    by (simp add: queued_def demo_rewrites(1)) (simp add: unswapped_def swapped_def Log_Open_def pending_def)
  ultimately show ?thesis unfolding demo_kept_start
    using demo_logs(3) [OF assms, of "Some (0, ?ps)"]
    by (meson converse_rtranclp_into_rtranclp rtranclp.rtrancl_into_rtrancl)
qed

lemma demo_rewrite_before:
  assumes "calm_step\<^sup>*\<^sup>* demo_start y" "srv_aof (y_srv y) = Some [c]"
  shows "\<exists>l. kept_step\<^sup>*\<^sup>* demo_kept (swapped y (demo_rewrite (srv_store (y_srv y))) [c] False l) \<and> pending l = []"
proof -
  let ?B = "demo_rewrite (srv_store (y_srv y))" and ?ps = "Store_SnapshotAll rev (srv_store (y_srv y)) noon"
  let ?n = "NewFileWriter (enc_all ?B)"
  let ?l = "(Log_Open [])\<lparr>l_w := Flush (writeCommand ?n c)\<rparr>"
  note ent = demo_logs(1) [OF assms]
  have "kept_step (unswapped y (waiting c) [c] 1 None) (unswapped y (waiting c) [c] 1 (Some (1, ?ps)))"
    using demo_snaps [of y "waiting c" "[c]" 1] by (simp add: ent)
  moreover have "kept_step (unswapped y (waiting c) [c] 1 (Some (1, ?ps))) (swapped y ?B [c] False ((waiting c)\<lparr>l_w := ?n\<rparr>))"
    using kept_swaps [of "unswapped y (waiting c) [c] 1 (Some (1, ?ps))" 1 ?ps rev "waiting c" "\<lambda>i. noon"] ent
    by (simp add: queued_def) (simp add: unswapped_def swapped_def Log_Open_def pending_def NewFileWriter_def)
  moreover have "kept_step\<^sup>*\<^sup>* (swapped y ?B [c] False ((waiting c)\<lparr>l_w := ?n\<rparr>)) (swapped y ?B [c] False ?l)"
    using kept_writes [of "swapped y ?B [c] False ((waiting c)\<lparr>l_w := ?n\<rparr>)" "(waiting c)\<lparr>l_w := ?n\<rparr>" c]
    by (simp add: swapped_def Log_Open_def)
  ultimately have "kept_step\<^sup>*\<^sup>* (unswapped y (waiting c) [c] 1 None) (swapped y ?B [c] False ?l)"
    by (meson converse_rtranclp_into_rtranclp)
  with demo_logs(2) [OF assms, of None] have "kept_step\<^sup>*\<^sup>* demo_kept (swapped y ?B [c] False ?l)"
    unfolding demo_kept_start by (rule rtranclp_trans)
  then show ?thesis by (intro exI conjI) (assumption, simp add: pending_def Log_Open_def)
qed

end
