(* ===== verification/Lasting.thy ===== *)
theory Lasting
  imports Server
begin

text \<open>
  The log and data with deadlines. Deadlines are logged as times to live, so a restart sets them
  anew; but as long as none of them is reached, neither in the run nor in the replay, the log
  rebuilds every key with its value.
\<close>

section \<open>Data apart from its deadlines\<close>

definition strip :: "db \<Rightarrow> db" where
  "strip db = (\<lambda>k. map_option (\<lambda>(v, t). (v, 0)) (db k))"

text \<open>An operation on such data.\<close>

definition strip_op :: "store_op \<Rightarrow> store_op" where
  "strip_op op =
     (case op of
        OpSet k v ttl \<Rightarrow> OpSet k v 0
      | OpSetNX k v ttl \<Rightarrow> OpSetNX k v 0
      | OpSetXX k v ttl \<Rightarrow> OpSetXX k v 0
      | OpExpire k ttl \<Rightarrow> if ttl < 0 then OpDel k else OpExists k
      | OpTTL k d \<Rightarrow> OpExists k
      | _ \<Rightarrow> op)"

lemma strip_simps [simp]:
  "strip (db(k \<mapsto> (v, t))) = (strip db)(k \<mapsto> (v, 0))" "strip (db(k := None)) = (strip db)(k := None)"
  "strip db k = None \<longleftrightarrow> db k = None" "strip Map.empty = Map.empty"
  by (auto simp: strip_def fun_eq_iff)

lemma strip_None: "db k = None \<Longrightarrow> strip db k = None"
  by simp

lemma strip_Some: "db k = Some (v, t) \<Longrightarrow> strip db k = Some (v, 0)"
  by (simp add: strip_def)

lemma strip_keep: "db k = Some (v, t) \<Longrightarrow> (strip db)(k \<mapsto> (v, 0)) = strip db"
  by (simp add: strip_def map_upd_triv)

lemma strip_value: "map_option fst (strip db k) = map_option fst (db k)"
  by (cases "db k") (auto simp: strip_def)

text \<open>The values an operation leaves depend on the values it finds, not on the deadlines.\<close>

lemma strip_spec_op: "strip (fst (spec_op now op db)) = fst (spec_op 0 (strip_op op) (strip db))"
proof -
  have change: "strip (fst (change proj fresh db k f)) = fst (change proj fresh (strip db) k f)"
    for proj :: "aval \<Rightarrow> 'x option" and fresh k f
    by (cases "db k") (auto simp: change_def strip_None strip_Some split: option.splits)
  show ?thesis
  proof (cases op)
    case (OpGetSet k v)
    then show ?thesis by (cases "db k") (auto simp: strip_op_def ask_def strip_None strip_Some split: option.splits)
  next
    case (OpIncrBy k d)
    then show ?thesis
      by (cases "db k") (auto simp: strip_op_def spec_incr_def Let_def strip_None strip_Some split: option.splits)
  next
    case (OpHDel k fs)
    then show ?thesis by (cases "db k") (auto simp: strip_op_def spec_hdel_def strip_None strip_Some split: option.splits
        dest: subsetD [OF _ domI])
  next
    case (OpLPop k)
    then show ?thesis by (cases "db k") (auto simp: strip_op_def spec_pop_def strip_None strip_Some split: option.splits)
  next
    case (OpRPop k)
    then show ?thesis by (cases "db k") (auto simp: strip_op_def spec_pop_def strip_None strip_Some split: option.splits)
  next
    case (OpExpire k ttl)
    then show ?thesis by (cases "db k") (auto simp: strip_op_def strip_None strip_keep fun_upd_idem_iff)
  next
    case (OpPersist k)
    then show ?thesis by (cases "db k") (auto simp: strip_op_def strip_None strip_Some)
  qed (simp_all add: strip_op_def change deadline_def)
qed

section \<open>Deadlines that are not reached\<close>

text \<open>No deadline before \<open>L\<close>; an operation that sets none less than \<open>D\<close> away.\<close>

definition far :: "time \<Rightarrow> db \<Rightarrow> bool" where
  "far L db \<longleftrightarrow> (\<forall>k v t. db k = Some (v, t) \<longrightarrow> t = 0 \<or> L \<le> t)"

definition lasting_op :: "duration \<Rightarrow> store_op \<Rightarrow> bool" where
  "lasting_op D op =
     (case op of
        OpSet k v ttl \<Rightarrow> ttl \<le> 0 \<or> D \<le> ttl
      | OpSetNX k v ttl \<Rightarrow> ttl \<le> 0 \<or> D \<le> ttl
      | OpSetXX k v ttl \<Rightarrow> ttl \<le> 0 \<or> D \<le> ttl
      | OpExpire k ttl \<Rightarrow> ttl < 0 \<or> D \<le> ttl
      | _ \<Rightarrow> True)"

definition lasting :: "duration \<Rightarrow> string list \<Rightarrow> bool" where
  "lasting D args \<longleftrightarrow> (\<forall>op\<in>set (cmd_ops args). lasting_op D op)"

lemma far_empty [simp]: "far L Map.empty"
  by (simp add: far_def)

lemma far_upd [simp]: "far L db \<Longrightarrow> t = 0 \<or> L \<le> t \<Longrightarrow> far L (db(k \<mapsto> (v, t)))" "far L db \<Longrightarrow> far L (db(k := None))"
  by (auto simp: far_def)

lemma farD: "far L db \<Longrightarrow> db k = Some (v, t) \<Longrightarrow> t = 0 \<or> L \<le> t"
  by (simp add: far_def)

lemma far_age: "far L db \<Longrightarrow> now \<le> L \<Longrightarrow> age now db = db"
  by (force simp: age_def far_def fun_eq_iff split: option.splits)

lemma far_spec_op:
  assumes "far L db" "lasting_op D op" "L \<le> now + D" shows "far L (fst (spec_op now op db))"
proof -
  have change: "far L (fst (change proj fresh db k f))" for proj :: "aval \<Rightarrow> 'x option" and fresh k f
    using assms(1) farD [OF assms(1)] by (auto simp: change_def split: option.splits)
  show ?thesis
    using assms farD [OF assms(1)]
    by (cases op) (auto simp: change lasting_op_def deadline_def spec_incr_def spec_hdel_def spec_pop_def Let_def
      split: option.splits result.splits)
qed

lemma spec_list_far:
  "far L db \<Longrightarrow> env_ok e \<Longrightarrow> \<forall>op\<in>set ops. lasting_op D op \<Longrightarrow> L \<le> clk e 0 + D \<Longrightarrow> clk e (i + length ops) \<le> L \<Longrightarrow>
    far L (fst (spec_list e i ops db)) \<and>
    strip (fst (spec_list e i ops db)) = fst (spec_ops (map strip_op ops) (strip db)) \<and>
    (inhabited db \<longrightarrow> \<not> list_ex (\<lambda>(op, r). effective op r) (zip ops (snd (spec_list e i ops db))) \<longrightarrow>
      fst (spec_list e i ops db) = db)"
proof (induction ops arbitrary: i db)
  case (Cons op ops)
  have clk: "clk e 0 \<le> clk e i" "clk e i \<le> clk e (i + length (op # ops))"
    using Cons.prems(2) by (simp_all add: env_ok_def monoD)
  obtain db1 r where 1: "spec_op (clk e i) op db = (db1, r)" by (cases "spec_op (clk e i) op db")
  have age: "age (clk e i) db = db" using far_age [OF Cons.prems(1)] clk Cons.prems(5) by simp
  have far: "far L db1" using far_spec_op [OF Cons.prems(1), of D op "clk e i"] Cons.prems(3,4) clk(1) by (simp add: 1)
  have strip: "strip db1 = fst (spec_op 0 (strip_op op) (strip db))" using strip_spec_op [of "clk e i" op db] by (simp add: 1)
  note IH = Cons.IH [OF far Cons.prems(2) _ Cons.prems(4), of "Suc i"]
  have "db1 = db" if "inhabited db" "\<not> effective op r" using ineffective [OF that(1) 1 that(2)] .
  with IH Cons.prems(3,5) strip show ?case
    by (simp add: Let_def case_prod_unfold age 1) blast
qed simp

section \<open>The log\<close>

definition replay_values :: "string list list \<Rightarrow> db \<Rightarrow> db" where
  "replay_values cmds db = fold (\<lambda>c db. fst (spec_ops (map strip_op (cmd_ops c)) db)) cmds db"

lemma replay_values_simps [simp]:
  "replay_values [] db = db"
  "replay_values (c # cs) db = replay_values cs (fst (spec_ops (map strip_op (cmd_ops c)) db))"
  "replay_values (cs @ cs') db = replay_values cs' (replay_values cs db)"
  by (simp_all add: replay_values_def)

lemma replay_values_mset:
  "replay_values (map plain_set (map (\<lambda>(k, v). OpSet k v 0) kvs)) db =
    fst (spec_ops (map strip_op (map (\<lambda>(k, v). OpSet k v 0) kvs)) db)"
  by (induction kvs arbitrary: db)
    (auto simp: plain_set_def strip_op_def cmd_ops_SET Let_def case_prod_unfold)

text \<open>What is logged for a command does to the values what the command did.\<close>

lemma replay_values_logged:
  assumes "far L db" "inhabited db" "env_ok e" "lasting D args" "L \<le> clk e 0 + D" "clk e (length (cmd_ops args)) \<le> L"
  shows "replay_values (logged args (snd (spec_list e 0 (cmd_ops args) db))) (strip db) =
    strip (fst (spec_list e 0 (cmd_ops args) db))"
proof -
  let ?ops = "cmd_ops args" let ?rs = "snd (spec_list e 0 ?ops db)"
  have run: "strip (fst (spec_list e 0 ?ops db)) = fst (spec_ops (map strip_op ?ops) (strip db))"
    "\<not> list_ex (\<lambda>(op, r). effective op r) (zip ?ops ?rs) \<Longrightarrow> fst (spec_list e 0 ?ops db) = db"
    using spec_list_far [OF assms(1,3), of ?ops D 0] assms by (simp_all add: lasting_def)
  show ?thesis
  proof (cases "ToUpper (args ! 0) = ''MSET''")
    case True
    then obtain kvs where "?ops = map (\<lambda>(k, v). OpSet k v 0) kvs" using MSET_cmd_ops by blast
    with True replay_values_mset [of kvs "strip db"] run(1) show ?thesis
      by (simp only: logged_def logged_for_def if_True simp_thms)
  next
    case False
    show ?thesis
    proof (cases "list_ex (\<lambda>(op, r). effective op r) (zip ?ops ?rs)")
      case False
      with \<open>ToUpper _ \<noteq> _\<close> run(2) show ?thesis by (simp add: logged_def logged_for_def)
    next
      case True
      then obtain op ops where ops: "?ops = op # ops" by (cases ?ops) auto
      have "clk e 0 \<le> clk e (length ?ops)" using assms(3) by (simp add: env_ok_def monoD)
      then have age: "age (clk e 0) db = db" using far_age [OF assms(1)] assms(6) by simp
      obtain db1 r where 1: "spec_op (clk e 0) op db = (db1, r)" by (cases "spec_op (clk e 0) op db")
      have hd: "hd ?rs = r" by (simp add: ops 1 age Let_def case_prod_unfold)
      have log: "logged args ?rs = [log_entry args op r]"
        using True \<open>ToUpper _ \<noteq> _\<close> hd by (simp add: logged_def logged_for_def) (simp add: ops)
      have single: "ops = []" if "(\<exists>k v. op = OpGetSet k v) \<or> (\<exists>k d. op = OpIncrBy k d)"
        using ops_of_single [of "ToUpper (args ! 0)" args op ops] ops that
        by (simp add: cmd_ops_def split: if_splits)
      consider (getset) k v where "op = OpGetSet k v" | (incr) k d n where "op = OpIncrBy k d" "r = RInt n"
        | (same) "log_entry args op r = args"
        by (cases op; cases r) (auto simp: log_entry_def)
      then show ?thesis
      proof cases
        case getset
        with True single 1 show ?thesis unfolding log
          by (auto simp: ops age log_entry_def cmd_ops_SET strip_op_def deadline_def effective_def is_str_def ask_def
              Let_def split: option.splits result.splits)
      next
        case incr
        with single 1 show ?thesis unfolding log
          by (auto simp: ops age log_entry_def cmd_ops_SET strip_op_def deadline_def spec_incr_def Let_def
              split: option.splits if_splits)
      next
        case same
        with run(1) show ?thesis by (simp add: log)
      qed
    qed
  qed
qed

lemma logged_lasting: "lasting D args \<Longrightarrow> c \<in> set (logged args rs) \<Longrightarrow> lasting D c"
proof -
  assume free: "lasting D args" and c: "c \<in> set (logged args rs)"
  have "(\<exists>k v. c = [''SET'', k, v]) \<or> c = args"
  proof (cases "ToUpper (args ! 0) = ''MSET''")
    case True
    then obtain kvs where "cmd_ops args = map (\<lambda>(k, v). OpSet k v 0) kvs"
      using MSET_cmd_ops by blast
    with c True show ?thesis by (auto simp: logged_def logged_for_def plain_set_def)
  next
    case False
    with c obtain op r where "c = log_entry args op r"
      by (auto simp: logged_def logged_for_def split: if_splits)
    with log_entry_cases [of args op r] show ?thesis by auto
  qed
  with free show ?thesis by (auto simp: lasting_def cmd_ops_SET lasting_op_def)
qed

lemma cmd_ops_EXPIRE:
  assumes "in_int64 n" "wrap64 (n * Second) = n * Second"
  shows "cmd_ops [''EXPIRE'', k, FormatInt n] = [OpExpire k (n * Second)]"
proof -
  have "ToUpper ''EXPIRE'' = ''EXPIRE''" by (rule ToUpper_fixed) (simp add: ascii_upper_def in_bytes_def)
  then show ?thesis
    using ParseInt_FormatInt [OF assms(1)] assms(2) by (simp add: cmd_ops_def ops_of_def guarded_def with_int_def)
qed

section \<open>Histories\<close>

text \<open>Time does not run backwards, and no command sets a deadline less than \<open>D\<close> away.\<close>

fun hist_lasts :: "duration \<Rightarrow> time \<Rightarrow> event list \<Rightarrow> bool" where
  "hist_lasts D t [] = True"
| "hist_lasts D t ((e, cs, args) # xs) =
     (env_ok e \<and> t \<le> clk e 0 \<and> lasting D args \<and> hist_lasts D (clk e (length (cmd_ops args))) xs)"

text \<open>The store shows the values \<open>vs\<close>, from time \<open>t\<close> up to \<open>L\<close>.\<close>

definition shows_values :: "time \<Rightarrow> time \<Rightarrow> deps \<Rightarrow> db \<Rightarrow> bool" where
  "shows_values L t d vs \<longleftrightarrow>
     typed (d_Store d) \<and> t \<le> L \<and> far L (view (d_Store d) t) \<and> strip (view (d_Store d) t) = vs"

lemma shows_values_view:
  "shows_values L t d vs \<Longrightarrow> t \<le> T \<Longrightarrow> T \<le> L \<Longrightarrow> map_option fst (view (d_Store d) T k) = map_option fst (vs k)"
  using view_age [of t T "d_Store d"] far_age [of L "view (d_Store d) t" T] strip_value [of "view (d_Store d) t" k]
  by (auto simp: shows_values_def)

lemma shows_values_later:
  "shows_values L t d vs \<Longrightarrow> t \<le> t' \<Longrightarrow> t' \<le> L \<Longrightarrow> d_Store d' = d_Store d \<Longrightarrow> shows_values L t' d' vs"
  using view_age [of t t' "d_Store d"] far_age [of L "view (d_Store d) t" t'] by (simp add: shows_values_def)

lemma exec_step_values:
  assumes "shows_values L t d vs" "env_ok e" "t \<le> clk e 0" "lasting D args" "L \<le> t + D"
    "clk e (length (cmd_ops args)) \<le> L" "\<not> InSubscribeMode cs" "cmd_ops args \<noteq> []"
  shows "shows_values L (clk e (length (cmd_ops args))) (exec_step (e, cs, args) d)
      (fst (spec_ops (map strip_op (cmd_ops args)) vs))"
    and "\<exists>new. d_AOF (exec_step (e, cs, args) d) = map_option (\<lambda>h. h @ new) (d_AOF d) \<and>
      (\<forall>c\<in>set new. lasting D c \<and> cmd_ops c \<noteq> []) \<and>
      replay_values new vs = fst (spec_ops (map strip_op (cmd_ops args)) vs)"
proof -
  let ?ops = "cmd_ops args" and ?s = "d_Store d" and ?n = "clk e (length (cmd_ops args))"
  let ?db = "view ?s t"
  have s: "typed ?s" "far L ?db" "strip ?db = vs" using assms(1) by (auto simp: shows_values_def)
  have ops: "\<forall>op\<in>set ?ops. op_ok op" using cmd_ops_ok by blast
  have clk: "clk e j \<le> ?n" if "j \<le> length ?ops" for j using assms(2) that by (simp add: env_ok_def monoD)
  have "\<forall>T\<ge>t. view ?s T = age T ?db" using view_age [of t _ ?s] by blast
  note runs = spec_run_list [OF s(1) assms(2) ops assms(3) this]
  have "\<forall>j<length ?ops. clk e (0 + j) \<le> ?n" "t \<le> ?n" using clk order_trans [OF assms(3) clk] by simp_all
  with runs have run: "snd (run_list e 0 ?ops ?s) = snd (spec_list e 0 ?ops ?db)"
    "view (fst (run_list e 0 ?ops ?s)) ?n = age ?n (fst (spec_list e 0 ?ops ?db))" by blast+
  have far: "far L (fst (spec_list e 0 ?ops ?db))" "strip (fst (spec_list e 0 ?ops ?db)) = fst (spec_ops (map strip_op ?ops) vs)"
    using spec_list_far [OF s(2) assms(2), of ?ops D 0] assms(3-6) s(3) by (simp_all add: lasting_def)
  have step: "exec_step (e, cs, args) d = log_all (logged args (snd (run_list e 0 ?ops ?s)))
      (d\<lparr>d_Store := fst (run_list e 0 ?ops ?s)\<rparr>)"
    using Execute_ops [OF assms(7,8), of e d] by (simp add: exec_step_def Let_def case_prod_unfold)
  have "view (fst (run_list e 0 ?ops ?s)) ?n = fst (spec_list e 0 ?ops ?db)"
    unfolding run(2) by (rule far_age [OF far(1) assms(6)])
  with far assms(6) typed_run_list [OF s(1) assms(2) ops]
  show "shows_values L ?n (exec_step (e, cs, args) d) (fst (spec_ops (map strip_op ?ops) vs))"
    by (simp add: step shows_values_def)
  have "replay_values (logged args (snd (spec_list e 0 ?ops ?db))) (strip ?db) = strip (fst (spec_list e 0 ?ops ?db))"
    using assms(3,5) by (intro replay_values_logged [OF s(2) inhabited_view [OF s(1)] assms(2,4) _ assms(6)]) simp
  then have "replay_values (logged args (snd (spec_list e 0 ?ops ?db))) vs = fst (spec_ops (map strip_op ?ops) vs)"
    by (simp only: s(3) far(2))
  moreover have "d_AOF (exec_step (e, cs, args) d) = map_option (\<lambda>h. h @ logged args (snd (spec_list e 0 ?ops ?db))) (d_AOF d)"
    by (simp add: step run(1))
  moreover have "\<forall>c\<in>set (logged args (snd (spec_list e 0 ?ops ?db))). lasting D c \<and> cmd_ops c \<noteq> []"
    using logged_lasting [OF assms(4)] logged_ops by blast
  ultimately show "\<exists>new. d_AOF (exec_step (e, cs, args) d) = map_option (\<lambda>h. h @ new) (d_AOF d) \<and>
      (\<forall>c\<in>set new. lasting D c \<and> cmd_ops c \<noteq> []) \<and>
      replay_values new vs = fst (spec_ops (map strip_op ?ops) vs)"
    by blast
qed

lemma clock_later: "env_ok e \<Longrightarrow> t \<le> clk e 0 \<Longrightarrow> t \<le> clk e j"
  using monoD [of "clk e" 0 j] by (auto simp: env_ok_def)

text \<open>A whole history leaves the values that its log stands for.\<close>

lemma hist_end_later: "hist_lasts D t xs \<Longrightarrow> t \<le> hist_end t xs"
proof (induction xs arbitrary: t)
  case (Cons x xs)
  obtain e cs args where x: "x = (e, cs, args)" by (cases x)
  with Cons.IH [of "clk e (length (cmd_ops args))"] Cons.prems clock_later [of e t "length (cmd_ops args)"]
  show ?case by simp
qed simp

lemma exec_all_values:
  "shows_values L t d vs \<Longrightarrow> hist_lasts D t xs \<Longrightarrow> hist_end t xs \<le> L \<Longrightarrow> L \<le> t + D \<Longrightarrow> d_AOF d = Some h \<Longrightarrow>
    \<exists>new. d_AOF (exec_all xs d) = Some (h @ new) \<and> (\<forall>c\<in>set new. lasting D c \<and> cmd_ops c \<noteq> []) \<and>
      shows_values L (hist_end t xs) (exec_all xs d) (replay_values new vs)"
proof (induction xs arbitrary: t d vs h)
  case Nil
  then show ?case by (intro exI [of _ "[]"]) (simp add: exec_all_def)
next
  case (Cons x xs)
  obtain e cs args where x: "x = (e, cs, args)" by (cases x)
  let ?d = "exec_step x d" and ?t = "clk e (length (cmd_ops args))"
  have e: "env_ok e" "t \<le> clk e 0" "lasting D args" "hist_lasts D ?t xs" "hist_end ?t xs \<le> L"
    using Cons.prems(2,3) by (simp_all add: x)
  have t: "t \<le> ?t" "?t \<le> L"
    using clock_later [OF e(1,2)] order_trans [OF hist_end_later [OF e(4)] e(5)] by simp_all
  have "\<exists>new. d_AOF ?d = Some (h @ new) \<and> (\<forall>c\<in>set new. lasting D c \<and> cmd_ops c \<noteq> []) \<and>
    shows_values L ?t ?d (replay_values new vs)"
  proof (cases "InSubscribeMode cs \<or> cmd_ops args = []")
    case True
    with exec_step_other [OF True, of e d] Cons.prems(5) shows_values_later [OF Cons.prems(1) t] show ?thesis
      by (intro exI [of _ "[]"]) (simp add: x)
  next
    case False
    with exec_step_values [OF Cons.prems(1) e(1-3) Cons.prems(4) t(2)] Cons.prems(5) show ?thesis
      unfolding x by fastforce
  qed
  then obtain new1 where 1: "d_AOF ?d = Some (h @ new1)" "\<forall>c\<in>set new1. lasting D c \<and> cmd_ops c \<noteq> []"
    "shows_values L ?t ?d (replay_values new1 vs)" by blast
  have "L \<le> ?t + D" using t(1) Cons.prems(4) by simp
  from Cons.IH [OF 1(3) e(4,5) this 1(1)] obtain new2 where
    2: "d_AOF (exec_all xs ?d) = Some ((h @ new1) @ new2)" "\<forall>c\<in>set new2. lasting D c \<and> cmd_ops c \<noteq> []"
    "shows_values L (hist_end ?t xs) (exec_all xs ?d) (replay_values new2 (replay_values new1 vs))" by blast
  from 1(2) 2 show ?case by (intro exI [of _ "new1 @ new2"]) (auto simp: exec_all_def x)
qed

lemma exec_all_replays:
  "shows_values L t d vs \<Longrightarrow> hist_lasts D t xs \<Longrightarrow> hist_end t xs \<le> L \<Longrightarrow> L \<le> t + D \<Longrightarrow>
    \<forall>(e, cs, c)\<in>set xs. \<not> InSubscribeMode cs \<and> cmd_ops c \<noteq> [] \<Longrightarrow>
    shows_values L (hist_end t xs) (exec_all xs d) (replay_values (map (snd \<circ> snd) xs) vs)"
proof (induction xs arbitrary: t d vs)
  case (Cons x xs)
  obtain e cs args where x: "x = (e, cs, args)" by (cases x)
  let ?t = "clk e (length (cmd_ops args))"
  have e: "env_ok e" "t \<le> clk e 0" "lasting D args" "hist_lasts D ?t xs" "hist_end ?t xs \<le> L"
    "\<not> InSubscribeMode cs" "cmd_ops args \<noteq> []"
    using Cons.prems(2,3,5) by (simp_all add: x)
  have t: "t \<le> ?t" "?t \<le> L"
    using clock_later [OF e(1,2)] order_trans [OF hist_end_later [OF e(4)] e(5)] by simp_all
  have "L \<le> ?t + D" using t(1) Cons.prems(4) by simp
  from Cons.IH [OF exec_step_values(1) [OF Cons.prems(1) e(1-3) Cons.prems(4) t(2) e(6,7)] e(4,5) this] Cons.prems(5)
  show ?case by (simp add: x exec_all_def)
qed (simp add: exec_all_def)

section \<open>Recovery\<close>

text \<open>The time when the replay of the commands ends.\<close>

fun replay_end :: "(nat \<Rightarrow> env) \<Rightarrow> time \<Rightarrow> nat \<Rightarrow> string list list \<Rightarrow> time" where
  "replay_end envs t n [] = t"
| "replay_end envs t n (c # cmds) = replay_end envs (clk (envs n) (length (cmd_ops c))) (Suc n) cmds"

lemma replay_clock_lasts:
  "replay_clock envs t n cmds \<Longrightarrow> \<forall>c\<in>set cmds. lasting D c \<Longrightarrow> hist_lasts D t (indexed envs cs n cmds)"
  "hist_end t (indexed envs cs n cmds) = replay_end envs t n cmds"
  by (induction cmds arbitrary: t n) auto

lemma New_shows_no_values:
  "Store_New c = Some st \<Longrightarrow> d_Store d = st \<Longrightarrow> t \<le> L \<Longrightarrow> shows_values L t d Map.empty"
  using Store_New_empty [of c st] typed_New [of c st] New_shows_empty [of c st d t]
  by (auto simp: shows_values_def shows_db_def)

lemma recovery_values:
  assumes "Store_New c1 = Some st1" "d_Store d = st1" "d_AOF d = Some []" "hist_lasts D t xs" "hist_end t xs \<le> t + D"
    "Store_New c2 = Some st2" "srv_store s = st2"
    "d_AOF (exec_all xs d) = Some h" "\<forall>c\<in>set h. command_fits c" "replay_clock envs t' 0 h" "replay_end envs t' 0 h \<le> t' + D"
  shows "\<exists>s'. replayAOF envs (Content (enc_all h)) s = (s', ReplayOk) \<and>
    (\<forall>T\<ge>replay_end envs t' 0 h. \<forall>T'\<ge>hist_end t xs. T \<le> t' + D \<longrightarrow> T' \<le> t + D \<longrightarrow>
      (\<forall>k. map_option fst (view (srv_store s') T k) = map_option fst (view (d_Store (exec_all xs d)) T' k)))"
proof -
  have "t \<le> t + D" using hist_end_later [OF assms(4)] assms(5) by simp
  then have "shows_values (t + D) t d Map.empty" by (rule New_shows_no_values [OF assms(1,2)])
  from exec_all_values [OF this assms(4,5) order_refl assms(3)] assms(8)
  have h: "\<forall>c\<in>set h. lasting D c \<and> cmd_ops c \<noteq> []"
    and end1: "shows_values (t + D) (hist_end t xs) (exec_all xs d) (replay_values h Map.empty)"
    by auto
  let ?d = "\<lparr>d_Store = srv_store s, d_AOF = None, d_Broker = srv_broker s, d_Stats = None, d_AOFI = None\<rparr>"
  let ?ys = "indexed envs (new_conn False) 0 h"
  have ys: "hist_lasts D t' ?ys" "hist_end t' ?ys \<le> t' + D"
    using replay_clock_lasts(1) [OF assms(10)] h replay_clock_lasts(2) assms(11) by simp_all
  then have "t' \<le> t' + D" using hist_end_later [OF ys(1)] by simp
  then have "shows_values (t' + D) t' ?d Map.empty" by (intro New_shows_no_values [OF assms(6)]) (simp_all add: assms(7))
  moreover have "\<forall>(e, cs, c)\<in>set ?ys. \<not> InSubscribeMode cs \<and> cmd_ops c \<noteq> []"
    using indexed_set h by fastforce
  ultimately have end2: "shows_values (t' + D) (replay_end envs t' 0 h) (exec_all ?ys ?d) (replay_values h Map.empty)"
    using exec_all_replays [OF _ ys order_refl, of ?d Map.empty] by (simp add: indexed_commands replay_clock_lasts(2))
  obtain e where "reads_all ReadCommand (enc_all h) h e" and e: "at_end e"
    using reads_enc_all [OF assms(9)] by blast
  from replay_loop_reads [OF this(1), of "replay_apply envs" "(?d, new_conn False, 0)"] e h
  have "replayAOF envs (Content (enc_all h)) s = (s\<lparr>srv_store := d_Store (exec_all ?ys ?d),
      srv_broker := d_Broker (exec_all ?ys ?d)\<rparr>, ReplayOk)"
    by (auto simp: replayAOF_def Replay_def apply_all_exec at_end_def)
  with shows_values_view [OF end1] shows_values_view [OF end2] show ?thesis
    by (intro exI [of _ "s\<lparr>srv_store := d_Store (exec_all ?ys ?d), srv_broker := d_Broker (exec_all ?ys ?d)\<rparr>"]) simp
qed

end
