(* ===== verification/Spec2Isabelle.thy ===== *)
theory Spec2Isabelle
  imports Examples Lasting
begin

text \<open>
  \<^bold>\<open>voltkv\<close>: a Redis-compatible in-memory store in Go, verified.

  The program. \<^verbatim>\<open>internal/store\<close> keeps typed entries (strings, hashes, lists) with optional
  deadlines in shards selected by a hash of the key. \<^verbatim>\<open>internal/resp\<close> reads commands from and
  writes replies to a byte stream. \<^verbatim>\<open>internal/command\<close> turns a command into store or broker
  calls, writes the reply and mirrors writes to the log. \<^verbatim>\<open>internal/pubsub\<close> is the broker between
  publishers and the buffered channels of subscribers. \<^verbatim>\<open>internal/aof\<close> is the append-only log: a
  channel, one writer goroutine, compaction and replay. \<^verbatim>\<open>internal/server\<close> starts from the log,
  accepts connections and runs a loop per connection, forwarding goroutines and a sweeper.
  \<^verbatim>\<open>cmd/httpdemo\<close> is an HTTP front end with a small RESP client.

  The theories.
  \<^item> \<open>Voltkv_Prelude\<close>: 64-bit wrap-around, clock readings, Go maps as association lists with an
    arbitrary iteration order, and the interfaces as locales: \<open>keyed\<close> and \<open>counted\<close> containers
    (interpreted on Go maps and on the sharded store), \<open>transition_invariant\<close> (interpreted on the
    broker, the log, the server, its output, its dialogues and its data, and on concurrent commands), \<open>refines\<close>
    (interpreted on the store and its specification) and \<open>codec\<close> (interpreted on RESP commands and
    on replies).
  \<^item> \<open>Go_Strings\<close>: \<^verbatim>\<open>strconv\<close>, runes, case mapping. \<open>Glob\<close>: \<^verbatim>\<open>store/helpers.go\<close>, against the
    language a pattern denotes.
  \<^item> \<open>Resp\<close>: \<^verbatim>\<open>resp/resp.go\<close>; a reader is the bytes it has yet to deliver.
  \<^item> \<open>Store\<close>, \<open>Store_Types\<close>: \<^verbatim>\<open>store/store.go\<close>, one definition per method, from the store and the
    reading of the clock to the store and the result; the invariants \<open>store_ok\<close> and \<open>typed\<close>.
    \<open>Store_Spec\<close>, \<open>Store_Refine\<close>: the flat data set, the specification \<open>spec_op\<close> of every
    operation on it, and the refinement, for one operation and for histories.
  \<^item> \<open>Pubsub\<close>: \<^verbatim>\<open>pubsub/pubsub.go\<close> with subscriptions in an explicit heap; whole operations,
    and a step relation in which a publication is split into its snapshot and its sends.
  \<^item> \<open>Aof\<close>: \<^verbatim>\<open>aof/aof.go\<close>, \<^verbatim>\<open>aof/helpers.go\<close>; the buffered writer with its sticky error, the
    goroutines as a step relation with the history of accepted commands as a ghost, compaction,
    replay.
  \<^item> \<open>Command\<close>: \<^verbatim>\<open>command/command.go\<close>, \<^verbatim>\<open>command/helpers.go\<close>, every handler and \<^verbatim>\<open>Execute\<close>.
    \<open>Set_Options\<close>: the grammar of the options of \<^verbatim>\<open>SET\<close>. \<open>Command_Spec\<close>: a command as the store
    operations its arguments stand for (\<open>cmd_ops\<close>), the rendering of their results (\<open>reply_of\<close>) and
    the entries for the log (\<open>logged\<close>); \<^verbatim>\<open>Execute\<close> does just that and never panics.
    \<open>Command_Reads\<close>: the commands whose reply depends on an order or a second clock reading. \<open>Walks\<close>:
    the operations that visit one shard after the other (\<^verbatim>\<open>KEYS\<close>, \<^verbatim>\<open>DBSIZE\<close>, \<^verbatim>\<open>FLUSHDB\<close>,
    \<^verbatim>\<open>SnapshotAll\<close>), as their visits.
    \<open>Command_Log\<close>: executing the log again rebuilds data without deadlines. \<open>Compaction\<close>: so do the
    commands of a rewrite, with the remaining times to live in milliseconds.
  \<^item> \<open>Server\<close>: \<^verbatim>\<open>server/server.go\<close>: construction, recovery, the loop of one connection and its
    end. \<open>System\<close>: the running server as a step relation: the acceptor, every connection with its
    forwarding goroutines, publications divided into their sends, the sweeper and the shutdown
    around the shared store, broker and log, and the invariant of the whole. \<open>Shutdown\<close>: what
    \<^verbatim>\<open>Run\<close> starts with, that it returns only when everything has ended, that it can when the clients
    have hung up, that a silent client holds it. \<open>Durable\<close>: the running server, its log and the
    next start together: without deadlines, the data passes from one process to the next. \<open>Rewrites\<close>:
    these with rewrites of the log, from the snapshot to the swap of the file, at any time; on what
    condition the data still passes. \<open>Lasting\<close>: with deadlines that are not reached, the values pass.
    \<open>Replies\<close>: a reader of the protocol from the side of the client, and that the replies of every
    command are framed; \<open>Output\<close>: so is everything a client of the running server receives. \<open>Dialogue\<close>:
    runs with the bytes that came in on each connection: every command is answered once and in order.
    \<open>Delivery\<close>: runs with what was sent to each channel and what went out on each connection: published
    messages are forwarded once and in order.
    \<open>Interleaving\<close>: the commands of several connections, divided into lock regions (one operation
    on a key, the clearing, the listing or the copying of one shard, the two halves of a \<^verbatim>\<open>Get\<close>) and
    appends to the log; alone they are \<^verbatim>\<open>Execute\<close>, together their regions are linearizable. \<open>Listings\<close>:
    what \<^verbatim>\<open>KEYS\<close>, \<^verbatim>\<open>DBSIZE\<close> and the snapshot of a rewrite see beside other commands. \<open>Races\<close>:
    what does not hold: the order of the log, commands over several keys and listings as atomic ones
    (\<open>mset_is_seen_half_done\<close>, \<open>listing_misses_older_key\<close>), and a subscriber that leaves during a
    publication. \<open>Httpdemo\<close>: the client and the handlers of \<^verbatim>\<open>cmd/httpdemo/main.go\<close>. \<open>Mains\<close>: the two
    main functions, from their configuration to the running server and the routes of the front end.
    \<open>Examples\<close>: a small server, its clients and its log, for the instances of the theorems.

  The properties below: C1, C2, C33, C35 of the store, C28 of its matcher; C3, C4, C22,
  C26, C34, C36 of the command layer; C5 to C10 of persistence; C11 to C15, C23, C24 of the running server;
  C16 to C21 of concurrent commands; C25, C27 of the protocol; C29 to C32 of the broker; C37 of
  the front end. C9, C15, C21, C32, C38 to C40 and the theorems at the end are limits of the code.

  Conventions and bounds. Every clock reading is a value passed in; histories assume that the clock
  does not run backwards (though \<^verbatim>\<open>time.Now\<close> is read before a shard is locked) and lies after the
  year 293 (\<open>clock_ok\<close>), so that adding a duration never
  gives the zero time. Every \<^verbatim>\<open>range\<close> over a map runs in an order of which only \<open>perm_order\<close> is
  known. An allocation fails, as a panic, beyond \<open>2 ^ 48\<close> bytes. A run-time panic is \<open>None\<close>, or a
  constructor of its own where errors are values too. No definition uses fuel: the loops over input
  end because every read takes a byte (\<open>ReadCommand_length\<close>), and the one loop that may not
  end, in \<^verbatim>\<open>nextPow2\<close>, is a partial function whose value \<open>None\<close> is divergence. In \<open>Command\<close>, the
  log is the list of the commands handed to \<^verbatim>\<open>Append\<close>; \<open>Aof\<close> is what becomes of them. In \<open>Command\<close>
  writes do not fail; in \<open>System\<close> the writing of any reply or forwarded message may, inside a
  command or at its flush, after any number of bytes; nothing goes out after it, and the connection
  ends with the reply that notices it. Bytes arrive at any time and in any pieces; a step that
  needs more of them than have arrived waits. The sweep takes
  one shard at a time. In \<open>System\<close> the other operations that walk over the shards (\<^verbatim>\<open>KEYS\<close>, \<^verbatim>\<open>DBSIZE\<close>,
  \<^verbatim>\<open>FLUSHDB\<close>) are one step, as every command is; in \<open>Interleaving\<close> they are divided into the visits of
  the shards. So is the snapshot of a rewrite, which is one step in \<open>Rewrites\<close>; there, the entries of a
  command reach the channel at any time after it, in the order of the commands. Nothing in the program
  calls \<^verbatim>\<open>Rewrite\<close>: who calls it, and when, is left open.

  Not modelled: sockets and their deadlines, the parsing of flags, the HTTP listener, logging and the
  HTML page; a signal is the step \<open>cancel\<close>. The steps of \<open>System\<close> are whole commands apart from publications;
  the division of the others into lock regions is \<open>Interleaving\<close>, which has no connections.
\<close>



section \<open>The store\<close>

text \<open>C1: every history of store operations, with any gaps of time between them, gives the results
  and leaves the data that the specification on one flat map with deadlines prescribes: sharding,
  lazy deletion, sweeping and the order of map iterations do not show.\<close>

theorem store_history_refines:
  assumes "typed s" "clock_ok t" "\<forall>(d, po, op)\<in>set xs. 0 \<le> d \<and> perm_order po \<and> op_ok op"
  shows "run_ops timed_spec xs (view s t, t) =
    (let ((s', t'), rs) = run_ops timed_run xs (s, t) in ((view s' t', t'), rs))"
  using store.run_abs [of "(s, t)" xs] assms
  by (force simp: timed_abs_def timed_ok_def timed_allowed_def Let_def case_prod_unfold)

theorem store_history_refines_witness:
  "run_ops timed_spec [(0, rev, OpSet ''a'' ''7'' Second), (5, rev, OpIncrBy ''a'' 1), (Second, rev, OpGet ''a'')]
      (view one_shard noon, noon) =
    (let ((s', t'), rs) = run_ops timed_run
        [(0, rev, OpSet ''a'' ''7'' Second), (5, rev, OpIncrBy ''a'' 1), (Second, rev, OpGet ''a'')] (one_shard, noon)
     in ((view s' t', t'), rs))"
  by (rule store_history_refines) (auto simp: Second_def int64_defs)

text \<open>C2: every operation of the store keeps its invariant: the mask selects an existing shard,
  every key is in the shard of its hash and only once, the payload of an entry agrees with its
  kind, and no empty hash or list is kept.\<close>

theorem store_operations_keep_invariant:
  assumes "typed s" "perm_order po" "op_ok op"
  shows "typed (fst (run_op po now op s))"
  by (rule typed_run_op [OF assms])

theorem store_operations_keep_invariant_witness:
  "typed (fst (run_op rev noon (OpHSet ''h'' [(''f'', ''v'')]) one_shard))"
  by (rule store_operations_keep_invariant) simp_all

section \<open>Commands\<close>

text \<open>C3: a well-formed store command of a connection without subscriptions is answered with the
  rendering of the results that the specification of its operations gives on the flat data set,
  leaves the data set the specification prescribes, from the time of its last reading of the clock on,
  and appends to the log the entries these results call for.\<close>

theorem execute_meets_specification:
  assumes "typed (d_Store d)" "env_ok e" "t \<le> clk e 0" "\<not> InSubscribeMode cs" "cmd_ops args \<noteq> []"
  shows "\<exists>d'. Execute e d cs args =
      Some (d', cs, reply_of args (snd (spec_list e 0 (cmd_ops args) (view (d_Store d) t))), None) \<and>
    (\<forall>T\<ge>clk e (length (cmd_ops args)).
      view (d_Store d') T = age T (fst (spec_list e 0 (cmd_ops args) (view (d_Store d) t)))) \<and>
    d_AOF d' = map_option (\<lambda>h. h @ logged args (snd (spec_list e 0 (cmd_ops args) (view (d_Store d) t)))) (d_AOF d)"
proof -
  let ?ops = "cmd_ops args" and ?s = "d_Store d"
  have ops: "\<forall>op\<in>set ?ops. op_ok op" using cmd_ops_ok by blast
  have "\<forall>T\<ge>t. view ?s T = age T (view ?s t)" using view_age by blast
  note run = spec_run_list [OF assms(1,2) ops assms(3) this]
  have mono: "clk e j \<le> clk e (length ?ops)" if "j \<le> length ?ops" for j
    using assms(2) that by (simp add: env_ok_def monoD)
  have "view (fst (run_list e 0 ?ops ?s)) T = age T (fst (spec_list e 0 ?ops (view ?s t)))"
    if T: "clk e (length ?ops) \<le> T" for T
  proof -
    have "t \<le> T" using mono [of 0] assms(3) T by simp
    moreover have "clk e (0 + j) \<le> T" if "j < length ?ops" for j using mono [of j] T that by simp
    ultimately show ?thesis using run by blast
  qed
  with run show ?thesis
    unfolding Execute_ops [OF assms(4,5)] by (auto simp: Let_def case_prod_unfold)
qed

theorem execute_meets_specification_witness:
  "\<exists>d'. Execute demo_env demo_deps (new_conn True) [''INCR'', ''a''] =
      Some (d', new_conn True, WriteInteger 1, None) \<and> d_AOF d' = Some [[''SET'', ''a'', FormatInt 1]]"
  using execute_meets_specification [of demo_deps demo_env noon "new_conn True" "[''INCR'', ''a'']"]
  by (auto simp: cmd_ops_INCR spec_incr_def int64_defs reply_of_def reply_for_def render_def logged_def
      logged_for_def effective_def is_int_def log_entry_def age_def)

text \<open>C4: no command panics when it runs as a whole, and every command keeps the invariants of the
  store, of the broker and of the connection's subscriptions.\<close>

theorem execute_keeps_invariant:
  assumes "deps_ok d" "conn_ok (d_Broker d) cs" "env_ok e"
  shows "\<exists>d' cs' w err. Execute e d cs args = Some (d', cs', w, err) \<and>
    deps_ok d' \<and> conn_ok (d_Broker d') cs'"
proof -
  have "result_ok (Execute e d cs args)" by (rule Execute_ok [OF assms])
  then show ?thesis by (cases "Execute e d cs args") auto
qed

theorem execute_keeps_invariant_witness:
  "\<exists>d' cs' w err. Execute demo_env demo_deps (new_conn True) [''SUBSCRIBE'', ''news''] = Some (d', cs', w, err) \<and>
    deps_ok d' \<and> conn_ok (d_Broker d') cs'"
  by (rule execute_keeps_invariant) simp_all

section \<open>Persistence\<close>



text \<open>C6: crash consistency of the log. Whatever the appending goroutines, the writer, rewrites and
  size queries have done, the file holds whole commands only, up to its end: the commands it
  was opened with (or rewritten to) and a prefix, in order, of those accepted since.\<close>

theorem log_crash_consistent:
  assumes "log_init s0" "log_step\<^sup>*\<^sup>* s0 s" "base s = enc_all cmds"
    "\<forall>c\<in>set (cmds @ hist s). command_fits c"
  shows "\<exists>k e. reads_all ReadCommand (wfile (l_w (lg s))) (cmds @ take k (hist s)) e \<and> at_end e"
  by (rule log_good_crash [OF aof.good_reachable [OF assms(1,2)] assms(3,4)])

theorem log_crash_consistent_witness:
  "\<exists>k e. reads_all ReadCommand [] (take k [[''SET'', ''a'', ''1'']]) e \<and> at_end e"
proof -
  let ?s = "\<lparr>lg = Log_Open [], base = [], hist = []\<rparr>"
  let ?l = "(Log_Open [])\<lparr>l_ch := [[''SET'', ''a'', ''1'']]\<rparr>"
  have "log_step ?s (?s\<lparr>lg := ?l, hist := hist ?s @ [[''SET'', ''a'', ''1'']]\<rparr>)"
    by (rule log_step.append) (simp add: Log_Append_def Log_Open_def ch_cap_def)
  from log_crash_consistent [OF _ r_into_rtranclp [of log_step, OF this], of "[]"] show ?thesis
    by (simp add: log_init_def Log_Open_def NewFileWriter_def command_fits_def fits_def maxAlloc_def)
qed

text \<open>Whenever nothing is queued, and in any case once the writer goroutine has exited, every
  command accepted since the file was opened or rewritten is in the file.\<close>

theorem log_durable_when_drained:
  assumes "log_init s0" "log_step\<^sup>*\<^sup>* s0 s" "pending (lg s) = [] \<or> l_done (lg s)"
  shows "wfile (l_w (lg s)) = base s @ enc_all (hist s)"
proof -
  have good: "log_good s" by (rule aof.good_reachable [OF assms(1,2)])
  then have "l_done (lg s) \<longrightarrow> pending (lg s) = []" by (simp add: log_good_def Let_def)
  with assms(3) show ?thesis using log_good_drained [OF good] by blast
qed

theorem log_durable_when_drained_witness:
  "wfile (l_w (Log_Open ''x'')) = ''x'' @ enc_all []"
  using log_durable_when_drained
    [of "\<lparr>lg = Log_Open ''x'', base = ''x'', hist = []\<rparr>" "\<lparr>lg = Log_Open ''x'', base = ''x'', hist = []\<rparr>"]
  by (simp add: log_init_def Log_Open_def pending_def)





text \<open>C9: what is lost or done twice when a rewrite is not exact. A command whose entry is written
  between the snapshot and the swap is gone after the next start; one whose entry waits at the swap
  though the snapshot has its effect is done again, and a list has its element twice.\<close>

theorem rewrite_loses_or_repeats:
  "(\<exists>x y'. kept_step\<^sup>*\<^sup>* demo_kept x \<and> queued x = [] \<and>
      view (srv_store (y_srv (p_sys x))) noon ''a'' = Some (AStr ''1'', 0) \<and>
      Run_start (\<lambda>n. demo_env) (Content (wfile (l_w (lg (p_log x))))) True True demo_logging = Started y' \<and>
      view (srv_store (y_srv y')) noon ''a'' = None) \<and>
   (\<exists>x y'. kept_step\<^sup>*\<^sup>* demo_kept x \<and> queued x = [] \<and>
      view (srv_store (y_srv (p_sys x))) noon ''a'' = Some (AList [''x''], 0) \<and>
      Run_start (\<lambda>n. demo_env) (Content (wfile (l_w (lg (p_log x))))) True True demo_logging = Started y' \<and>
      view (srv_store (y_srv y')) noon ''a'' = Some (AList [''x'', ''x''], 0))"
proof (intro conjI)
  note restart = restart_kept [OF kept.good_reachable [OF demo_kept_init] _ demo_logging_New, of _ "\<lambda>n. demo_env"]
  obtain y where y: "calm_step\<^sup>*\<^sup>* demo_start y" "srv_aof (y_srv y) = Some [[''SET'', ''a'', ''1'']]"
    "srv_store (y_srv y) = Store_Set one_shard noon ''a'' ''1'' 0" using demo_SET by blast
  let ?x = "swapped y [] [] False (Log_Open [])"
  have x: "kept_step\<^sup>*\<^sup>* demo_kept ?x" by (rule demo_rewrite_around [OF y(1,2)])
  have q: "queued ?x = []" by (simp add: queued_def entries_def swapped_def y(2) pending_def Log_Open_def)
  from restart [OF x] q x show "\<exists>x y'. kept_step\<^sup>*\<^sup>* demo_kept x \<and> queued x = [] \<and>
      view (srv_store (y_srv (p_sys x))) noon ''a'' = Some (AStr ''1'', 0) \<and>
      Run_start (\<lambda>n. demo_env) (Content (wfile (l_w (lg (p_log x))))) True True demo_logging = Started y' \<and>
      view (srv_store (y_srv y')) noon ''a'' = None"
    by (intro exI [of _ ?x]) (auto simp: swapped_def demo_config_def y(3))
next
  note restart = restart_kept [OF kept.good_reachable [OF demo_kept_init] _ demo_logging_New, of _ "\<lambda>n. demo_env"]
  let ?c = "[''RPUSH'', ''a'', ''x'']"
  obtain y where y: "calm_step\<^sup>*\<^sup>* demo_start y" "srv_aof (y_srv y) = Some [?c]" "srv_store (y_srv y) = demo_list"
    using demo_RPUSH by blast
  obtain l where l: "kept_step\<^sup>*\<^sup>* demo_kept (swapped y [?c] [?c] False l)" "pending l = []"
    using demo_rewrite_before [OF y(1,2)] by (auto simp only: y(3) demo_rewrites(3))
  let ?x = "swapped y [?c] [?c] False l"
  have q: "queued ?x = []" by (simp add: queued_def entries_def swapped_def y(2) l(2))
  have ops: "cmd_ops ?c = [OpRPush ''a'' [''x'']]" using cmd_ops_RPUSH [of "[''x'']" "''a''"] by simp
  have "view demo_list noon ''a'' = Some (AList [''x''], 0)"
    by (simp add: demo_list_def view_put expired_def abs_val_def entry0_def)
  with restart [OF l(1)] q l(1) show "\<exists>x y'. kept_step\<^sup>*\<^sup>* demo_kept x \<and> queued x = [] \<and>
      view (srv_store (y_srv (p_sys x))) noon ''a'' = Some (AList [''x''], 0) \<and>
      Run_start (\<lambda>n. demo_env) (Content (wfile (l_w (lg (p_log x))))) True True demo_logging = Started y' \<and>
      view (srv_store (y_srv y')) noon ''a'' = Some (AList [''x'', ''x''], 0)"
    by (intro exI [of _ ?x])
      (auto simp: swapped_def demo_config_def y(3) command_fits_def fits_def maxAlloc_def ops change_def)
qed

text \<open>C10: data with deadlines. A history of commands that set no deadline less than \<open>D\<close> away and ends
  within \<open>D\<close>, so that nothing expires, leaves a log from which a server with any number of shards, if
  it replays it within \<open>D\<close>, starts without error and shows every key with its value, and no other.\<close>

theorem values_survive_restart:
  assumes "Store_New c1 = Some st1" "d_Store d = st1" "d_AOF d = Some []" "hist_lasts D t xs" "hist_end t xs \<le> t + D"
    "Store_New c2 = Some st2" "srv_store s = st2"
    "d_AOF (exec_all xs d) = Some h" "\<forall>c\<in>set h. command_fits c" "replay_clock envs t' 0 h" "replay_end envs t' 0 h \<le> t' + D"
  shows "\<exists>s'. replayAOF envs (Content (enc_all h)) s = (s', ReplayOk) \<and>
    (\<forall>T\<ge>replay_end envs t' 0 h. \<forall>T'\<ge>hist_end t xs. T \<le> t' + D \<longrightarrow> T' \<le> t + D \<longrightarrow>
      (\<forall>k. map_option fst (view (srv_store s') T k) = map_option fst (view (d_Store (exec_all xs d)) T' k)))"
  by (rule recovery_values [OF assms])

theorem values_survive_restart_witness:
  "\<exists>s'. replayAOF (\<lambda>n. demo_env) (Content (enc_all [[''SET'', ''a'', ''1''], [''EXPIRE'', ''a'', ''2'']])) demo_logging =
      (s', ReplayOk) \<and> map_option fst (view (srv_store s') (noon + Second) ''a'') = Some (AStr ''1'')"
proof -
  let ?c1 = "[''SET'', ''a'', ''1'']" and ?c2 = "[''EXPIRE'', ''a'', ''2'']" and ?D = "2 * Second"
  let ?xs = "[(demo_env, new_conn True, ?c1), (demo_env, new_conn True, ?c2)]"
  have ops: "cmd_ops ?c2 = [OpExpire ''a'' ?D]"
    using cmd_ops_EXPIRE [of 2 "''a''"] by (simp add: FormatInt_small int64_defs wrap64_def Second_def)
  have up: "ToUpper ''EXPIRE'' = ''EXPIRE''" by (rule ToUpper_fixed) (simp add: ascii_upper_def in_bytes_def)
  let ?s = "Store_Set one_shard noon ''a'' ''1'' 0"
  obtain e where e: "getLive ?s ''a'' noon = Some e" "abs_val e = AStr ''1''"
    using demo_views by (auto simp: view_def)
  have sub: "\<not> InSubscribeMode (new_conn True)" by (simp add: InSubscribeMode_def new_conn_def)
  have ex: "Store_Expire ?s noon ''a'' ?D = (sh_put ?s ''a'' (e\<lparr>expiresAt := noon + ?D\<rparr>), True)"
    using e by (simp add: Store_Expire_def)
  have run: "d_AOF (exec_all ?xs demo_deps) = Some [?c1, ?c2]"
    "d_Store (exec_all ?xs demo_deps) = sh_put ?s ''a'' (e\<lparr>expiresAt := noon + ?D\<rparr>)"
    by (simp_all add: exec_all_def exec_step_def Execute_ops sub cmd_ops_SET ops ex logged_def logged_for_def up
        effective_def log_entry_def)
  have v: "map_option fst (view (d_Store (exec_all ?xs demo_deps)) (noon + Second) ''a'') = Some (AStr ''1'')"
    using e(2) by (simp add: run(2) view_put typed_Set typed_ok expired_def Second_def)
  have "lasting ?D ?c1" "lasting ?D ?c2" by (simp_all add: lasting_def cmd_ops_SET ops lasting_op_def)
  then have h: "hist_lasts ?D noon ?xs" "hist_end noon ?xs \<le> noon + ?D" by (simp_all add: Second_def)
  have fit: "\<forall>c\<in>set [?c1, ?c2]. command_fits c" by (simp add: command_fits_def fits_def maxAlloc_def)
  have st: "srv_store demo_logging = one_shard" by (simp add: demo_logging_def demo_server_def)
  have late: "noon + Second \<le> noon + ?D" "noon \<le> noon + Second" "noon \<le> noon + ?D" by (simp_all add: Second_def)
  obtain s' where s': "replayAOF (\<lambda>n. demo_env) (Content (enc_all [?c1, ?c2])) demo_logging = (s', ReplayOk)"
    "\<forall>T\<ge>noon. \<forall>T'\<ge>noon. T \<le> noon + ?D \<longrightarrow> T' \<le> noon + ?D \<longrightarrow>
      (\<forall>k. map_option fst (view (srv_store s') T k) = map_option fst (view (d_Store (exec_all ?xs demo_deps)) T' k))"
    using values_survive_restart [OF New_one_shard demo_deps_ok(2,3) h New_one_shard st run(1) fit,
        of "\<lambda>n. demo_env" noon] late(3) by auto
  from s'(2) [rule_format, OF late(2,2,1,1), of "''a''"] v
  have "map_option fst (view (srv_store s') (noon + Second) ''a'') = Some (AStr ''1'')" by (simp only:)
  with s'(1) show ?thesis by blast
qed

text \<open>The same for a sequence of commands on its own, from an empty store: a server that starts,
  with any number of shards, from the log that the sequence left, ends its replay without error and
  shows the same data.\<close>

theorem recovery_restores_data:
  assumes "Store_New c1 = Some st1" "d_Store d = st1" "d_AOF d = Some []" "hist_ok t xs"
    "Store_New c2 = Some st2" "srv_store s = st2"
    "d_AOF (exec_all xs d) = Some h" "\<forall>c\<in>set h. command_fits c" "replay_clock envs t' 0 h"
  shows "\<exists>s' t''. replayAOF envs (Content (enc_all h)) s = (s', ReplayOk) \<and>
    (\<forall>T\<ge>t''. \<forall>T'\<ge>hist_end t xs. view (srv_store s') T = view (d_Store (exec_all xs d)) T')"
  by (rule recovery [OF assms])

theorem recovery_restores_data_witness:
  "\<exists>s' t''. replayAOF (\<lambda>n. demo_env) (Content (enc_all [[''SET'', ''a'', ''1'']]))
      \<lparr>srv_cfg = undefined, srv_store = one_shard, srv_broker = Broker_New, srv_aof = None,
       startedAt = noon, clients = 0, totalCommands = 0\<rparr> = (s', ReplayOk) \<and>
    (\<forall>T\<ge>t''. \<forall>T'\<ge>noon. view (srv_store s') T =
      view (d_Store (exec_all [(demo_env, new_conn True, [''SET'', ''a'', ''1''])] demo_deps)) T')"
proof -
  have "d_AOF (exec_all [(demo_env, new_conn True, [''SET'', ''a'', ''1''])] demo_deps) = Some [[''SET'', ''a'', ''1'']]"
    by (simp add: exec_all_def exec_step_def Execute_ops cmd_ops_SET logged_def logged_for_def effective_def
        log_entry_def)
  from recovery_restores_data [OF New_one_shard demo_deps_ok(2,3) _ New_one_shard _ this, of noon
      "\<lparr>srv_cfg = undefined, srv_store = one_shard, srv_broker = Broker_New, srv_aof = None,
       startedAt = noon, clients = 0, totalCommands = 0\<rparr>" "\<lambda>n. demo_env" noon]
  show ?thesis
    by (simp add: ttl_free_def cmd_ops_SET permanent_op_def command_fits_def fits_def maxAlloc_def)
qed

section \<open>The server\<close>

text \<open>C11: the server. From any start of a new server, and under every interleaving of accepted
  connections, arriving bytes, commands, forwarded messages, disconnections, sweeps and the
  shutdown, the store and the broker stay well formed, each connection's subscriptions are
  registered and its own, and the client counter and the wait group count what they stand for.\<close>

theorem system_invariant:
  assumes "Server_New cfg t0 = Some s" "\<forall>n. env_ok (envs n)" "file \<noteq> OpenError Crash"
    "Run_start envs file opens listens s = Started y0" "srv_step\<^sup>*\<^sup>* y0 y"
  shows "typed (srv_store (y_srv y)) \<and> broker_ok (srv_broker (y_srv y)) \<and>
    (\<forall>i<length (y_conns y). conn_ok (srv_broker (y_srv y)) (cl_conn (y_conns y ! i))) \<and>
    (\<forall>i<length (y_conns y). \<forall>j<length (y_conns y). i \<noteq> j \<longrightarrow>
      ptrs (cl_conn (y_conns y ! i)) \<inter> ptrs (cl_conn (y_conns y ! j)) = {}) \<and>
    clients (y_srv y) = int (length (filter live (y_conns y))) \<and>
    y_wg y = (if y_sweeper y then 1 else 0) + int (length (filter occupied (y_conns y)))"
proof -
  have "sys_init y0"
    using Run_start_result [OF assms(2) Server_New_fresh [OF assms(1)] assms(3), where opens = opens and listens = listens]
      assms(4) by simp
  from srv.good_reachable [OF this assms(5)] show ?thesis by (simp add: sys_good_def client_ok_def)
qed

theorem system_invariant_witness:
  "\<exists>y. srv_step (demo_system 0) y \<and> clients (y_srv y) = int (length (filter live (y_conns y))) \<and> y_wg y = 2"
proof -
  let ?y = "(demo_system 0)\<lparr>y_conns := [admit (demo_server 0)], y_wg := 2\<rparr>"
  have step: "srv_step (demo_system 0) ?y"
    using srv_step.accept [of "demo_system 0"] by (simp add: demo_system_def admit_def demo_server_def)
  have "Run_start (\<lambda>n. demo_env) NotExist True True (demo_server 0) = Started (demo_system 0)"
    by (simp add: Run_start_def demo_server_def demo_system_def)
  from system_invariant [OF demo_server_New _ _ this r_into_rtranclp [of srv_step, OF step]] step
  show ?thesis by (intro exI [of _ ?y]) simp
qed

text \<open>C12: no interleaving of the connections appends to the log after it was closed or unsubscribes
  twice. Two things end the process: a message that announces a length which cannot be
  allocated, and a send of a publication to a subscription closed since its snapshot.\<close>

theorem crash_reasons:
  assumes "sys_init y0" "srv_step\<^sup>*\<^sup>* y0 y" "srv_step y y'" "y_panicked y'"
  shows "\<exists>c\<in>set (y_conns y).
    cl_status c = Reading \<and> ReadCommand (cl_in c) = Inl MakePanic \<or>
    (\<exists>m p ps n. cl_status c = Publishing m (p # ps) n \<and> sub_closed (heap (srv_broker (y_srv y)) ! p))"
  by (rule sys_panic_reason [OF srv.good_reachable [OF assms(1,2)] assms(3,4)])

theorem crash_reasons_witness:
  "\<exists>y y'. srv_step y y' \<and> y_panicked y' \<and>
    (\<exists>c\<in>set (y_conns y). cl_status c = Reading \<and> ReadCommand (cl_in c) = Inl MakePanic)"
proof -
  let ?in = "''*1'' @ CRLF @ ''$-1'' @ CRLF"
  obtain y where y: "srv_step\<^sup>*\<^sup>* (demo_system 0) y" "y_conns y = [demo_client\<lparr>cl_in := ?in\<rparr>]" "\<not> y_panicked y"
    using demo_connected [of ?in] by auto
  have rd: "ReadCommand ?in = Inl MakePanic" using negative_length_panics [of "[]"] by simp
  then have "srv_step y (y\<lparr>y_panicked := True\<rparr>)"
    using y by (intro srv_step.panics [where i = 0 and e = demo_env and now = noon and aof_size = 0])
      (simp_all add: at_def round_of_def serve_round_def demo_client_def)
  from crash_reasons [OF demo_system_init y(1) this] this y(2) show ?thesis
    by (intro exI) (auto simp: demo_client_def)
qed

text \<open>C13: when \<^verbatim>\<open>Run\<close> has returned, which closes the log, every connection that was accepted has
  ended, with its subscriptions dropped and its forwarding goroutines done, no message in hand,
  the sweeper has stopped, and nothing is counted any more.\<close>

theorem run_returns_when_quiet:
  assumes "sys_init y0" "srv_step\<^sup>*\<^sup>* y0 y" "y_phase y = Returned"
  shows "(\<forall>c\<in>set (y_conns y). cl_status c \<in> {Rejected, Gone} \<and> c_Subs (cl_conn c) = [] \<and>
      drained (srv_broker (y_srv y)) (cl_conn c) \<and> cl_hand c = []) \<and>
    \<not> y_sweeper y \<and> clients (y_srv y) = 0 \<and> y_wg y = 0 \<and> y_cancelled y"
proof -
  have good: "sys_good y" by (rule srv.good_reachable [OF assms(1,2)])
  then have "y_wg y = 0" "y_cancelled y" using assms(3) by (auto simp: sys_good_def)
  with returned_quiet [OF good assms(3)] show ?thesis by auto
qed

theorem run_returns_when_quiet_witness:
  "\<exists>y. srv_step\<^sup>*\<^sup>* (demo_system 0) y \<and> y_phase y = Returned \<and> \<not> y_sweeper y \<and> y_wg y = 0"
proof -
  let ?y1 = "(demo_system 0)\<lparr>y_cancelled := True\<rparr>"
  have 1: "srv_step (demo_system 0) ?y1" by (rule srv_step.cancel) (simp add: demo_system_def)
  have "sys_good ?y1" by (rule srv.good_step [OF srv.good_init [OF demo_system_init] 1])
  from drain_returns [OF this] obtain y where y: "srv_step\<^sup>*\<^sup>* ?y1 y" "y_phase y = Returned"
    by (auto simp: demo_system_def)
  have "srv_step\<^sup>*\<^sup>* (demo_system 0) y" by (rule converse_rtranclp_into_rtranclp [of srv_step, OF 1 y(1)])
  from run_returns_when_quiet [OF demo_system_init this y(2)] this y(2) show ?thesis by blast
qed



text \<open>C15: but a single silent client holds it up: as long as it neither sends nor hangs up, \<^verbatim>\<open>Run\<close>
  does not return, although the context is looked at between commands for this very purpose.\<close>

theorem silent_client_blocks_shutdown:
  assumes "sys_init y0" "srv_step\<^sup>*\<^sup>* y0 y" "silent y i"
    "(\<lambda>a b. srv_step a b \<and> cl_in (y_conns b ! i) = [] \<and> \<not> cl_eof (y_conns b ! i))\<^sup>*\<^sup>* y y'"
  shows "silent y' i \<and> y_phase y' \<noteq> Returned"
proof -
  have s: "silent y' i" by (rule silent_blocks [OF assms(3,4)])
  have "srv_step\<^sup>*\<^sup>* y y'" by (rule mono_rtranclp [rule_format, OF _ assms(4)]) simp
  then have good: "sys_good y'" using srv.good_reachable [OF assms(1)] assms(2) by (meson rtranclp_trans)
  have "occupied (y_conns y' ! i)" "i < length (y_conns y')" using s by (simp_all add: silent_def occupied_def)
  then have "y_wg y' \<noteq> 0" using wg_zero(2) [OF good] by blast
  with good s show ?thesis by (auto simp: sys_good_def)
qed

theorem silent_client_blocks_shutdown_witness:
  "\<exists>y. srv_step\<^sup>*\<^sup>* (demo_system 0) y \<and> y_cancelled y \<and> silent y 0 \<and> y_phase y \<noteq> Returned"
proof -
  obtain y where y: "srv_step\<^sup>*\<^sup>* (demo_system 0) y" "y_conns y = [demo_client\<lparr>cl_in := []\<rparr>]" "\<not> y_panicked y"
    using demo_connected [of "[]"] by auto
  let ?y = "y\<lparr>y_cancelled := True\<rparr>"
  have silent: "silent y 0" using y(2) by (simp add: silent_def demo_client_def)
  have step: "srv_step y ?y" by (rule srv_step.cancel [OF y(3)])
  have "silent ?y 0 \<and> y_phase ?y \<noteq> Returned"
    by (rule silent_client_blocks_shutdown [OF demo_system_init y(1) silent])
      (rule r_into_rtranclp, use step y(2) in \<open>simp add: demo_client_def\<close>)
  with step y(1) show ?thesis by (intro exI [of _ ?y]) (auto intro: rtranclp.rtrancl_into_rtrancl)
qed

text \<open>A start. Whatever the log contains, a new server either starts in a well-formed state, or
  fails because a file or the address cannot be opened, or panics because the log announces a
  length that cannot be allocated.\<close>

theorem run_starts_well_formed:
  assumes "Server_New cfg t0 = Some s" "\<forall>n. env_ok (envs n)" "file \<noteq> OpenError Crash"
  shows "case Run_start envs file opens listens s of
      Started y \<Rightarrow> sys_init y
    | StartFails \<Rightarrow> \<not> listens \<or> AOFPath (srv_cfg s) \<noteq> [] \<and> (file = OpenError OpenFailed \<or> \<not> opens)
    | StartPanics \<Rightarrow> AOFPath (srv_cfg s) \<noteq> [] \<and>
        (\<exists>bytes cmds. file = Content bytes \<and> reads_all ReadCommand bytes cmds MakePanic)"
  by (rule Run_start_result [OF assms(2) Server_New_fresh [OF assms(1)] assms(3)])

theorem run_starts_well_formed_witness:
  "\<exists>y. Run_start (\<lambda>n. demo_env) NotExist True True (demo_server 0) = Started y \<and> sys_init y"
  using run_starts_well_formed [OF demo_server_New, where ?file = NotExist and envs = "\<lambda>n. demo_env"
      and opens = True and listens = True]
  by (simp add: Run_start_def demo_server_def)

section \<open>Concurrent commands\<close>

text \<open>C16: the commands of several connections. A command whose steps on the store and on the log no
  other goroutine interrupts does what \<^verbatim>\<open>Execute\<close> says, from any state: the same store, the same
  log and the same reply. This holds for every command divided into regions, \<^verbatim>\<open>FLUSHDB\<close> with its
  region per shard and the reads of \<^verbatim>\<open>HGETALL\<close> and \<^verbatim>\<open>TTL\<close> included.\<close>

theorem uninterrupted_command_is_Execute:
  assumes "Execute e d cs args = Some (d', cs', w, err)"
    "regions (length (shards (d_Store d))) (clk e 1 - clk e 0) args \<noteq> []" "\<not> InSubscribeMode cs" "env_ok e"
    "typed (d_Store d)" "d_AOF d = Some (k_log y)" "k_store y = d_Store d" "k_now y \<le> clk e 0"
  shows "\<exists>y' t. conc_step\<^sup>*\<^sup>* y y' \<and> k_store y' = d_Store d' \<and> d_AOF d' = Some (k_log y') \<and>
    k_threads y' = k_threads y @ [t] \<and> finished t \<and> th_args t = args \<and> w \<in> th_reply t"
  by (rule alone_is_Execute [OF assms])

theorem uninterrupted_command_is_Execute_witness:
  "\<exists>y t. conc_step\<^sup>*\<^sup>* (conc_start one_shard noon []) y \<and> k_threads y = [t] \<and> finished t \<and> WriteInteger 1 \<in> th_reply t"
proof -
  obtain d' where "Execute demo_env demo_deps (new_conn True) [''INCR'', ''a''] = Some (d', new_conn True, WriteInteger 1, None)"
    using demo_INCR by blast
  from uninterrupted_command_is_Execute [OF this, of "conc_start one_shard noon []"] show ?thesis
    by (auto simp: regions_def cmd_ops_INCR conc_start_def)
qed

lemma demo_thread:
  "\<exists>y t. conc_step\<^sup>*\<^sup>* (conc_start one_shard noon []) y \<and> k_threads y = [t] \<and> finished t \<and>
    th_args t = [''INCR'', ''a'']"
proof -
  obtain d' where "Execute demo_env demo_deps (new_conn True) [''INCR'', ''a''] = Some (d', new_conn True, WriteInteger 1, None)"
    using demo_INCR by blast
  from alone_is_Execute [OF this, of "conc_start one_shard noon []"] show ?thesis
    by (auto simp: regions_def cmd_ops_INCR conc_start_def)
qed



text \<open>C18: \<^verbatim>\<open>KEYS\<close> and \<^verbatim>\<open>DBSIZE\<close> beside other commands. Each visits the shards at moments that follow
  one another in the order of the regions; at each, the store stands for the data after the regions
  done by then. \<^verbatim>\<open>KEYS\<close> lists, once each, the matching keys that were live in their shard at its visit
  and \<^verbatim>\<open>DBSIZE\<close> counts the live ones; none is missed that was in the data at every visit.\<close>

theorem listings_see_moments:
  assumes "typed s" "clock_ok now" "conc_step\<^sup>*\<^sup>* (conc_start s now []) y" "w \<in> set (k_walks y)"
    "length (w_seen w) = length (shards s)"
  shows "sorted (w_from w # map fst (w_seen w)) \<and>
    (\<forall>(p, T, s')\<in>set (w_seen w). p \<le> length (k_hist y) \<and>
       view s' T = age T (fst (lin_run (shardFor s) (take p (k_hist y)) (view s now)))) \<and>
    (let found = {k. view (snd (snd (w_seen w ! shardFor s k))) (w_now w) k \<noteq> None} in
       (case w_kind w of
          Lists pat \<Rightarrow> distinct (w_keys w) \<and> set (w_keys w) = {k \<in> found. denotes (parse_glob pat) k}
        | Counts \<Rightarrow> w_total w = int (card found)
        | Snapshots \<Rightarrow> True) \<and>
       (\<forall>k. (\<forall>(p, T, s')\<in>set (w_seen w).
            age T (fst (lin_run (shardFor s) (take p (k_hist y)) (view s now))) k \<noteq> None) \<longrightarrow> k \<in> found))"
proof -
  have "conc_init s (view s now) (conc_start s now [])" using assms(1,2) by (auto simp: conc_init_def)
  from lists.good_reachable [OF this assms(3)] assms(4) have w: "walk_good s (view s now) y w"
    by (auto simp: list_good_def)
  note res = walk_result [OF w typed_ok [OF assms(1)] assms(5)]
  from w have "sorted (w_from w # map fst (w_seen w))" "gathered s w" "\<forall>x\<in>set (w_seen w). moment s (view s now) y x"
    by (simp_all add: walk_good_def)
  then show ?thesis unfolding Let_def res(1) [symmetric] gathered_def
    by (intro conjI allI impI res(2)) (auto simp: moment_def split: walk_kind.splits)
qed

theorem listings_see_moments_witness:
  "\<exists>y w. conc_step\<^sup>*\<^sup>* (conc_start (Store_Set one_shard noon ''a'' ''1'' 0) noon []) y \<and> k_walks y = [w] \<and>
    w_kind w = Lists ''*'' \<and> distinct (w_keys w) \<and> set (w_keys w) = {''a''}"
proof -
  let ?s = "Store_Set one_shard noon ''a'' ''1'' 0"
  have s: "typed ?s" by (simp add: typed_Set)
  obtain y w where y: "conc_step\<^sup>*\<^sup>* (conc_start ?s noon []) y" "k_walks y = [w]" "w_kind w = Lists ''*''"
    "length (w_seen w) = length (shards ?s)" "w_keys w = Store_Keys rev ?s noon ''*''"
    using walk_alone [of "conc_start ?s noon []" noon rev "Lists ''*''"] by (auto simp: conc_start_def)
  have "distinct (w_keys w)"
    using listings_see_moments [OF s noon_ok(1) y(1) _ y(4)] y(2,3) by (simp add: Let_def)
  moreover have "set (w_keys w) = {''a''}"
    unfolding y(5) spec_Keys [OF s perm_order_rev]
    by (auto simp: Store_Set_def view_put expired_def split: if_splits)
  ultimately show ?thesis using y by (intro exI [of _ y] exI [of _ w]) simp
qed



text \<open>C20: and whatever the interleaving, when all commands are finished the log holds the entries
  each of them has to log, once, and nothing else.\<close>

theorem log_holds_each_entry_once:
  assumes "conc_step\<^sup>*\<^sup>* (conc_start s now []) y" "\<forall>t\<in>set (k_threads y). finished t"
  shows "mset (k_log y) = sum_list (map (\<lambda>t. mset (logged (th_args t) (th_res t))) (k_threads y))"
  using log_complete [OF klog.good_reachable [OF _ assms(1)] assms(2)] by blast

theorem log_holds_each_entry_once_witness:
  "\<exists>y t. conc_step\<^sup>*\<^sup>* (conc_start one_shard noon []) y \<and> k_threads y = [t] \<and>
    mset (k_log y) = mset (logged [''INCR'', ''a''] (th_res t))"
proof -
  obtain y t where
    y: "conc_step\<^sup>*\<^sup>* (conc_start one_shard noon []) y" "k_threads y = [t]" "finished t" "th_args t = [''INCR'', ''a'']"
    using demo_thread by blast
  from log_holds_each_entry_once [OF y(1)] y show ?thesis by (intro exI [of _ y] exI [of _ t]) simp
qed

text \<open>C21: but the order of the log need not be that of the operations: two clients that set one key
  can leave a store with the one value and a log that replays to the other.\<close>

theorem log_order_race:
  "\<exists>y. conc_step\<^sup>*\<^sup>* (conc_start one_shard noon []) y \<and> list_all finished (k_threads y) \<and>
    view (k_store y) noon ''a'' = Some (AStr ''2'', 0) \<and> replay_db (k_log y) Map.empty ''a'' = Some (AStr ''1'', 0)"
  using log_race [OF one_shard_ok(1) noon_ok(1), of noon "''a''"] by (simp add: list_all_iff)

section \<open>The protocol\<close>









text \<open>C26: while a connection has subscriptions, none of its commands reads or changes the data or
  adds to the log, and every command other than the four allowed ones is refused.\<close>

theorem subscribe_mode_is_isolated:
  assumes "InSubscribeMode cs" "Execute e d cs args = Some (d', cs', w, err)"
  shows "d_Store d' = d_Store d \<and> d_AOF d' = d_AOF d \<and>
    (args \<noteq> [] \<and> ToUpper (args ! 0) \<notin> {''SUBSCRIBE'', ''UNSUBSCRIBE'', ''PING'', ''QUIT''} \<longrightarrow>
      w = WriteError ''ERR only (UN)SUBSCRIBE / PING / QUIT allowed in subscribe mode'' \<and> d' = d \<and> cs' = cs)"
  using Execute_subscribed [OF assms] assms
  by (auto simp: Execute_def Let_def subscribe_mode_allowed_def)

theorem subscribe_mode_is_isolated_witness:
  "Execute demo_env demo_deps \<lparr>c_Subs = [(''c'', 0)], c_Deliver = True, c_delivering = [0]\<rparr> [''INCR'', ''a''] =
    Some (demo_deps, \<lparr>c_Subs = [(''c'', 0)], c_Deliver = True, c_delivering = [0]\<rparr>,
      WriteError ''ERR only (UN)SUBSCRIBE / PING / QUIT allowed in subscribe mode'', None)"
proof -
  let ?cs = "\<lparr>c_Subs = [(''c'', 0)], c_Deliver = True, c_delivering = [0]\<rparr>"
  obtain d' cs' w err where ex: "Execute demo_env demo_deps ?cs [''INCR'', ''a''] = Some (d', cs', w, err)" "err = None"
    by (simp add: Execute_def InSubscribeMode_def subscribe_mode_allowed_def)
  from subscribe_mode_is_isolated [OF _ ex(1)] ex show ?thesis by (simp add: InSubscribeMode_def)
qed

text \<open>C27: reading the encoding of any list of commands that fit into memory gives these commands,
  nothing else, and then end of file.\<close>

theorem commands_round_trip:
  assumes "\<forall>c\<in>set cmds. command_fits c"
  shows "reads_all ReadCommand (enc_all cmds) xs e \<longleftrightarrow> xs = cmds \<and> e = EOF"
proof -
  have "ReadCommand [] = Inl EOF" by (simp add: ReadCommand_def ReadByte_def)
  then have "reads_all ReadCommand (enc_all cmds) cmds EOF"
    using commands.reads_encoded [OF assms, of "[]" "[]" EOF] by (simp add: reads_all.stop)
  then show ?thesis using reads_all_det by metis
qed

theorem commands_round_trip_witness:
  "\<forall>xs e. reads_all ReadCommand (enc_all [[''GET'', ''a'']]) xs e \<longleftrightarrow> xs = [[''GET'', ''a'']] \<and> e = EOF"
  by (intro allI commands_round_trip) (simp add: command_fits_def fits_def maxAlloc_def)

text \<open>Of a stream of commands that is cut anywhere, the whole commands before the cut are read
  and the rest is reported as the end of the input, never as another command.\<close>

theorem torn_stream_reads_prefix:
  assumes "\<forall>c\<in>set cmds. command_fits c" "prefix p (enc_all cmds)"
  shows "\<exists>k e. reads_all ReadCommand p (take k cmds) e \<and> at_end e"
  by (rule commands.reads_torn [OF assms])

theorem torn_stream_reads_prefix_witness:
  "\<exists>k e. reads_all ReadCommand ''*2'' (take k [[''GET'', ''a'']]) e \<and> at_end e"
  by (rule torn_stream_reads_prefix)
    (simp_all add: command_fits_def fits_def maxAlloc_def WriteStringArray_def WriteArrayHeader_def
      FormatInt_def nat_dec_digit digit_char_def char_eval)

text \<open>A replay applies exactly the commands that can be read from the file, in order and until
  the first error of the callback; the end of the input, clean or torn, is no error.\<close>

theorem replay_applies_file:
  assumes "reads_all ReadCommand bytes cmds e"
  shows "Replay (Content bytes) f d =
    (case apply_all f cmds d of
       (d', Some err) \<Rightarrow> (d', ReplayErr err)
     | (d', None) \<Rightarrow> (d', if e = MakePanic then ReplayPanic else ReplayOk))"
  by (simp add: Replay_def replay_loop_reads [OF assms])

theorem replay_applies_file_witness:
  "Replay (Content []) (\<lambda>c n. (Suc n, None :: crash option)) 0 = (0, ReplayOk)"
  using replay_applies_file [OF reads_all.stop [of ReadCommand "[]" EOF], of "\<lambda>c n. (Suc n, None :: crash option)" 0]
  by (simp add: ReadCommand_def ReadByte_def)

section \<open>The matcher of keys\<close>

text \<open>C28: the backtracking matcher of \<^verbatim>\<open>KEYS\<close> decides the language that the pattern denotes, a
  sequence of characters, classes, single wildcards and stars.\<close>

theorem glob_matcher_correct: "globMatch pattern s \<longleftrightarrow> denotes (parse_glob pattern) s"
  by (simp add: globMatch_def matchHere_denotes)

section \<open>Publish and subscribe\<close>

text \<open>C29: a publication that no other step divides reaches every subscriber of the channel whose
  buffer has room, once, at the end of its buffer, and nobody else; it returns how many these are.\<close>

theorem publish_delivers:
  assumes "broker_ok b" "perm_order po"
  shows "\<exists>b'. Broker_Publish po b channel payload =
      Some (b', int (card {p \<in> set (subscribers b channel). length (sub_C (heap b ! p)) < chan_cap})) \<and>
    broker_ok b' \<and> subs b' = subs b \<and> length (heap b') = length (heap b) \<and>
    (\<forall>q<length (heap b). sub_C (heap b' ! q) = sub_C (heap b ! q) @
       (if q \<in> set (subscribers b channel) \<and> length (sub_C (heap b ! q)) < chan_cap
        then [\<lparr>msg_Channel = channel, msg_Payload = payload\<rparr>] else []))"
  using Publish_result [OF assms, of channel payload] by blast

theorem publish_delivers_witness:
  "\<exists>b'. Broker_Publish rev Broker_New ''c'' ''hi'' = Some (b', 0)"
  using publish_delivers [OF broker_ok_New perm_order_rev, of "''c''" "''hi''"]
  by (auto simp: subscribers_def Broker_New_def)

text \<open>C30: and what becomes of a message after that. The messages that are put into the channel of a
  subscription are, at every moment of every run, those that went out to its client, in that order,
  then at most one in the hand of the forwarding goroutine, then those still in the channel. What the
  client has received is the sequence of the forwarded messages, each whole, and of the pieces of its
  replies; after a write that failed, a prefix of it. When the connection has ended nothing is left
  behind.\<close>

theorem messages_arrive_in_order:
  assumes "tracked_init x0" "tracked_step\<^sup>*\<^sup>* x0 x" "y = t_sys x" "i < length (y_conns y)" "c = y_conns y ! i"
    "p \<in> set (c_delivering (cl_conn c))"
  shows "t_sent x p = pushed p (t_out x i) @ in_hand p c @ chan y p \<and> length (in_hand p c) \<le> 1 \<and>
    (if cl_broken c then prefix (cl_out c) (concat (map chunk_bytes (t_out x i)))
     else cl_out c = concat (map chunk_bytes (t_out x i))) \<and>
    (cl_status c = Gone \<longrightarrow> t_sent x p = pushed p (t_out x i))"
  using delivered [OF deliv.good_reachable [OF assms(1,2)] assms(3,4)] assms(5,6) by blast

theorem messages_arrive_in_order_witness:
  "\<exists>x0 x ms. tracked_init x0 \<and> tracked_step\<^sup>*\<^sup>* x0 x \<and> t_sys x0 = demo_system 0 \<and>
    pushed 0 (t_out x 0) = ms @ [\<lparr>msg_Channel = ''c'', msg_Payload = ''hi''\<rparr>] \<and> t_sent x 0 = pushed 0 (t_out x 0)"
proof -
  let ?x0 = "\<lparr>t_sys = demo_system 0, t_sent = (\<lambda>p. []), t_out = (\<lambda>i. [])\<rparr>"
  let ?m = "\<lparr>msg_Channel = ''c'', msg_Payload = ''hi''\<rparr>"
  obtain y where y: "srv_step\<^sup>*\<^sup>* (demo_system 0) y" "at y 0 Leaving" "0 \<in> set (c_delivering (cl_conn (y_conns y ! 0)))"
    "cl_hand (y_conns y ! 0) = []" "at y 1 (Publishing ?m [0] 0)"
    "heap (srv_broker (y_srv y)) = [\<lparr>sub_Channel = ''c'', sub_C = [], sub_closed = False\<rparr>]"
    using demo_publishing by blast
  obtain x where x: "tracked_step\<^sup>*\<^sup>* ?x0 x" "t_sys x = y" using tracked_run [OF y(1), of ?x0] by auto
  let ?b = "srv_broker (y_srv y)" and ?c = "y_conns y ! 0" and ?q = "y_conns y ! 1"
  let ?b1 = "?b\<lparr>heap := [\<lparr>sub_Channel = ''c'', sub_C = [?m], sub_closed = False\<rparr>]\<rparr>"
  let ?y1 = "set_client 1 (?q\<lparr>cl_status := Publishing ?m [] 1\<rparr>) (y\<lparr>y_srv := (y_srv y)\<lparr>srv_broker := ?b1\<rparr>\<rparr>)"
  have len: "1 < length (y_conns y)" "\<not> y_panicked y" "cl_status ?c = Leaving" using y(2,5) by (auto simp: at_def)
  have len0: "0 < length (y_conns y)" using len(1) by linarith
  have s1: "srv_step y ?y1"
    using srv_step.send [OF y(5), of ?b1 True] y(6) by (simp add: try_send_def chan_cap_def)
  let ?b2 = "?b\<lparr>heap := [\<lparr>sub_Channel = ''c'', sub_C = [], sub_closed = False\<rparr>]\<rparr>"
  let ?y2 = "set_client 0 (?c\<lparr>cl_hand := [(0, ?m)]\<rparr>) (?y1\<lparr>y_srv := (y_srv ?y1)\<lparr>srv_broker := ?b2\<rparr>\<rparr>)"
  have s2: "srv_step ?y1 ?y2"
    using srv_step.receive [of ?y1 0 0 ?b2 ?m] y(3,4) len len0 by (simp add: chan_recv_def)
  let ?y3 = "set_client 0 (put_out (deliver_bytes ?m) (?c\<lparr>cl_hand := []\<rparr>)) ?y2"
  have s3: "srv_step ?y2 ?y3"
    using srv_step.deliver [of ?y2 0 0 ?m] len len0 by (simp add: publishing_def)
  let ?x3 = "follow (follow (follow x ?y1) ?y2) ?y3"
  have run: "tracked_step\<^sup>*\<^sup>* ?x0 ?x3"
  proof -
    have "tracked_step x (follow x ?y1)" "tracked_step (follow x ?y1) (follow (follow x ?y1) ?y2)"
      "tracked_step (follow (follow x ?y1) ?y2) ?x3"
      using s1 s2 s3 x(2) by (simp_all add: tracked_step_def follow_def)
    with x(1) show ?thesis by (meson rtranclp.rtrancl_into_rtrancl)
  qed
  have out: "out_now ?y2 ?y3 0 = [Push 0 ?m]" using len0 by (simp add: out_now_def)
  have init: "tracked_init ?x0" by (simp add: tracked_init_def)
  have sys3: "t_sys ?x3 = ?y3" by (simp add: follow_def)
  have c3: "y_conns ?y3 ! 0 = put_out (deliver_bytes ?m) (?c\<lparr>cl_hand := []\<rparr>)" "0 < length (y_conns ?y3)" using len0 by simp_all
  have none: "in_hand 0 (y_conns ?y3 ! 0) = []" "chan ?y3 0 = []" using len0 by (simp_all add: in_hand_def chan_def put_out_def)
  have "0 \<in> set (c_delivering (cl_conn (y_conns ?y3 ! 0)))" using y(3) len0 by (simp add: put_out_def)
  from messages_arrive_in_order [OF init run sys3 [symmetric] c3(2) refl this] none
  have "t_sent ?x3 0 = pushed 0 (t_out ?x3 0)" by simp
  moreover have "pushed 0 (t_out ?x3 0) = pushed 0 (t_out (follow (follow x ?y1) ?y2) 0) @ [?m]"
    unfolding follow_def [of "follow (follow x ?y1) ?y2"] using out by (simp add: follow_def)
  ultimately show ?thesis using init run
    by (intro exI [of _ ?x0] exI [of _ ?x3] exI [of _ "pushed 0 (t_out (follow (follow x ?y1) ?y2) 0)"]) simp
qed

text \<open>C31: under every interleaving of subscriptions, unsubscriptions, publications in flight and
  receives, the broker stays well formed and \<^verbatim>\<open>Unsubscribe\<close> does not panic; the one step that can
  panic is a send of a publication in flight, to a subscription that has been closed since the
  publication took its snapshot.\<close>

theorem broker_invariant:
  assumes "pub_init s0" "pub_step\<^sup>*\<^sup>* s0 s"
  shows "broker_ok (brk s) \<and> (\<forall>p. \<exists>b'. Broker_Unsubscribe (brk s) p = Some b') \<and>
    (\<forall>t. pub_step s t \<and> panicked t \<longrightarrow>
      (\<exists>msg p ps. (msg, p # ps) \<in> set (flight s) \<and> sub_closed (heap (brk s) ! p)))"
proof -
  have good: "pub_good s" by (rule pub.good_reachable [OF assms])
  then have ok: "broker_ok (brk s)" by (simp add: pub_good_def)
  with Unsubscribe_Some [OF ok] only_sends_panic [OF good] show ?thesis by blast
qed

theorem broker_invariant_witness:
  "\<exists>(s::pubsys) t msg p ps. pub_step s t \<and> panicked t \<and> broker_ok (brk s) \<and>
    (msg, p # ps) \<in> set (flight s) \<and> sub_closed (heap (brk s) ! p)"
proof -
  obtain s0 s t where *: "pub_init s0" "pub_step\<^sup>*\<^sup>* s0 s" "pub_step s t" "panicked t" using send_race by blast
  with broker_invariant [OF *(1,2)] show ?thesis by blast
qed

text \<open>C32: a subscriber that disconnects while another client publishes to its channel can bring
  the server down: when the publication has taken its snapshot and still has to send to it, the
  end of the connection closes the channel, and the next send panics.\<close>

theorem leaving_subscriber_kills_server:
  assumes "sys_init y0" "srv_step\<^sup>*\<^sup>* y0 y" "at y i Leaving" "p \<in> ptrs (cl_conn (y_conns y ! i))"
    "at y j (Publishing m (p # ps) n)"
  shows "\<exists>y'. srv_step y y' \<and> cl_status (y_conns y' ! i) = Closing \<and> srv_step y' (y'\<lparr>y_panicked := True\<rparr>)"
  by (rule leaving_kills_publisher [OF srv.good_reachable [OF assms(1,2)] assms(3-5) demo_env_ok])

theorem leaving_subscriber_kills_server_witness:
  "\<exists>y. srv_step\<^sup>*\<^sup>* (demo_system 0) y \<and> y_panicked y"
proof -
  obtain y where y: "srv_step\<^sup>*\<^sup>* (demo_system 0) y" "at y 0 Leaving" "0 \<in> ptrs (cl_conn (y_conns y ! 0))"
    "at y 1 (Publishing \<lparr>msg_Channel = ''c'', msg_Payload = ''hi''\<rparr> [0] 0)"
    using demo_publishing by blast
  from leaving_subscriber_kills_server [OF demo_system_init y] obtain y' where
    "srv_step y y'" "srv_step y' (y'\<lparr>y_panicked := True\<rparr>)" by blast
  with y(1) have "srv_step\<^sup>*\<^sup>* (demo_system 0) (y'\<lparr>y_panicked := True\<rparr>)"
    by (meson rtranclp.rtrancl_into_rtrancl)
  then show ?thesis by (intro exI [of _ "y'\<lparr>y_panicked := True\<rparr>"]) simp
qed

section \<open>Parts of the store\<close>

text \<open>C33: a sweep removes exactly the entries that have expired, no live entry and no later view of
  the data changes, and the number it returns is that of the entries it removed.\<close>

theorem sweep_removes_expired:
  assumes "typed s" "perm_order po"
  shows "sh_lookup (fst (Store_SweepExpired po s now)) k = getLive s k now \<and>
    (now \<le> now' \<longrightarrow> view (fst (Store_SweepExpired po s now)) now' = view s now') \<and>
    snd (Store_SweepExpired po s now) = int (length (store_keys s)) - Store_DBSize s now"
  using sweep_lookup(2) [OF typed_ok [OF assms(1)] assms(2), of now k]
    spec_Sweep [OF typed_ok [OF assms(1)] assms(2), of now now']
    sweep_count [OF typed_ok [OF assms(1)] assms(2), of now] by simp

theorem sweep_removes_expired_witness:
  "sh_lookup (fst (Store_SweepExpired rev (Store_Set one_shard noon ''a'' ''1'' 5) (noon + 6))) ''a'' = None"
proof -
  have "typed (Store_Set one_shard noon ''a'' ''1'' 5)" by (simp add: typed_Set)
  from sweep_removes_expired [OF this perm_order_rev, of "noon + 6" "''a''" noon] show ?thesis
    by (simp add: getLive_def Store_Set_def expired_def noon_def)
qed

text \<open>C34: \<^verbatim>\<open>KEYS\<close>, \<^verbatim>\<open>HGETALL\<close>, \<^verbatim>\<open>HKEYS\<close>, \<^verbatim>\<open>HVALS\<close>, \<^verbatim>\<open>TTL\<close> and \<^verbatim>\<open>PTTL\<close> change nothing and answer, in
  some order and each element once, what the specification says of the flat data set: the live keys
  that the pattern denotes, the fields with their values, the fields, the values, or the whole
  seconds or milliseconds to the deadline.\<close>

theorem read_commands_answer:
  assumes "typed (d_Store d)" "env_ok e" "\<not> InSubscribeMode cs" "read_op e args = Some op"
  shows "\<exists>w. Execute e d cs args = Some (d, cs, w, None) \<and>
    w \<in> tells (ttl_unit args) (snd (spec_op (clk e 0) op (view (d_Store d) (clk e 0))))"
  by (rule reads_answered [OF assms])

theorem read_commands_answer_witness:
  "\<exists>w. Execute demo_env (demo_deps\<lparr>d_Store := Store_Set one_shard noon ''a'' ''1'' 5000000000\<rparr>) (new_conn True) [''PTTL'', ''a''] =
      Some (demo_deps\<lparr>d_Store := Store_Set one_shard noon ''a'' ''1'' 5000000000\<rparr>, new_conn True, w, None) \<and>
    w = WriteInteger 5000"
proof -
  have "ToUpper ''PTTL'' = ''PTTL''" by (rule ToUpper_fixed) (simp add: ascii_upper_def in_bytes_def)
  moreover have "view (Store_Set one_shard noon ''a'' ''1'' 5000000000) noon ''a'' = Some (AStr ''1'', noon + 5000000000)"
    by (simp add: Store_Set_def view_put expired_def abs_val_def)
  moreover have "noon + 5000000000 \<noteq> 0" "go_quot (time_Sub (noon + 5000000000) (noon + 0)) Millisecond = 5000"
    by (simp_all add: noon_def time_Sub_def go_quot_def Millisecond_def int64_defs)
  ultimately show ?thesis
    using read_commands_answer [of "demo_deps\<lparr>d_Store := Store_Set one_shard noon ''a'' ''1'' 5000000000\<rparr>" demo_env
      "new_conn True" "[''PTTL'', ''a'']"]
    by (simp add: typed_Set read_op_def read_at_def ttl_unit_def)
qed

text \<open>In the store, \<^verbatim>\<open>Keys\<close> lists every live key that the pattern denotes, once, and no other, and
  \<^verbatim>\<open>DBSize\<close> is the number of live keys.\<close>

theorem keys_lists_matching_keys:
  assumes "typed s" "perm_order po"
  shows "set (Store_Keys po s now pat) = {k. view s now k \<noteq> None \<and> denotes (parse_glob pat) k} \<and>
    distinct (Store_Keys po s now pat) \<and> Store_DBSize s now = int (card {k. view s now k \<noteq> None})"
  using spec_Keys [OF assms, of now pat] Keys_distinct [OF assms] spec_DBSize [OF assms(1), of now]
  by (auto simp: domIff dom_def)

theorem keys_lists_matching_keys_witness:
  "set (Store_Keys rev one_shard noon ''*'') = {} \<and> Store_DBSize one_shard noon = 0"
  using keys_lists_matching_keys [OF one_shard_ok(1) perm_order_rev, of noon "''*''"] by simp

text \<open>In every store that \<^verbatim>\<open>New\<close> builds, a key selects an existing shard, and with up to
  \<open>2 ^ 32\<close> shards the bit mask is the remainder of the hash by their number.\<close>

theorem shard_selection:
  assumes "Store_New c = Some s"
  shows "shardFor s key < length (shards s) \<and>
    (length (shards s) \<le> 2 ^ 32 \<longrightarrow> shardFor s key = unat (fnv32a key) mod length (shards s))"
proof -
  obtain k where k: "length (shards s) = 2 ^ k" "mask s = word_of_int (2 ^ k - 1)"
    using Store_New_power [OF assms] by metis
  have "k \<le> 32" if "length (shards s) \<le> 2 ^ 32"
    using that unfolding k(1) by (simp only: power_le_imp_le_exp [of 2] one_less_numeral_iff semiring_norm)
  with shardFor_mod [OF k] shardFor_less [OF Store_New_ok [OF assms]] show ?thesis by blast
qed

theorem shard_selection_witness: "shardFor one_shard ''a'' < length (shards one_shard)"
  using shard_selection [OF New_one_shard, of "''a''"] by blast

text \<open>C35: the number of shards is the least power of two that is at least the number asked for, for
  every request up to \<open>2 ^ 62\<close>, and the loop that finds it ends; beyond, it never ends.\<close>

theorem shard_count_least_power:
  "if n \<le> 2 ^ 62 then \<exists>k\<le>62. nextPow2 n = Some (2 ^ k) \<and> n \<le> 2 ^ k \<and> (k = 0 \<or> 2 ^ (k - 1) < n)
   else nextPow2 n = None"
proof (cases "n \<le> 2 ^ 62")
  case True
  from nextPow2_least [OF this] have "\<exists>k\<le>62. nextPow2 n = Some (2 ^ k) \<and> n \<le> 2 ^ k \<and> (k = 0 \<or> 2 ^ (k - 1) < n)"
    by metis
  with True show ?thesis by simp
qed (use nextPow2_diverges [of n] in simp)

theorem shard_count_least_power_witness:
  "\<exists>k\<le>62. nextPow2 12 = Some (2 ^ k) \<and> 12 \<le> (2::int) ^ k \<and> (k = 0 \<or> 2 ^ (k - 1) < (12::int))"
  using shard_count_least_power [of 12] by simp

text \<open>The overflow check of \<^verbatim>\<open>INCRBY\<close> is exact at the ends of the 64-bit range: it refuses an
  increment just when the sum does not fit.\<close>

theorem incr_overflow_check_exact:
  assumes "in_int64 cur" "in_int64 delta"
  shows "incr_entry e cur delta =
    (if minInt64 \<le> cur + delta \<and> cur + delta \<le> maxInt64
     then Inr (e\<lparr>e_str := FormatInt (cur + delta)\<rparr>, cur + delta) else Inl ErrOverflow)"
  using incr_entry_spec [OF assms, of e] by (simp add: in_int64_def)

theorem incr_overflow_check_exact_witness: "incr_entry entry0 maxInt64 1 = Inl ErrOverflow"
  using incr_overflow_check_exact [of maxInt64 1 entry0] by (simp add: int64_defs)

text \<open>Positions in a list. \<^verbatim>\<open>LINDEX\<close> counts from the head, or from the tail for a negative
  index, and gives nothing outside the list; \<^verbatim>\<open>LRANGE\<close> gives the elements whose position lies
  between the two bounds, each counted from the end when negative, whatever the bounds are.\<close>

theorem list_positions:
  assumes "in_int64 a" "in_int64 b" "int (length xs) \<le> maxInt64"
  shows "list_index xs a =
      (if 0 \<le> a \<and> a < int (length xs) then Some (xs ! nat a)
       else if - int (length xs) \<le> a \<and> a < 0 then Some (rev xs ! nat (- a - 1))
       else None) \<and>
    list_range xs a b =
      nths xs {i. (if a < 0 then int (length xs) + a else a) \<le> int i \<and>
                  int i \<le> (if b < 0 then int (length xs) + b else b)}"
  using list_index_nth [OF assms(1,3)] list_range_nths [OF assms] by blast

theorem list_positions_witness:
  "list_index [''a'', ''b'', ''c''] (-1) = Some ''c'' \<and>
    list_range [''a'', ''b'', ''c''] (-1) (-1) = nths [''a'', ''b'', ''c''] {i. 2 \<le> int i \<and> int i \<le> 2}"
  using list_positions [of "-1" "-1" "[''a'', ''b'', ''c'']"] by (simp add: int64_defs)

section \<open>Words and options\<close>

text \<open>C36: the options of \<^verbatim>\<open>SET\<close> are accepted just when each is well formed, at most one gives a time
  to live, and \<^verbatim>\<open>NX\<close> and \<^verbatim>\<open>XX\<close> do not both occur; they may come in any order.\<close>

theorem set_options_grammar:
  "parseSetOpts opts =
    (case set_tokens opts of
       None \<Rightarrow> None
     | Some os \<Rightarrow>
         if length (ttls os) \<le> 1 \<and> \<not> (NXOpt \<in> set os \<and> XXOpt \<in> set os)
         then Some (if ttls os = [] then 0 else last (ttls os), NXOpt \<in> set os, XXOpt \<in> set os)
         else None)"
  by (auto simp: parseSetOpts_grammar compatible_def last_or_def split: option.split)

section \<open>The HTTP front end\<close>



section \<open>Limits of the code\<close>

text \<open>C38: a crash inside a \<^verbatim>\<open>SET\<close> corrupts the log for good: the torn command stays in the file,
  what a restarted server appends comes right after it, and the next replay sets the key to the
  beginning of the old value followed by bytes of the commands that came later.\<close>

theorem torn_tail_corrupts:
  assumes "log_init s0" "base s0 = torn_set k v1 v2" "log_step\<^sup>*\<^sup>* s0 s" "base s = base s0"
    "pending (lg s) = []" "fits k" "fits (v1 @ v2)" "length v2 + 2 \<le> length (enc_all (hist s))"
  shows "strict_prefix (base s0) (WriteStringArray [''SET'', k, v1 @ v2]) \<and>
    (\<exists>rest. ReadCommand (wfile (l_w (lg s))) = Inr ([''SET'', k, v1 @ take (length v2) (enc_all (hist s))], rest))"
proof -
  have "wfile (l_w (lg s)) = base s @ enc_all (hist s)"
    by (rule log_good_drained [OF aof.good_reachable [OF assms(1,3)] assms(5)])
  then show ?thesis
    using torn_set_absorbs [OF assms(6-8)] torn_set_prefix [of k v1 v2] assms(2,4) by auto
qed

theorem torn_tail_corrupts_witness:
  "\<exists>s rest. log_step\<^sup>*\<^sup>* \<lparr>lg = Log_Open (torn_set ''a'' ''he'' ''llo''), base = torn_set ''a'' ''he'' ''llo'', hist = []\<rparr> s \<and>
    ReadCommand (wfile (l_w (lg s))) = Inr ([''SET'', ''a'', ''he*1'' @ [CR]], rest)"
proof -
  let ?p = "torn_set ''a'' ''he'' ''llo''" and ?c = "[''PING'']"
  let ?t = "\<lparr>lg = Log_Open ?p, base = ?p, hist = []\<rparr>"
  let ?l1 = "(Log_Open ?p)\<lparr>l_ch := [?c]\<rparr>" and ?l2 = "(Log_Open ?p)\<lparr>l_cur := Some ?c\<rparr>"
  let ?l3 = "(Log_Open ?p)\<lparr>l_w := Flush (writeCommand (NewFileWriter ?p) ?c)\<rparr>"
  have "log_step ?t (?t\<lparr>lg := ?l1, hist := [?c]\<rparr>)"
    using log_step.append [of ?t ?c ?l1] by (simp add: Log_Append_def Log_Open_def ch_cap_def)
  moreover have "log_step (?t\<lparr>lg := ?l1, hist := [?c]\<rparr>) (?t\<lparr>lg := ?l2, hist := [?c]\<rparr>)"
    using log_step.receive [of "?t\<lparr>lg := ?l1, hist := [?c]\<rparr>" ?l2] by (simp add: writer_receive_def Log_Open_def)
  moreover have "log_step (?t\<lparr>lg := ?l2, hist := [?c]\<rparr>) (?t\<lparr>lg := ?l3, hist := [?c]\<rparr>)"
    using log_step.body [of "?t\<lparr>lg := ?l2, hist := [?c]\<rparr>" ?l3] by (simp add: writer_body_def Log_Open_def)
  ultimately have steps: "log_step\<^sup>*\<^sup>* ?t (?t\<lparr>lg := ?l3, hist := [?c]\<rparr>)"
    by (meson rtranclp.rtrancl_into_rtrancl rtranclp.rtrancl_refl)
  have enc: "enc_all [?c] = ''*1'' @ CRLF @ WriteBulkString ''PING''"
    by (simp add: WriteStringArray_def WriteArrayHeader_def FormatInt_small)
  have 3: "take (length ''llo'') (enc_all [?c]) = ''*1'' @ [CR]" and 5: "length ''llo'' + 2 \<le> length (enc_all [?c])"
    by (simp_all only: enc) (simp_all add: CRLF_def WriteBulkString_def)
  let ?u = "?t\<lparr>lg := ?l3, hist := [?c]\<rparr>"
  have small: "fits ''a''" "fits (''he'' @ ''llo'')" by (simp_all add: fits_def maxAlloc_def)
  have init: "log_init ?t" by (simp only: log_init_def logsys.simps)
  have "pending (lg ?u) = []" by (simp add: pending_def Log_Open_def)
  from torn_tail_corrupts [OF init _ steps _ this small] 5
  have "\<exists>rest. ReadCommand (wfile (l_w (lg ?u))) =
      Inr ([''SET'', ''a'', ''he'' @ take (length ''llo'') (enc_all [?c])], rest)" by simp
  with steps show ?thesis unfolding 3 by (intro exI [of _ ?u]) auto
qed



text \<open>C40: the limit on clients can be exceeded: connections that are accepted before the goroutines
  of the earlier ones have counted them all pass the check.\<close>

theorem client_limit_overshoots:
  "\<exists>y. srv_step\<^sup>*\<^sup>* (demo_system 1) y \<and> MaxClients (srv_cfg (y_srv y)) = 1 \<and> clients (y_srv y) = 2"
proof -
  define c where "c = admit (demo_server 1)"
  have c: "cl_status c = Starting" by (simp add: c_def admit_def demo_server_def)
  define s where "s n = (demo_server 1)\<lparr>clients := n\<rparr>" for n
  define y where "y k w = (demo_system 1)\<lparr>y_conns := replicate k c, y_wg := w\<rparr>" for k w
  have 0: "demo_system 1 = y 0 1" by (simp add: y_def demo_system_def)
  have acc: "srv_step (y k w) (y (Suc k) (w + 1))" for k w
    using srv_step.accept [of "y k w"] c
    by (simp add: y_def demo_system_def c_def [symmetric] replicate_append_same [symmetric])
  let ?b = "c\<lparr>cl_status := Checking\<rparr>"
  let ?y1 = "(y 2 3)\<lparr>y_srv := s 1, y_conns := [?b, c]\<rparr>" and ?y2 = "(y 2 3)\<lparr>y_srv := s 2, y_conns := [?b, ?b]\<rparr>"
  have st1: "srv_step (y 2 3) ?y1"
    using srv_step.start [of "y 2 3" 0] c
    by (simp add: at_def set_client_def y_def demo_system_def s_def demo_server_def numeral_2_eq_2)
  have st2: "srv_step ?y1 ?y2"
    using srv_step.start [of ?y1 1] c
    by (simp add: at_def set_client_def y_def demo_system_def s_def demo_server_def)
  have "srv_step (y 0 1) (y 1 2)" "srv_step (y 1 2) (y 2 3)" using acc [of 0 1] acc [of 1 2] by (simp_all add: numeral_2_eq_2)
  then have "srv_step\<^sup>*\<^sup>* (y 0 1) (y 2 3)" by (meson rtranclp.rtrancl_into_rtrancl rtranclp.rtrancl_refl)
  then have "srv_step\<^sup>*\<^sup>* (demo_system 1) ?y2" using st1 st2 unfolding 0 by (meson rtranclp.rtrancl_into_rtrancl)
  then show ?thesis by (intro exI [of _ ?y2]) (simp add: s_def demo_server_def)
qed

subsection \<open>Further limits\<close>

text \<open>An inline command of printable words joined by single spaces is split into these words.\<close>

theorem inline_words_round_trip: "\<forall>w\<in>set ws. plain_word w \<Longrightarrow> splitInline (join_words ws) = ws"
  by (rule splitInline_join)

theorem inline_words_round_trip_witness: "splitInline ''GET a'' = [''GET'', ''a'']"
  using inline_words_round_trip [of "[''GET'', ''a'']"] by (simp add: plain_word_def in_bytes_def)

text \<open>The value \<^verbatim>\<open>$-1\<close> can be set, but a request for its key is told that it does not exist.\<close>

theorem http_get_confuses_null:
  assumes "fits k" "k \<noteq> []" "typed (d_Store d)"
  shows "handleGet (loopback envs' (state_after envs d [''SET'', k, ''$-1''])) k =
    \<lparr>http_status = 200, http_body = [Lit ''{\"key\":'', Quoted k, Lit '',\"found\":false}'']\<rparr>"
proof -
  let ?d = "state_after envs d [''SET'', k, ''$-1'']"
  have v: "fits ''$-1''" by (simp add: fits_def maxAlloc_def)
  have "typed (d_Store ?d)" using set_reply(2) [OF assms(1) v] assms(3) by (simp add: typed_Set)
  moreover have "view (d_Store ?d) now k = Some (AStr ''$-1'', 0)" for now
    using set_reply(2) [OF assms(1) v] assms(3)
    by (simp add: Store_Set_def view_put typed_ok expired_def abs_val_def)
  ultimately have "respCommand (loopback envs' ?d) [''GET'', k] = Inr ''$-1''"
    using get_reply [OF assms(1), of ?d envs' "''$-1''" 0] by (simp add: maxAlloc_def)
  with assms(2) show ?thesis by (simp add: handleGet_def)
qed

theorem http_get_confuses_null_witness:
  "handleGet (loopback (\<lambda>n. demo_env) (state_after (\<lambda>n. demo_env) demo_deps [''SET'', ''a'', ''$-1''])) ''a'' =
    \<lparr>http_status = 200, http_body = [Lit ''{\"key\":'', Quoted ''a'', Lit '',\"found\":false}'']\<rparr>"
  by (rule http_get_confuses_null) (simp_all add: fits_def maxAlloc_def)

text \<open>A time to live in seconds is multiplied without a check: a large one wraps to a negative
  duration and the key is gone at once.\<close>

theorem expire_wraps_and_deletes:
  assumes "typed (d_Store d)" "clock_ok (clk e 0)"
  shows "view (d_Store (fst (cmdExpire e d [''EXPIRE'', k, FormatInt 9223372037] Second))) (clk e 0) k = None"
proof -
  have n: "ParseInt (FormatInt 9223372037) = Some 9223372037"
    by (rule ParseInt_FormatInt) (simp add: int64_defs)
  let ?ttl = "wrap64 (9223372037 * Second)"
  have ttl: "?ttl < 0" "in_int64 ?ttl" by (simp_all add: wrap64_def Second_def int64_defs)
  let ?r = "Store_Expire (d_Store d) (clk e 0) k ?ttl"
  have "view (fst ?r) (clk e 0) = fst (spec_op (clk e 0) (OpExpire k ?ttl) (view (d_Store d) (clk e 0)))"
    using spec_Expire [OF assms ttl(2), of k id] by (simp add: prod_eq_iff)
  then have "view (fst ?r) (clk e 0) k = None"
    using ttl(1) by (auto split: option.splits)
  then show ?thesis by (simp add: cmdExpire_def n Let_def case_prod_unfold)
qed

theorem expire_wraps_and_deletes_witness:
  "view (d_Store (fst (cmdExpire demo_env demo_deps [''EXPIRE'', ''a'', FormatInt 9223372037] Second))) noon ''a'' = None"
  using expire_wraps_and_deletes [of demo_deps demo_env "''a''"] by simp

text \<open>An increment keeps the deadline of a key, but what it logs is a plain \<^verbatim>\<open>SET\<close>, whose replay
  drops the deadline.\<close>

theorem increment_log_drops_deadline:
  assumes "view s now k = Some (AStr x, t)" "ParseInt x = Some n" "in_int64 (n + 1)"
  shows "let (db, rs) = run_ops (spec_op now) (cmd_ops [''INCR'', k]) (view s now) in
    db k = Some (AStr (FormatInt (n + 1)), t) \<and>
    logged [''INCR'', k] rs = [[''SET'', k, FormatInt (n + 1)]] \<and>
    replay_at T (logged [''INCR'', k] rs) (view s now) k = Some (AStr (FormatInt (n + 1)), 0)"
  using assms
  by (simp add: cmd_ops_INCR spec_incr_def Let_def logged_def logged_for_def effective_def is_int_def
      log_entry_def cmd_ops_SET deadline_def)

theorem increment_log_drops_deadline_witness:
  "replay_at noon [[''SET'', ''a'', FormatInt 2]] (view (Store_Set one_shard noon ''a'' ''1'' Second) noon) ''a'' =
    Some (AStr (FormatInt 2), 0)"
proof -
  have "view (Store_Set one_shard noon ''a'' ''1'' Second) noon ''a'' = Some (AStr ''1'', noon + Second)"
    by (simp add: Store_Set_def view_put expired_def abs_val_def Second_def)
  moreover have "ParseInt ''1'' = Some 1" using ParseInt_FormatInt [of 1] by (simp add: FormatInt_small int64_defs)
  ultimately show ?thesis
    using increment_log_drops_deadline [of "Store_Set one_shard noon ''a'' ''1'' Second" noon "''a''" "''1''"
        "noon + Second" 1 noon] by (auto simp: Let_def int64_defs case_prod_unfold)
qed

text \<open>A rewrite makes a key permanent that has less than a millisecond to live.\<close>

theorem rewrite_drops_short_deadline:
  assumes "0 \<le> t - w" "t - w < Millisecond" "e_kind e = KindString"
  shows "snapshotCommands po w (snapshot_entry po k (e\<lparr>expiresAt := t\<rparr>)) = [[''SET'', k, e_str e]]"
  using assms
  by (simp add: snapshotCommands_def snapshot_entry_def msUntil_def time_Sub_def Millisecond_def int64_defs Let_def)

theorem rewrite_drops_short_deadline_witness:
  "snapshotCommands rev noon (snapshot_entry rev ''a'' ((string_entry ''1'')\<lparr>expiresAt := noon + 5\<rparr>)) =
    [[''SET'', ''a'', ''1'']]"
  using rewrite_drops_short_deadline [of "noon + 5" noon "string_entry ''1''" rev "''a''"]
  by (simp add: Millisecond_def)

text \<open>After a rewrite whose rename fails the log is closed and stays closed: no later command
  reaches the file.\<close>

theorem failed_rename_stops_logging:
  assumes "Rewrite (Some RenameFails) cmds l = (l', err)"
  shows "wfile (Flush (fold (\<lambda>c w. writeCommand w c) cs (l_w l'))) = wfile (l_w l')"
  using assms by (auto simp: Rewrite_def Let_def closed_file_frozen)

theorem failed_rename_stops_logging_witness:
  "wfile (Flush (fold (\<lambda>c w. writeCommand w c) [[''SET'', ''a'', ''1'']]
      (l_w (fst (Rewrite (Some RenameFails) [] (Log_Open ''x'')))))) = ''x''"
proof -
  let ?r = "Rewrite (Some RenameFails) [] (Log_Open ''x'')"
  have "wfile (l_w (fst ?r)) = ''x''"
    by (simp add: Rewrite_def Let_def Log_Open_def NewFileWriter_def Flush_def)
  moreover have "Rewrite (Some RenameFails) [] (Log_Open ''x'') = (fst ?r, snd ?r)" by simp
  ultimately show ?thesis using failed_rename_stops_logging [of "[]" "Log_Open ''x''" "fst ?r" "snd ?r"] by metis
qed

text \<open>\<^verbatim>\<open>DECRBY\<close> of the least 64-bit number is \<^verbatim>\<open>INCRBY\<close> of it, since its negation wraps: the
  counter is decreased where an overflow is due.\<close>

theorem decrby_least_number_wraps:
  "cmdIncrBy e d [''DECRBY'', k, FormatInt minInt64] 0 True =
   cmdIncrBy e d [''INCRBY'', k, FormatInt minInt64] 0 True"
  using ParseInt_FormatInt [of minInt64]
  by (simp add: cmdIncrBy_def incr_delta_def wrap64_def int64_defs Let_def split: prod.split sum.split)

end
